(* ===== verification/Prelude.thy ===== *)
theory Prelude
  imports Main "HOL-Library.Word" "HOL-Library.Monad_Syntax"
begin

text \<open>
  Shared base of the development: names for the machine types of the code, the bounds-checked
  memory copy that models \<^verbatim>\<open>memcpy\<close>, and the lemmas on lists used as circular memory
  that the ring buffer proofs rest on.

  The C++ integer types are words: \<^verbatim>\<open>unsigned int\<close> is \<^typ>\<open>32 word\<close>, \<^verbatim>\<open>unsigned long\<close> is
  \<^typ>\<open>64 word\<close>, \<^verbatim>\<open>char\<close> buffers are lists of \<^typ>\<open>8 word\<close>. A signed \<^verbatim>\<open>int\<close> is a
  \<^typ>\<open>32 word\<close> read with \<open>sint\<close>, or an \<^typ>\<open>int\<close> where the code's checks keep it in range.
\<close>

unbundle bit_operations_syntax

type_synonym byte = "8 word"
type_synonym u32 = "32 word"
type_synonym u64 = "64 word"

named_theorems word_nat "facts that read word arithmetic as arithmetic on nat"

section \<open>Memory copies\<close>

text \<open>
  \<open>memcpy_at dst doff src soff n\<close> is \<^verbatim>\<open>memcpy(dst + doff, src + soff, n)\<close>. Touching a byte
  outside either array is undefined in C++ and is \<^const>\<open>None\<close> here.
\<close>

definition memcpy_at :: "'a list \<Rightarrow> nat \<Rightarrow> 'a list \<Rightarrow> nat \<Rightarrow> nat \<Rightarrow> 'a list option" where
  "memcpy_at dst doff src soff n =
     (if doff + n \<le> length dst \<and> soff + n \<le> length src
      then Some (take doff dst @ take n (drop soff src) @ drop (doff + n) dst)
      else None)"

lemma memcpy_at_ok:
  "doff + n \<le> length dst \<Longrightarrow> soff + n \<le> length src \<Longrightarrow>
   memcpy_at dst doff src soff n =
     Some (take doff dst @ take n (drop soff src) @ drop (doff + n) dst)"
  by (simp add: memcpy_at_def)

lemma memcpy_at_length: "memcpy_at dst doff src soff n = Some d \<Longrightarrow> length d = length dst"
  by (auto simp: memcpy_at_def split: if_splits)

lemma memcpy_at_nth:
  assumes "memcpy_at dst doff src soff n = Some d" and "i < length dst"
  shows "d ! i = (if doff \<le> i \<and> i < doff + n then src ! (soff + i - doff) else dst ! i)"
proof -
  from assms(1) have bounds: "doff + n \<le> length dst" "soff + n \<le> length src"
      and d: "d = take doff dst @ take n (drop soff src) @ drop (doff + n) dst"
    by (auto simp: memcpy_at_def split: if_splits)
  consider "i < doff" | "\<not> i < doff" "i < doff + n" "i - doff < n"
    | "\<not> i < doff" "\<not> i < doff + n" "\<not> i - doff < n" by linarith
  then show ?thesis using bounds assms(2)
    by cases (simp_all add: d nth_append)
qed

section \<open>Lists as circular memory\<close>

text \<open>
  \<open>ring_slice xs h k\<close> reads \<open>k\<close> cells of the circular memory \<open>xs\<close> from cell \<open>h\<close> on.
\<close>

definition ring_slice :: "'a list \<Rightarrow> nat \<Rightarrow> nat \<Rightarrow> 'a list" where
  "ring_slice xs h k = map (\<lambda>i. xs ! ((h + i) mod length xs)) [0..<k]"

lemma length_ring_slice [simp]: "length (ring_slice xs h k) = k"
  by (simp add: ring_slice_def)

lemma ring_slice_0 [simp]: "ring_slice xs h 0 = []"
  by (simp add: ring_slice_def)

lemma nth_ring_slice: "i < k \<Longrightarrow> ring_slice xs h k ! i = xs ! ((h + i) mod length xs)"
  by (simp add: ring_slice_def)

lemma take_ring_slice: "m \<le> k \<Longrightarrow> take m (ring_slice xs h k) = ring_slice xs h m"
  by (rule nth_equalityI) (simp_all add: nth_ring_slice)

lemma drop_ring_slice:
  "m \<le> k \<Longrightarrow> drop m (ring_slice xs h k) = ring_slice xs ((h + m) mod length xs) (k - m)"
  by (rule nth_equalityI) (simp_all add: nth_ring_slice mod_add_left_eq add.assoc)

lemma ring_slice_straight:
  assumes "h + k \<le> length xs"
  shows "ring_slice xs h k = take k (drop h xs)"
  using assms by (intro nth_equalityI) (auto simp: nth_ring_slice)

lemma ring_slice_wrap:
  assumes "h < length xs" and "length xs \<le> h + k" and "k \<le> length xs"
  shows "ring_slice xs h k = drop h xs @ take (k - (length xs - h)) xs"
proof (rule nth_equalityI)
  show "length (ring_slice xs h k) = length (drop h xs @ take (k - (length xs - h)) xs)"
    using assms by simp
next
  fix i
  assume "i < length (ring_slice xs h k)"
  then have i: "i < k" by simp
  show "ring_slice xs h k ! i = (drop h xs @ take (k - (length xs - h)) xs) ! i"
  proof (cases "h + i < length xs")
    case True
    then have "i < length xs - h" by simp
    with True assms i show ?thesis by (simp add: nth_ring_slice nth_append)
  next
    case False
    with assms i have m: "(h + i) mod length xs = h + i - length xs"
      by (simp add: le_mod_geq)
    moreover from False assms have "h + i - length xs = i - (length xs - h)" by simp
    ultimately have "(h + i) mod length xs = i - (length xs - h)" by simp
    moreover from False have "\<not> i < length xs - h" by simp
    ultimately show ?thesis using assms i
      by (simp add: nth_ring_slice nth_append)
  qed
qed

text \<open>
  A memory that differs from \<open>xs\<close> only in the \<open>l\<close> cells from \<open>h + k\<close> on, where it holds
  \<open>ys\<close>, extends the slice by \<open>ys\<close>.
\<close>

lemma ring_slice_extend:
  assumes len: "length zs = length xs" and room: "k + length ys \<le> length xs"
    and new: "\<And>j. j < length ys \<Longrightarrow> zs ! ((h + k + j) mod length xs) = ys ! j"
    and old: "\<And>i. i < k \<Longrightarrow> zs ! ((h + i) mod length xs) = xs ! ((h + i) mod length xs)"
  shows "ring_slice zs h (k + length ys) = ring_slice xs h k @ ys"
proof (rule nth_equalityI)
  fix i
  assume "i < length (ring_slice zs h (k + length ys))"
  then have i: "i < k + length ys" by simp
  show "ring_slice zs h (k + length ys) ! i = (ring_slice xs h k @ ys) ! i"
  proof (cases "i < k")
    case True
    with i show ?thesis by (simp add: nth_ring_slice nth_append len old)
  next
    case False
    with i new [of "i - k"] show ?thesis by (simp add: nth_ring_slice nth_append len)
  qed
qed simp

text \<open>
  \<open>ring_stored xs t ys zs\<close>: \<open>zs\<close> is the circular memory \<open>xs\<close> with \<open>ys\<close> stored from cell
  \<open>t\<close> on and every other cell kept. One copy does it where the block fits before the end,
  two copies where it wraps.
\<close>

definition ring_stored :: "'a list \<Rightarrow> nat \<Rightarrow> 'a list \<Rightarrow> 'a list \<Rightarrow> bool" where
  "ring_stored xs t ys zs \<longleftrightarrow> length zs = length xs \<and>
     (\<forall>j<length ys. zs ! ((t + j) mod length xs) = ys ! j) \<and>
     (\<forall>i<length xs. (\<forall>j<length ys. i \<noteq> (t + j) mod length xs) \<longrightarrow> zs ! i = xs ! i)"

lemma ring_stored_straight:
  assumes "t + m \<le> length xs" and "m \<le> length src"
  obtains b where "memcpy_at xs t src 0 m = Some b" and "ring_stored xs t (take m src) b"
proof -
  obtain b where b: "memcpy_at xs t src 0 m = Some b"
    using assms by (simp add: memcpy_at_def)
  have "ring_stored xs t (take m src) b"
    unfolding ring_stored_def
  proof (intro conjI allI impI)
    show "length b = length xs" using b by (rule memcpy_at_length)
  next
    fix j assume "j < length (take m src)"
    with assms b show "b ! ((t + j) mod length xs) = take m src ! j"
      by (simp add: memcpy_at_nth)
  next
    fix i assume i: "i < length xs" and free: "\<forall>j<length (take m src). i \<noteq> (t + j) mod length xs"
    have "\<not> (t \<le> i \<and> i < t + m)"
    proof
      assume a: "t \<le> i \<and> i < t + m"
      then have "i - t < m" by linarith
      with a free [rule_format, of "i - t"] assms i show False by simp
    qed
    with b i show "b ! i = xs ! i" by (auto simp: memcpy_at_nth)
  qed
  with b show thesis by (rule that)
qed

lemma ring_stored_wrapped:
  assumes t: "t < length xs" and wrap: "length xs < t + m" and fits: "m \<le> length xs"
    and src: "m \<le> length src"
  obtains b1 b where "memcpy_at xs t src 0 (length xs - t) = Some b1"
    and "memcpy_at b1 0 src (length xs - t) (m - (length xs - t)) = Some b"
    and "ring_stored xs t (take m src) b"
proof -
  let ?r = "length xs - t"
  have "?r \<le> length src" using wrap src by linarith
  then obtain b1 where b1: "memcpy_at xs t src 0 ?r = Some b1"
    using t by (simp add: memcpy_at_def)
  have len1: "length b1 = length xs" using b1 by (rule memcpy_at_length)
  have "m - ?r \<le> length xs" using fits by linarith
  then obtain b where b: "memcpy_at b1 0 src ?r (m - ?r) = Some b"
    using assms len1 by (simp add: memcpy_at_def)
  have len: "length b = length xs" using memcpy_at_length [OF b] len1 by simp
  have nth: "b ! i = (if i < m - ?r then src ! (?r + i) else if t \<le> i then src ! (i - t) else xs ! i)"
    if "i < length xs" for i
    using that b b1 len1 t by (simp add: memcpy_at_nth)
  have "ring_stored xs t (take m src) b"
    unfolding ring_stored_def
  proof (intro conjI allI impI)
    show "length b = length xs" by (rule len)
  next
    fix j assume "j < length (take m src)"
    then have j: "j < m" by simp
    show "b ! ((t + j) mod length xs) = take m src ! j"
    proof (cases "t + j < length xs")
      case True
      with j fits have "\<not> t + j < m - ?r" by linarith
      with True j show ?thesis by (simp add: nth)
    next
      case False
      with j t fits have "(t + j) mod length xs = t + j - length xs" by (simp add: le_mod_geq)
      moreover from False j t wrap have "t + j - length xs < m - ?r" "?r + (t + j - length xs) = j"
        by linarith+
      ultimately show ?thesis using False j t fits by (simp add: nth)
    qed
  next
    fix i assume i: "i < length xs" and free: "\<forall>j<length (take m src). i \<noteq> (t + j) mod length xs"
    have "\<not> i < m - ?r"
    proof
      assume a: "i < m - ?r"
      then have "(t + (?r + i)) mod length xs = i" using i t by simp
      moreover from a have "?r + i < m" by linarith
      ultimately show False using free [rule_format, of "?r + i"] src by simp
    qed
    moreover have "\<not> t \<le> i"
    proof
      assume a: "t \<le> i"
      with i wrap have "i - t < m" by linarith
      with a free [rule_format, of "i - t"] i wrap src show False by simp
    qed
    ultimately show "b ! i = xs ! i" using i by (simp add: nth)
  qed
  with b1 b show thesis by (rule that)
qed

lemma mod_add_cancel_less:
  fixes h a b n :: nat
  assumes "(h + a) mod n = (h + b) mod n" and "a < n" and "b < n"
  shows "a = b"
proof -
  have "int ((h + a) mod n) = int ((h + b) mod n)" using assms(1) by simp
  then have "(int h + int a) mod int n = (int h + int b) mod int n"
    by (simp add: zmod_int)
  then have "int n dvd (int h + int a) - (int h + int b)" by (simp only: mod_eq_dvd_iff)
  then have dvd: "int n dvd int a - int b" by simp
  show ?thesis
  proof (rule ccontr)
    assume "a \<noteq> b"
    then have "int a - int b \<noteq> 0" by simp
    then have "\<bar>int n\<bar> \<le> \<bar>int a - int b\<bar>" using dvd by (rule dvd_imp_le_int)
    with assms(2,3) show False by linarith
  qed
qed

lemma ring_slice_stored:
  assumes st: "ring_stored xs ((h + k) mod length xs) ys zs"
    and room: "k + length ys \<le> length xs" and ne: "xs \<noteq> []"
  shows "ring_slice zs h (k + length ys) = ring_slice xs h k @ ys"
proof (rule ring_slice_extend)
  show "length zs = length xs" using st by (simp add: ring_stored_def)
  show "k + length ys \<le> length xs" by (rule room)
next
  fix j assume "j < length ys"
  with st show "zs ! ((h + k + j) mod length xs) = ys ! j"
    by (simp add: ring_stored_def mod_add_left_eq)
next
  fix i assume i: "i < k"
  have "(h + i) mod length xs \<noteq> ((h + k) mod length xs + j) mod length xs" if j: "j < length ys" for j
  proof
    assume "(h + i) mod length xs = ((h + k) mod length xs + j) mod length xs"
    also have "\<dots> = (h + (k + j)) mod length xs" by (simp add: mod_add_left_eq add.assoc)
    finally have e: "(h + i) mod length xs = (h + (k + j)) mod length xs" .
    have "i = k + j" by (rule mod_add_cancel_less [OF e]) (use i j room in linarith)+
    with i show False by simp
  qed
  with st ne show "zs ! ((h + i) mod length xs) = xs ! ((h + i) mod length xs)"
    by (simp add: ring_stored_def)
qed

lemma ring_distance:
  fixes h t n :: nat
  assumes "h \<le> t" and "t < n"
  shows "(t + n - h) mod n = t - h"
proof -
  have "t + n - h = (t - h) + n" using assms by simp
  then have "(t + n - h) mod n = (t - h) mod n" by (simp only: mod_add_self2)
  also have "\<dots> = t - h" using assms by (intro mod_less) linarith
  finally show ?thesis .
qed

section \<open>Words\<close>

lemma unat_ucast_32_64 [word_nat, simp]: "unat (ucast (w :: u32) :: u64) = unat w"
  by (simp add: unsigned_ucast_eq take_bit_nat_eq_self_iff less_trans [OF unsigned_less])

lemma unat_byte_less: "unat (b :: byte) < 256"
  by (rule order_less_le_trans [OF unsigned_less]) simp

lemma unat_step_255 [word_nat]: "unat (((w :: u32) + 1) AND 255) = (unat w + 1) mod 256"
proof -
  have "(w + 1) AND 255 = take_bit 8 (w + 1)" by (simp add: take_bit_eq_mask mask_eq_exp_minus_1)
  then have "unat ((w + 1) AND 255) = take_bit 8 (unat (w + 1))" by (simp only: unsigned_take_bit_eq)
  also have "\<dots> = (unat w + 1) mod 4294967296 mod 256" by (simp add: take_bit_eq_mod unat_word_ariths)
  also have "\<dots> = (unat w + 1) mod 256" by (rule mod_mod_cancel) simp
  finally show ?thesis .
qed

lemma and_65535 [word_nat]: "unat ((w :: u64) AND 65535) = unat w mod 65536"
proof -
  have "w AND 65535 = take_bit 16 w" by (simp add: take_bit_eq_mask mask_eq_exp_minus_1)
  then have "unat (w AND 65535) = take_bit 16 (unat w)" by (simp only: unsigned_take_bit_eq)
  then show ?thesis by (simp add: take_bit_eq_mod)
qed

text \<open>A non-negative \<^verbatim>\<open>int\<close> keeps its value when it is read signed or widened.\<close>

lemma sint_small: "unat (w :: u32) < 2147483648 \<Longrightarrow> sint w = int (unat w)"
proof -
  assume a: "unat w < 2147483648"
  have "sint w = signed_take_bit 31 (uint w)" by (simp add: sint_uint)
  also have "\<dots> = uint w"
  proof (rule signed_take_bit_int_eq_self)
    show "- (2 ^ 31) \<le> uint w" by (rule order_trans [OF _ uint_ge_0]) simp
    have "int (unat w) < 2147483648" using a by linarith
    then show "uint w < 2 ^ 31" by simp
  qed
  finally show ?thesis by simp
qed
lemma unat_scast_small [word_nat]:
  assumes "unat (w :: u32) < 2147483648"
  shows "unat (scast w :: u64) = unat w"
proof -
  have small: "int (unat w) < 2147483648" using assms by linarith
  have "uint (scast w :: u64) = take_bit 64 (sint w)" by (simp only: scast_eq uint_word_of_int_eq len_num1 len_num0 len_bit0 len_bit1) simp
  also have "\<dots> = int (unat w)"
    unfolding sint_small [OF assms] by (rule take_bit_int_eq_self) (use small in simp_all)
  finally show ?thesis by (metis uint_nat of_nat_eq_iff)
qed
lemma sint_small_64: "unat (w :: u64) < 2147483648 \<Longrightarrow> sint w = int (unat w)"
proof -
  assume a: "unat w < 2147483648"
  have "sint w = signed_take_bit 63 (uint w)" by (simp add: sint_uint)
  also have "\<dots> = uint w"
  proof (rule signed_take_bit_int_eq_self)
    show "- (2 ^ 63) \<le> uint w" by (rule order_trans [OF _ uint_ge_0]) simp
    have "int (unat w) < 2147483648" using a by linarith
    then show "uint w < 2 ^ 63" by simp
  qed
  finally show ?thesis by simp
qed

lemma and_65536_small: "unat (w :: u32) < 65536 \<Longrightarrow> w AND 65536 = 0"
proof -
  assume a: "unat w < 65536"
  have w: "take_bit 16 w = w"
    by (rule word_unat_eq_iff [THEN iffD2]) (use a in \<open>simp add: unsigned_take_bit_eq take_bit_nat_eq_self\<close>)
  have b: "65536 = (2 ^ 16 :: u32)" by simp
  have "take_bit 16 w AND 2 ^ 16 = 0"
    by (rule bit_eqI) (auto simp only: bit_and_iff bit_take_bit_iff bit_exp_iff bit_0_eq bot_apply bot_bool_def less_irrefl)
  then show ?thesis by (simp only: w b)
qed

end
