(* ===== verification/Byte_Fifo.thy ===== *)
theory Byte_Fifo
  imports Prelude
begin

text \<open>
  The contract of a bounded byte queue that stores or hands out whole blocks: the abstract
  operations on a list, the locale \<open>byte_fifo\<close> of an implementation, and the fact every client
  uses, that a whole session of calls answers as the abstract queue does. The ring buffer of
  \<^verbatim>\<open>core/ringbuffer.cpp\<close> implements it.
\<close>

section \<open>Sessions of calls\<close>

text \<open>A client's call: store a block, or ask for \<open>n\<close> bytes into a zeroed array of \<open>n\<close> bytes.\<close>

datatype fifo_call = Put "byte list" | Get nat

datatype fifo_answer = Stored nat | Got "byte list"

text \<open>The abstract queue: a block is stored whole or refused, and handed out whole or refused.\<close>

fun spec_call :: "nat \<Rightarrow> byte list \<Rightarrow> fifo_call \<Rightarrow> byte list \<times> fifo_answer" where
  "spec_call cap q (Put bs) =
     (if length q + length bs \<le> cap then (q @ bs, Stored (length bs)) else (q, Stored 0))"
| "spec_call cap q (Get n) =
     (if n \<le> length q then (drop n q, Got (take n q)) else (q, Got []))"

fun spec_session :: "nat \<Rightarrow> byte list \<Rightarrow> fifo_call list \<Rightarrow> byte list \<times> fifo_answer list" where
  "spec_session cap q [] = (q, [])"
| "spec_session cap q (c # cs) =
     (let (q1, a) = spec_call cap q c; (q2, as) = spec_session cap q1 cs in (q2, a # as))"

text \<open>The same calls on an implementation, given by its two operations.\<close>

fun impl_call ::
  "('s \<Rightarrow> byte list \<Rightarrow> u64 \<Rightarrow> ('s \<times> u64) option) \<Rightarrow>
   ('s \<Rightarrow> byte list \<Rightarrow> u64 \<Rightarrow> ('s \<times> byte list \<times> u64) option) \<Rightarrow>
   's \<Rightarrow> fifo_call \<Rightarrow> ('s \<times> fifo_answer) option" where
  "impl_call put get s (Put bs) =
     do { (s', r) \<leftarrow> put s bs (of_nat (length bs)); Some (s', Stored (unat r)) }"
| "impl_call put get s (Get n) =
     do { (s', d, r) \<leftarrow> get s (replicate n 0) (of_nat n); Some (s', Got (take (unat r) d)) }"

fun impl_session ::
  "('s \<Rightarrow> byte list \<Rightarrow> u64 \<Rightarrow> ('s \<times> u64) option) \<Rightarrow>
   ('s \<Rightarrow> byte list \<Rightarrow> u64 \<Rightarrow> ('s \<times> byte list \<times> u64) option) \<Rightarrow>
   's \<Rightarrow> fifo_call list \<Rightarrow> ('s \<times> fifo_answer list) option" where
  "impl_session put get s [] = Some (s, [])"
| "impl_session put get s (c # cs) =
     do { (s1, a) \<leftarrow> impl_call put get s c;
          (s2, as) \<leftarrow> impl_session put get s1 cs;
          Some (s2, a # as) }"

text \<open>The lengths a call passes are C++ \<^verbatim>\<open>unsigned long\<close> values.\<close>

fun call_ok :: "fifo_call \<Rightarrow> bool" where
  "call_ok (Put bs) \<longleftrightarrow> length bs < 2 ^ 64"
| "call_ok (Get n) \<longleftrightarrow> n < 2 ^ 64"

section \<open>The interface\<close>

locale byte_fifo =
  fixes put :: "'s \<Rightarrow> byte list \<Rightarrow> u64 \<Rightarrow> ('s \<times> u64) option"
    and get :: "'s \<Rightarrow> byte list \<Rightarrow> u64 \<Rightarrow> ('s \<times> byte list \<times> u64) option"
    and good :: "'s \<Rightarrow> bool"
    and view :: "'s \<Rightarrow> byte list"
    and cap :: nat
  assumes put_fits: "good s \<Longrightarrow> unat len \<le> length buff \<Longrightarrow> length (view s) + unat len \<le> cap \<Longrightarrow>
      \<exists>s'. put s buff len = Some (s', len) \<and> good s' \<and> view s' = view s @ take (unat len) buff"
    and put_full: "good s \<Longrightarrow> cap < length (view s) + unat len \<Longrightarrow> put s buff len = Some (s, 0)"
    and get_has: "good s \<Longrightarrow> unat len \<le> length buff \<Longrightarrow> unat len \<le> length (view s) \<Longrightarrow>
      \<exists>s'. get s buff len = Some (s', take (unat len) (view s) @ drop (unat len) buff, len) \<and>
           good s' \<and> view s' = drop (unat len) (view s)"
    and get_short: "good s \<Longrightarrow> length (view s) < unat len \<Longrightarrow> get s buff len = Some (s, buff, 0)"
    and view_cap: "good s \<Longrightarrow> length (view s) \<le> cap"
begin

lemma call_refines:
  assumes "good s" and "call_ok c"
  shows "\<exists>s'. impl_call put get s c = Some (s', snd (spec_call cap (view s) c)) \<and>
              good s' \<and> view s' = fst (spec_call cap (view s) c)"
proof (cases c)
  case (Put bs)
  have len: "unat (of_nat (length bs) :: u64) = length bs"
    using assms(2) Put by (simp add: unat_of_nat)
  show ?thesis
  proof (cases "length (view s) + length bs \<le> cap")
    case True
    with put_fits [OF assms(1), of "of_nat (length bs)" bs] len
    show ?thesis by (auto simp: Put)
  next
    case False
    with put_full [OF assms(1), of "of_nat (length bs)" bs] len assms(1)
    show ?thesis by (simp add: Put)
  qed
next
  case (Get n)
  have len: "unat (of_nat n :: u64) = n"
    using assms(2) Get by (simp add: unat_of_nat)
  show ?thesis
  proof (cases "n \<le> length (view s)")
    case True
    with get_has [OF assms(1), of "of_nat n" "replicate n 0"] len
    show ?thesis by (auto simp: Get)
  next
    case False
    with get_short [OF assms(1), of "of_nat n" "replicate n 0"] len assms(1)
    show ?thesis by (simp add: Get)
  qed
qed

lemma session_refines:
  "good s \<Longrightarrow> \<forall>c\<in>set cs. call_ok c \<Longrightarrow>
   \<exists>s'. impl_session put get s cs = Some (s', snd (spec_session cap (view s) cs)) \<and>
        good s' \<and> view s' = fst (spec_session cap (view s) cs)"
proof (induction cs arbitrary: s)
  case Nil
  then show ?case by simp
next
  case (Cons c cs)
  then obtain s1 where s1: "impl_call put get s c = Some (s1, snd (spec_call cap (view s) c))"
      "good s1" "view s1 = fst (spec_call cap (view s) c)"
    using call_refines [of s c] by auto
  moreover from Cons.IH [OF s1(2)] Cons.prems(2) obtain s2 where
    "impl_session put get s1 cs = Some (s2, snd (spec_session cap (view s1) cs))"
    "good s2" "view s2 = fst (spec_session cap (view s1) cs)" by auto
  ultimately show ?case by (auto simp: case_prod_beta Let_def)
qed

text \<open>A block that was stored into an empty queue comes back unchanged.\<close>

lemma put_then_get:
  assumes "good s" and "view s = []" and "length bs \<le> cap" and "cap < 2 ^ 64"
  shows "\<exists>s'. impl_session put get s [Put bs, Get (length bs)] =
                Some (s', [Stored (length bs), Got bs]) \<and> good s' \<and> view s' = []"
  using session_refines [of s "[Put bs, Get (length bs)]"] assms by simp

end

text \<open>What the abstract queue keeps: its bound, and the bytes in the order they came.\<close>

fun stored_bytes :: "fifo_call list \<Rightarrow> fifo_answer list \<Rightarrow> byte list" where
  "stored_bytes (Put bs # cs) (Stored n # as) = take n bs @ stored_bytes cs as"
| "stored_bytes (c # cs) (a # as) = stored_bytes cs as"
| "stored_bytes _ _ = []"

fun got_bytes :: "fifo_answer list \<Rightarrow> byte list" where
  "got_bytes (Got bs # as) = bs @ got_bytes as"
| "got_bytes (Stored n # as) = got_bytes as"
| "got_bytes [] = []"

lemma spec_session_fifo:
  "q @ stored_bytes cs (snd (spec_session cap q cs)) =
   got_bytes (snd (spec_session cap q cs)) @ fst (spec_session cap q cs)"
proof (induction cs arbitrary: q)
  case Nil
  then show ?case by simp
next
  case (Cons c cs)
  show ?case
  proof (cases c)
    case (Put bs)
    with Cons.IH [of "fst (spec_call cap q c)"] show ?thesis
      by (auto simp: case_prod_beta Let_def)
  next
    case (Get n)
    have "q = take n q @ drop n q" by simp
    with Get Cons.IH [of "fst (spec_call cap q c)"] show ?thesis
      by (auto simp: case_prod_beta Let_def) (metis append_assoc append_take_drop_id)
  qed
qed

end
