(* ===== verification/Ring_Buffer.thy ===== *)
theory Ring_Buffer
  imports Byte_Fifo
begin

text \<open>
  The byte ring buffer of \<^verbatim>\<open>core/ringbuffer.h\<close> and \<^verbatim>\<open>core/ringbuffer.cpp\<close>: the state with
  its two 32-bit cursors, the inline queries, the wrapping \<open>Write\<close> and \<open>Read\<close>, the packet
  header queries \<open>GetSize\<close> and \<open>IsComplete\<close>, and the self-test \<open>Dump\<close>. A bounded FIFO
  of bytes is the contract (locale \<open>byte_fifo\<close> of \<open>Byte_Fifo\<close>); the interpretation \<open>ring\<close>
  shows that the buffer implements it.

  The operations return an \<^typ>\<open>'a option\<close>: \<^const>\<open>None\<close> is an access outside an array.
  Diagnostics printed by \<open>Write\<close> and \<open>Read\<close> are left out.
\<close>

section \<open>State and inline queries\<close>

record ring_buffer =
  m_buffer :: "byte list"
  m_head :: u32
  m_tail :: u32

text \<open>
  \<^verbatim>\<open>BUFFER_SIZE\<close> is the macro text \<^verbatim>\<open>8192*8\<close>; it is used with 32-bit and 64-bit operands.
\<close>

definition BUFFER_SIZE :: "'l::len word" where
  "BUFFER_SIZE = 8192 * 8"

definition BUFFER_MASK :: "'l::len word" where
  "BUFFER_MASK = BUFFER_SIZE - 1"

definition Initialize :: ring_buffer where
  "Initialize = \<lparr>m_buffer = replicate (8192 * 8) 0, m_head = 0, m_tail = 0\<rparr>"

definition Empty :: "ring_buffer \<Rightarrow> bool" where
  "Empty rb \<longleftrightarrow> m_head rb = m_tail rb"

definition Full :: "ring_buffer \<Rightarrow> bool" where
  "Full rb \<longleftrightarrow> (m_tail rb + 1) AND BUFFER_SIZE = m_head rb"

definition Available :: "ring_buffer \<Rightarrow> u32" where
  "Available rb =
     (if m_tail rb \<ge> m_head rb then m_tail rb - m_head rb
      else m_tail rb - m_head rb + BUFFER_SIZE)"

definition Space :: "ring_buffer \<Rightarrow> u32" where
  "Space rb = BUFFER_SIZE - Available rb - 1"

section \<open>Operations\<close>

text \<open>
  In \<^verbatim>\<open>Space() < len\<close> the signed \<^verbatim>\<open>int\<close> is converted to \<^verbatim>\<open>unsigned long\<close>, which
  sign-extends (\<open>scast\<close>). \<^verbatim>\<open>BUFFER_SIZE - m_tail\<close> is computed in 32 bits and widened.
\<close>

definition Write :: "ring_buffer \<Rightarrow> byte list \<Rightarrow> u64 \<Rightarrow> (ring_buffer \<times> u64) option" where
  "Write rb buff len =
     (if scast (Space rb) < len then Some (rb, 0)
      else do {
        let rest = (ucast (BUFFER_SIZE - m_tail rb) :: u64);
        b \<leftarrow> (if rest \<ge> len
              then memcpy_at (m_buffer rb) (unat (m_tail rb)) buff 0 (unat len)
              else do {
                b1 \<leftarrow> memcpy_at (m_buffer rb) (unat (m_tail rb)) buff 0 (unat rest);
                memcpy_at b1 0 buff (unat rest) (unat (len - rest))
              });
        Some (rb\<lparr>m_buffer := b,
                 m_tail := ucast ((ucast (m_tail rb) + len) AND (BUFFER_MASK :: u64))\<rparr>, len)
      })"

definition Read ::
  "ring_buffer \<Rightarrow> byte list \<Rightarrow> u64 \<Rightarrow> (ring_buffer \<times> byte list \<times> u64) option" where
  "Read rb buff len =
     (if scast (Available rb) < len then Some (rb, buff, 0)
      else do {
        let rest = (ucast (BUFFER_SIZE - m_head rb) :: u64);
        d \<leftarrow> (if rest \<ge> len
              then memcpy_at buff 0 (m_buffer rb) (unat (m_head rb)) (unat len)
              else do {
                d1 \<leftarrow> memcpy_at buff 0 (m_buffer rb) (unat (m_head rb)) (unat rest);
                memcpy_at d1 (unat rest) (m_buffer rb) 0 (unat (len - rest))
              });
        Some (rb\<lparr>m_head := ucast ((ucast (m_head rb) + len) AND (BUFFER_MASK :: u64))\<rparr>, d, len)
      })"

definition byte_at :: "byte list \<Rightarrow> u32 \<Rightarrow> byte option" where
  "byte_at xs i = (if unat i < length xs then Some (xs ! unat i) else None)"

definition GetSize :: "ring_buffer \<Rightarrow> u64 option" where
  "GetSize rb =
     (if Available rb <s 2 then Some 0
      else do {
        hi \<leftarrow> byte_at (m_buffer rb) (m_head rb);
        lo \<leftarrow> byte_at (m_buffer rb) ((m_head rb + 1) AND BUFFER_MASK);
        Some (push_bit 8 (ucast hi) OR ucast lo)
      })"

definition IsComplete :: "ring_buffer \<Rightarrow> bool option" where
  "IsComplete rb = map_option (\<lambda>n. sint (Available rb) \<ge> sint n) (GetSize rb)"

section \<open>The abstract contents and the invariant\<close>

definition rb_inv :: "ring_buffer \<Rightarrow> bool" where
  "rb_inv rb \<longleftrightarrow> length (m_buffer rb) = 65536 \<and> unat (m_head rb) < 65536 \<and> unat (m_tail rb) < 65536"

definition contents :: "ring_buffer \<Rightarrow> byte list" where
  "contents rb = ring_slice (m_buffer rb) (unat (m_head rb)) (unat (Available rb))"

lemma BUFFER_SIZE_32 [simp]: "(BUFFER_SIZE :: u32) = 65536"
  by (simp add: BUFFER_SIZE_def)

lemma BUFFER_MASK_32 [simp]: "(BUFFER_MASK :: u32) = 65535"
  by (simp add: BUFFER_MASK_def)

lemma BUFFER_MASK_64 [simp]: "(BUFFER_MASK :: u64) = 65535"
  by (simp add: BUFFER_MASK_def BUFFER_SIZE_def)

lemma unat_Available:
  assumes "rb_inv rb"
  shows "unat (Available rb) = (unat (m_tail rb) + 65536 - unat (m_head rb)) mod 65536"
proof (cases "m_head rb \<le> m_tail rb")
  case True
  then have "unat (Available rb) = unat (m_tail rb) - unat (m_head rb)"
    by (simp add: Available_def unat_sub)
  moreover from True have "unat (m_head rb) \<le> unat (m_tail rb)" by (simp add: word_le_nat_alt)
  then have "(unat (m_tail rb) + 65536 - unat (m_head rb)) mod 65536 =
             unat (m_tail rb) - unat (m_head rb)"
    using assms by (intro ring_distance) (simp_all add: rb_inv_def)
  ultimately show ?thesis by simp
next
  case False
  then have lt: "unat (m_tail rb) < unat (m_head rb)" by (simp add: word_le_nat_alt)
  have "Available rb = 65536 - (m_head rb - m_tail rb)"
    using False by (simp add: Available_def)
  moreover have "unat (m_head rb - m_tail rb) = unat (m_head rb) - unat (m_tail rb)"
    using lt by (simp add: unat_sub word_le_nat_alt)
  moreover have "unat (m_head rb) - unat (m_tail rb) \<le> 65536"
    using assms unfolding rb_inv_def by linarith
  moreover have "unat (65536 - (m_head rb - m_tail rb)) = 65536 - unat (m_head rb - m_tail rb)"
    using calculation(2,3) by (subst unat_sub) (simp_all add: word_le_nat_alt)
  ultimately show ?thesis using lt assms by (simp add: rb_inv_def)
qed

lemma Available_less: "rb_inv rb \<Longrightarrow> unat (Available rb) < 65536"
  by (simp add: unat_Available)

lemma length_contents [simp]: "length (contents rb) = unat (Available rb)"
  by (simp add: contents_def)

lemma unat_Space: "rb_inv rb \<Longrightarrow> unat (Space rb) = 65535 - unat (Available rb)"
proof -
  assume inv: "rb_inv rb"
  have "Space rb = 65535 - Available rb" by (simp add: Space_def)
  moreover have "unat (65535 - Available rb) = 65535 - unat (Available rb)"
    using Available_less [OF inv] by (subst unat_sub) (simp_all add: word_le_nat_alt)
  ultimately show ?thesis by simp
qed

lemma tail_cell:
  assumes "rb_inv rb"
  shows "unat (m_tail rb) = (unat (m_head rb) + unat (Available rb)) mod 65536"
proof (cases "unat (m_head rb) \<le> unat (m_tail rb)")
  case True
  then have "unat (Available rb) = unat (m_tail rb) - unat (m_head rb)"
    using assms unfolding unat_Available [OF assms]
    by (intro ring_distance) (simp_all add: rb_inv_def)
  with True assms show ?thesis by (simp add: rb_inv_def)
next
  case False
  then have "unat (Available rb) = unat (m_tail rb) + 65536 - unat (m_head rb)"
    using assms by (simp add: unat_Available rb_inv_def)
  with False assms show ?thesis by (simp add: rb_inv_def)
qed

lemma unat_advance:
  fixes c :: u32 and len :: u64
  assumes "unat len < 65536" and "unat c < 65536"
  shows "unat (ucast ((ucast c + len) AND (BUFFER_MASK :: u64)) :: u32) = (unat c + unat len) mod 65536"
proof -
  have sum: "unat (ucast c + len) = unat c + unat len"
    using assms by (subst unat_add_lem [THEN iffD1]) simp_all
  have "unat ((ucast c + len) AND 65535) = (unat c + unat len) mod 65536"
    by (simp add: and_65535 sum)
  then show ?thesis by (simp add: unsigned_ucast_eq take_bit_nat_eq_self_iff)
qed

lemma unat_rest:
  fixes c :: u32
  assumes "unat c < 65536"
  shows "unat (ucast (BUFFER_SIZE - c) :: u64) = 65536 - unat c"
proof -
  have "unat (65536 - c) = 65536 - unat c"
    using assms by (subst unat_sub) (simp_all add: word_le_nat_alt)
  then show ?thesis by simp
qed

lemma Space_less:
  assumes "rb_inv rb"
  shows "scast (Space rb) < (len :: u64) \<longleftrightarrow> 65535 < unat (Available rb) + unat len"
  using assms Available_less [OF assms]
  by (simp add: word_less_nat_alt unat_scast_small unat_Space) linarith

lemma Available_less_len:
  assumes "rb_inv rb"
  shows "scast (Available rb) < (len :: u64) \<longleftrightarrow> unat (Available rb) < unat len"
  using Available_less [OF assms] by (simp add: word_less_nat_alt unat_scast_small)

text \<open>Moving the tail cursor \<open>n\<close> cells on makes \<open>n\<close> more bytes available.\<close>

lemma Available_tail:
  assumes inv: "rb_inv rb" and "rb_inv rb'" and "m_head rb' = m_head rb"
    and "unat (m_tail rb') = (unat (m_tail rb) + n) mod 65536" and "unat (Available rb) + n < 65536"
  shows "unat (Available rb') = unat (Available rb) + n"
proof -
  have "unat (m_tail rb') = (unat (m_head rb') + unat (Available rb')) mod 65536"
    using assms(2) by (rule tail_cell)
  moreover have "unat (m_tail rb') = (unat (m_head rb') + (unat (Available rb) + n)) mod 65536"
    using assms(3,4) tail_cell [OF inv] by (simp add: mod_add_left_eq add.assoc)
  ultimately have "(unat (m_head rb') + unat (Available rb')) mod 65536 =
                   (unat (m_head rb') + (unat (Available rb) + n)) mod 65536" by simp
  then show ?thesis
    by (rule mod_add_cancel_less) (use assms(5) Available_less [OF assms(2)] in simp_all)
qed

lemma Available_head:
  assumes inv: "rb_inv rb" and "rb_inv rb'" and "m_tail rb' = m_tail rb"
    and "unat (m_head rb') = (unat (m_head rb) + n) mod 65536" and "n \<le> unat (Available rb)"
  shows "unat (Available rb') = unat (Available rb) - n"
proof -
  have "unat (m_tail rb) = (unat (m_head rb) + n + unat (Available rb')) mod 65536"
    using tail_cell [OF assms(2)] assms(3,4) by (simp add: mod_add_left_eq)
  then have "(unat (m_head rb) + (n + unat (Available rb'))) mod 65536 =
             (unat (m_head rb) + unat (Available rb)) mod 65536"
    using tail_cell [OF inv] by (simp add: add.assoc)
  moreover have "(unat (m_head rb) + n + unat (Available rb')) mod 65536 =
     (unat (m_head rb) + n + (unat (Available rb) - n)) mod 65536"
    using calculation assms(5) by (simp add: add.assoc)
  then show ?thesis
    by (rule mod_add_cancel_less)
      (use Available_less [OF assms(2)] Available_less [OF inv] in simp_all)
qed

section \<open>What Write and Read do to the contents\<close>

lemma Write_rejects:
  assumes "rb_inv rb" and "65535 < unat (Available rb) + unat len"
  shows "Write rb buff len = Some (rb, 0)"
  using assms by (simp add: Write_def Space_less)

lemma Write_stores:
  assumes inv: "rb_inv rb" and src: "unat len \<le> length buff"
    and room: "unat (Available rb) + unat len \<le> 65535"
  obtains b where
    "Write rb buff len =
       Some (rb\<lparr>m_buffer := b,
                m_tail := ucast ((ucast (m_tail rb) + len) AND (BUFFER_MASK :: u64))\<rparr>, len)"
    and "ring_stored (m_buffer rb) (unat (m_tail rb)) (take (unat len) buff) b"
proof (cases "unat len \<le> 65536 - unat (m_tail rb)")
  case True
  with inv have "unat (m_tail rb) + unat len \<le> length (m_buffer rb)"
    unfolding rb_inv_def by linarith
  then obtain b where "memcpy_at (m_buffer rb) (unat (m_tail rb)) buff 0 (unat len) = Some b"
    and "ring_stored (m_buffer rb) (unat (m_tail rb)) (take (unat len) buff) b"
    using src by (rule ring_stored_straight)
  moreover have "\<not> scast (Space rb) < len" using room by (simp add: Space_less [OF inv])
  moreover have "ucast (BUFFER_SIZE - m_tail rb) \<ge> len"
    using inv True unat_rest [of "m_tail rb"] by (simp add: word_le_nat_alt rb_inv_def)
  ultimately show thesis by (intro that [of b]) (simp_all add: Write_def)
next
  case False
  have n: "length (m_buffer rb) = 65536" and t: "unat (m_tail rb) < 65536"
    using inv by (simp_all add: rb_inv_def)
  have r: "unat (ucast (BUFFER_SIZE - m_tail rb) :: u64) = 65536 - unat (m_tail rb)"
    using t by (rule unat_rest)
  have d: "unat (len - ucast (BUFFER_SIZE - m_tail rb)) = unat len - (65536 - unat (m_tail rb))"
    using False r by (subst unat_sub) (simp_all add: word_le_nat_alt)
  obtain b1 b where
    "memcpy_at (m_buffer rb) (unat (m_tail rb)) buff 0 (65536 - unat (m_tail rb)) = Some b1"
    "memcpy_at b1 0 buff (65536 - unat (m_tail rb)) (unat len - (65536 - unat (m_tail rb))) = Some b"
    "ring_stored (m_buffer rb) (unat (m_tail rb)) (take (unat len) buff) b"
    by (rule ring_stored_wrapped [of "unat (m_tail rb)" "m_buffer rb" "unat len" buff])
      (use n t False room src in simp_all)
  moreover have "\<not> scast (Space rb) < len" using room by (simp add: Space_less [OF inv])
  moreover have "\<not> ucast (BUFFER_SIZE - m_tail rb) \<ge> len"
    using False r by (simp add: word_le_nat_alt)
  ultimately show thesis using r d by (intro that [of b]) (simp_all add: Write_def)
qed

lemma Write_appends:
  assumes inv: "rb_inv rb" and src: "unat len \<le> length buff"
    and room: "unat (Available rb) + unat len \<le> 65535"
  shows "\<exists>rb'. Write rb buff len = Some (rb', len) \<and> rb_inv rb' \<and>
           contents rb' = contents rb @ take (unat len) buff"
proof -
  obtain b where
    w: "Write rb buff len = Some (rb\<lparr>m_buffer := b,
          m_tail := ucast ((ucast (m_tail rb) + len) AND (BUFFER_MASK :: u64))\<rparr>, len)"
    and st: "ring_stored (m_buffer rb) (unat (m_tail rb)) (take (unat len) buff) b"
    using assms by (rule Write_stores)
  define rb' where "rb' = rb\<lparr>m_buffer := b,
    m_tail := ucast ((ucast (m_tail rb) + len) AND (BUFFER_MASK :: u64))\<rparr>"
  have t: "unat (m_tail rb') = (unat (m_tail rb) + unat len) mod 65536"
    using inv room unat_advance [of len "m_tail rb"] by (simp add: rb'_def rb_inv_def)
  have n: "length (m_buffer rb) = 65536" using inv by (simp add: rb_inv_def)
  have inv': "rb_inv rb'"
    using inv st t by (simp add: rb_inv_def ring_stored_def rb'_def)
  have av: "unat (Available rb') = unat (Available rb) + unat len"
    by (rule Available_tail [OF inv inv' _ t]) (use room in \<open>simp_all add: rb'_def\<close>)
  have "ring_slice b (unat (m_head rb)) (unat (Available rb) + length (take (unat len) buff)) =
        ring_slice (m_buffer rb) (unat (m_head rb)) (unat (Available rb)) @ take (unat len) buff"
    by (rule ring_slice_stored) (use st room n src tail_cell [OF inv] in auto)
  then have "contents rb' = contents rb @ take (unat len) buff"
    using src by (simp add: contents_def av) (simp add: rb'_def)
  with w inv' show ?thesis unfolding rb'_def by blast
qed

lemma Read_rejects:
  assumes "rb_inv rb" and "unat (Available rb) < unat len"
  shows "Read rb buff len = Some (rb, buff, 0)"
  using assms by (simp add: Read_def Available_less_len)

lemma Read_copies:
  assumes inv: "rb_inv rb" and dst: "unat len \<le> length buff"
    and avail: "unat len \<le> unat (Available rb)"
  shows "Read rb buff len =
    Some (rb\<lparr>m_head := ucast ((ucast (m_head rb) + len) AND (BUFFER_MASK :: u64))\<rparr>,
          ring_slice (m_buffer rb) (unat (m_head rb)) (unat len) @ drop (unat len) buff, len)"
proof -
  have n: "length (m_buffer rb) = 65536" and h: "unat (m_head rb) < 65536"
    using inv by (simp_all add: rb_inv_def)
  have r: "unat (ucast (BUFFER_SIZE - m_head rb) :: u64) = 65536 - unat (m_head rb)"
    using h by (rule unat_rest)
  have l: "unat len < 65536" using avail Available_less [OF inv] by linarith
  have "\<not> scast (Available rb) < len" using avail by (simp add: Available_less_len [OF inv])
  show ?thesis
  proof (cases "unat len \<le> 65536 - unat (m_head rb)")
    case True
    then have "memcpy_at buff 0 (m_buffer rb) (unat (m_head rb)) (unat len) =
        Some (ring_slice (m_buffer rb) (unat (m_head rb)) (unat len) @ drop (unat len) buff)"
      using n h dst by (simp add: memcpy_at_def ring_slice_straight)
    moreover have "ucast (BUFFER_SIZE - m_head rb) \<ge> len"
      using True r by (simp add: word_le_nat_alt)
    ultimately show ?thesis using \<open>\<not> scast (Available rb) < len\<close> by (simp add: Read_def)
  next
    case False
    let ?r = "65536 - unat (m_head rb)"
    have d: "unat (len - ucast (BUFFER_SIZE - m_head rb)) = unat len - ?r"
      using False r by (subst unat_sub) (simp_all add: word_le_nat_alt)
    have c1: "memcpy_at buff 0 (m_buffer rb) (unat (m_head rb)) ?r =
        Some (drop (unat (m_head rb)) (m_buffer rb) @ drop ?r buff)"
      using n h dst False by (simp add: memcpy_at_def)
    have c2: "memcpy_at (drop (unat (m_head rb)) (m_buffer rb) @ drop ?r buff) ?r (m_buffer rb) 0
          (unat len - ?r) =
        Some (ring_slice (m_buffer rb) (unat (m_head rb)) (unat len) @ drop (unat len) buff)"
      using n h dst False l
      by (simp add: memcpy_at_def ring_slice_wrap)
    have "\<not> ucast (BUFFER_SIZE - m_head rb) \<ge> len"
      using False r by (simp add: word_le_nat_alt)
    with c1 c2 r d show ?thesis
      using \<open>\<not> scast (Available rb) < len\<close> by (simp add: Read_def)
  qed
qed

lemma Read_removes:
  assumes inv: "rb_inv rb" and dst: "unat len \<le> length buff"
    and avail: "unat len \<le> unat (Available rb)"
  shows "\<exists>rb'. Read rb buff len =
             Some (rb', take (unat len) (contents rb) @ drop (unat len) buff, len) \<and>
           rb_inv rb' \<and> contents rb' = drop (unat len) (contents rb)"
proof -
  define rb' where "rb' = rb\<lparr>m_head := ucast ((ucast (m_head rb) + len) AND (BUFFER_MASK :: u64))\<rparr>"
  have l: "unat len < 65536" using avail Available_less [OF inv] by linarith
  then have h: "unat (m_head rb') = (unat (m_head rb) + unat len) mod 65536"
    using inv unat_advance [of len "m_head rb"] by (simp add: rb'_def rb_inv_def)
  have inv': "rb_inv rb'" using inv h by (simp add: rb_inv_def rb'_def)
  have av: "unat (Available rb') = unat (Available rb) - unat len"
    by (rule Available_head [OF inv inv' _ h avail]) (simp add: rb'_def)
  have n: "length (m_buffer rb) = 65536" using inv by (simp add: rb_inv_def)
  have "contents rb' = drop (unat len) (contents rb)"
    using avail by (simp add: contents_def drop_ring_slice n h [symmetric] av) (simp add: rb'_def)
  moreover have "take (unat len) (contents rb) =
      ring_slice (m_buffer rb) (unat (m_head rb)) (unat len)"
    using avail by (simp add: contents_def take_ring_slice)
  ultimately show ?thesis
    using Read_copies [OF inv dst avail] inv' unfolding rb'_def by auto
qed

section \<open>The buffer is a bounded FIFO\<close>

lemma Initialize_good: "rb_inv Initialize" and Initialize_empty: "contents Initialize = []"
  by (simp_all add: Initialize_def rb_inv_def contents_def Available_def)

interpretation ring: byte_fifo Write Read rb_inv contents 65535
proof unfold_locales
  fix s :: ring_buffer
  assume "rb_inv s"
  then show "length (contents s) \<le> 65535" using Available_less by fastforce
qed (use Write_appends Write_rejects Read_removes Read_rejects in auto)

text \<open>
  C21: \<open>Write\<close> implements "append the block or refuse it". For every reachable shape of the
  cursors, wrapped or not, the call stays inside both arrays, keeps the invariant, and either
  appends exactly the first \<open>len\<close> bytes of the caller's array to the contents and returns
  \<open>len\<close>, or, where the block does not fit in 65535 bytes, changes nothing and returns 0.
\<close>

theorem Write_refines:
  assumes "rb_inv rb" and "unat len \<le> length buff"
  shows "\<exists>rb' r. Write rb buff len = Some (rb', r) \<and> rb_inv rb' \<and>
    (if length (contents rb) + unat len \<le> 65535
     then r = len \<and> contents rb' = contents rb @ take (unat len) buff
     else r = 0 \<and> rb' = rb)"
  using ring.put_fits [OF assms] ring.put_full [OF assms(1)] assms(1)
  by (cases "length (contents rb) + unat len \<le> 65535") auto

theorem Write_refines_witness:
  "\<exists>rb' r. Write Initialize [7, 8, 9] 2 = Some (rb', r) \<and> rb_inv rb' \<and> r = 2 \<and> contents rb' = [7, 8]"
  using Write_refines [OF Initialize_good, of 2 "[7, 8, 9]"] Initialize_empty by simp

text \<open>
  C2: \<open>Read\<close> implements "hand out the block or refuse it". It stays inside both arrays, keeps
  the invariant, and either copies the oldest \<open>len\<close> bytes into the caller's array, leaving the
  rest of that array as it was, and removes them from the contents, or, where fewer are
  available, changes nothing and returns 0.
\<close>

theorem Read_refines:
  assumes "rb_inv rb" and "unat len \<le> length buff"
  shows "\<exists>rb' d r. Read rb buff len = Some (rb', d, r) \<and> rb_inv rb' \<and>
    (if unat len \<le> length (contents rb)
     then r = len \<and> d = take (unat len) (contents rb) @ drop (unat len) buff \<and>
          contents rb' = drop (unat len) (contents rb)
     else r = 0 \<and> d = buff \<and> rb' = rb)"
  using ring.get_has [OF assms] ring.get_short [OF assms(1)] assms(1)
  by (cases "unat len \<le> length (contents rb)") auto

theorem Read_refines_witness:
  "\<exists>rb' d r. Read (Initialize\<lparr>m_tail := 1\<rparr>) [5, 6] 1 = Some (rb', d, r) \<and> rb_inv rb' \<and>
     r = 1 \<and> d = [0, 6] \<and> contents rb' = []"
proof -
  have inv: "rb_inv (Initialize\<lparr>m_tail := 1\<rparr>)" by (simp add: Initialize_def rb_inv_def)
  have c: "contents (Initialize\<lparr>m_tail := 1\<rparr>) = [0]"
    by (simp add: Initialize_def contents_def Available_def ring_slice_def)
  show ?thesis using Read_refines [OF inv, of 1 "[5, 6]"] by (simp add: c)
qed

text \<open>
  C9: a whole session is a FIFO. From the constructor's state, any sequence of \<open>Write\<close> and
  \<open>Read\<close> calls runs without touching memory outside the arrays, gives the answers of an
  abstract queue of at most 65535 bytes, and the bytes handed out followed by those still inside
  are exactly the bytes stored, in order, however often the cursors wrap.
\<close>

theorem session_is_fifo:
  assumes "\<forall>c\<in>set cs. call_ok c"
  shows "\<exists>rb as. impl_session Write Read Initialize cs = Some (rb, as) \<and> rb_inv rb \<and>
    (contents rb, as) = spec_session 65535 [] cs \<and>
    stored_bytes cs as = got_bytes as @ contents rb"
  using ring.session_refines [OF Initialize_good assms] spec_session_fifo [of "[]" cs 65535]
  by (auto simp: Initialize_empty prod_eq_iff)

theorem session_is_fifo_witness:
  "\<exists>rb as. impl_session Write Read Initialize [Put [1, 2, 3], Get 2, Get 2, Get 1] = Some (rb, as) \<and>
     as = [Stored 3, Got [1, 2], Got [], Got [3]] \<and> contents rb = []"
  using session_is_fifo [of "[Put [1, 2, 3], Get 2, Get 2, Get 1]"] by auto

section \<open>The packet header\<close>

lemma unat_byte_pair:
  "unat (push_bit 8 (ucast (hi :: byte)) OR ucast (lo :: byte) :: u64) = 256 * unat hi + unat lo"
proof -
  have a: "push_bit 8 (ucast hi) AND ucast lo = (0 :: u64)"
    by (rule bit_eqI) (auto simp: bit_simps dest: bit_imp_le_length)
  have lo: "unat (ucast lo :: u64) = unat lo" and hi: "unat (ucast hi :: u64) = unat hi"
    by (simp_all add: unsigned_ucast_eq take_bit_nat_eq_self_iff less_trans [OF unsigned_less])
  have "unat hi < 256" "unat lo < 256" by (rule unat_byte_less)+
  moreover have "unat (push_bit 8 (ucast hi) :: u64) = 256 * unat hi"
    using calculation hi by (simp add: push_bit_eq_mult unat_mult_lem [THEN iffD1])
  moreover have "push_bit 8 (ucast hi) OR ucast lo = (push_bit 8 (ucast hi) + ucast lo :: u64)"
    using a by (simp add: disjunctive_add bit_eq_iff bit_simps)
  ultimately show ?thesis using lo by (simp add: unat_add_lem [THEN iffD1])
qed

lemma byte_at_cell:
  "rb_inv rb \<Longrightarrow> unat i < 65536 \<Longrightarrow> byte_at (m_buffer rb) i = Some (m_buffer rb ! unat i)"
  by (simp add: byte_at_def rb_inv_def)

text \<open>The header the code reads: the first two bytes of the contents, big-endian.\<close>

definition header :: "byte list \<Rightarrow> nat" where
  "header bs = (if length bs < 2 then 0 else 256 * unat (bs ! 0) + unat (bs ! 1))"

lemma Available_sless:
  assumes "rb_inv rb"
  shows "Available rb <s 2 \<longleftrightarrow> length (contents rb) < 2"
  using Available_less [OF assms] by (simp add: word_sless_alt sint_small del: of_nat_unat)

lemma GetSize_header:
  assumes inv: "rb_inv rb"
  shows "\<exists>n. GetSize rb = Some n \<and> unat n = header (contents rb)"
proof (cases "length (contents rb) < 2")
  case True
  then show ?thesis using Available_sless [OF inv] by (simp add: GetSize_def header_def)
next
  case False
  have n: "length (m_buffer rb) = 65536" and h: "unat (m_head rb) < 65536"
    using inv by (simp_all add: rb_inv_def)
  have cell1: "unat ((m_head rb + 1) AND 65535) = (unat (m_head rb) + 1) mod 65536"
  proof -
    have "(m_head rb + 1) AND 65535 = take_bit 16 (m_head rb + 1)"
      by (simp add: take_bit_eq_mask mask_eq_exp_minus_1)
    then have "unat ((m_head rb + 1) AND 65535) = take_bit 16 (unat (m_head rb + 1))"
      by (simp only: unsigned_take_bit_eq)
    also have "unat (m_head rb + 1) = unat (m_head rb) + 1"
      using h by (subst unat_add_lem [THEN iffD1]) simp_all
    finally show ?thesis by (simp add: take_bit_eq_mod)
  qed
  have c0: "contents rb ! 0 = m_buffer rb ! unat (m_head rb)"
    and c1: "contents rb ! 1 = m_buffer rb ! ((unat (m_head rb) + 1) mod 65536)"
    using False h by (simp_all add: contents_def nth_ring_slice n)
  show ?thesis
    using False Available_sless [OF inv] cell1 c0 c1
    by (simp add: GetSize_def header_def byte_at_cell [OF inv] h unat_byte_pair)
qed

text \<open>
  The packet header. On every reachable state \<open>GetSize\<close> reads inside the array and returns
  the big-endian value of the two oldest bytes, across the wrap-around too, or 0 while fewer
  than two bytes are there; \<open>IsComplete\<close> holds exactly when that many bytes are available. In
  particular an empty buffer, and one holding a single byte, count as complete.
\<close>

theorem header_queries:
  assumes inv: "rb_inv rb"
  shows "\<exists>n. GetSize rb = Some n \<and> unat n = header (contents rb) \<and>
    IsComplete rb = Some (length (contents rb) < 2 \<or> header (contents rb) \<le> length (contents rb))"
proof -
  obtain n where n: "GetSize rb = Some n" "unat n = header (contents rb)"
    using GetSize_header [OF inv] by blast
  have "header (contents rb) < 65536"
    using unat_byte_less [of "contents rb ! 0"] unat_byte_less [of "contents rb ! 1"]
    unfolding header_def by (simp only: split: if_split) linarith
  then have "sint n = int (header (contents rb))"
    unfolding n(2) [symmetric] by (intro sint_small_64) simp
  moreover have "sint (Available rb) = int (length (contents rb))"
    using Available_less [OF inv] by (simp add: sint_small del: of_nat_unat)
  then have "sint (Available rb) \<ge> int (header (contents rb)) \<longleftrightarrow>
             header (contents rb) \<le> length (contents rb)"
    by (simp only: of_nat_le_iff)
  moreover have "length (contents rb) < 2 \<Longrightarrow> header (contents rb) = 0" by (simp add: header_def)
  ultimately show ?thesis using n by (auto simp: IsComplete_def simp del: of_nat_unat)
qed

theorem header_queries_witness:
  "\<exists>n. GetSize Initialize = Some n \<and> unat n = 0 \<and> IsComplete Initialize = Some True"
  using header_queries [OF Initialize_good] by (simp add: Initialize_empty header_def)

text \<open>
  What \<open>Full\<close> answers. The query masks with \<open>BUFFER_SIZE\<close> where the cursors are masked with
  \<open>BUFFER_MASK\<close>, so it does not say that the buffer is full: it holds exactly when the head
  cursor is 0 and the tail is not in the last cell. The empty buffer the constructor builds is
  reported full, and a buffer with no space left is not, whether its head is at 0 or elsewhere.
\<close>

theorem Full_answers:
  "(\<forall>rb. rb_inv rb \<longrightarrow> Full rb = (m_head rb = 0 \<and> m_tail rb \<noteq> 65535)) \<and>
   Full Initialize \<and> Empty Initialize \<and>
   (\<forall>rb. rb_inv rb \<and> Space rb = 0 \<longrightarrow> \<not> Full rb)"
proof -
  have full: "Full rb = (m_head rb = 0 \<and> m_tail rb \<noteq> 65535)" if inv: "rb_inv rb" for rb
  proof -
    have t: "unat (m_tail rb) < 65536" and h: "unat (m_head rb) < 65536"
      using inv by (simp_all add: rb_inv_def)
    have "(m_tail rb + 1) AND 65536 = (if m_tail rb = 65535 then 65536 else 0)"
    proof (cases "m_tail rb = 65535")
      case False
      then have "unat (m_tail rb) \<noteq> 65535" by (simp add: word_unat_eq_iff)
      with t have "unat (m_tail rb + 1) < 65536"
        by (subst unat_add_lem [THEN iffD1]) simp_all
      then show ?thesis using False by (simp add: and_65536_small)
    qed simp
    moreover have "m_head rb \<noteq> 65536" using h by auto
    ultimately show ?thesis by (auto simp: Full_def)
  qed
  have "\<not> Full rb" if inv: "rb_inv rb" and s0: "Space rb = 0" for rb
  proof
    assume "Full rb"
    with full [OF inv] have "m_head rb = 0" "m_tail rb \<noteq> 65535" by auto
    moreover have "unat (Available rb) = 65535"
      using s0 unat_Space [OF inv] Available_less [OF inv] by simp
    ultimately have "unat (m_tail rb) = unat (65535 :: u32)" using tail_cell [OF inv] by simp
    with \<open>m_tail rb \<noteq> 65535\<close> show False by (simp only: word_unat_eq_iff)
  qed
  moreover have "Full Initialize" "Empty Initialize"
    by (simp_all add: full [OF Initialize_good]) (simp_all add: Initialize_def Empty_def)
  ultimately show ?thesis using full by blast
qed

theorem Full_answers_witness:
  "Full (Initialize\<lparr>m_tail := 9\<rparr>) \<and> \<not> Full (Initialize\<lparr>m_tail := 65535\<rparr>)"
proof -
  have "rb_inv (Initialize\<lparr>m_tail := 9\<rparr>)" "rb_inv (Initialize\<lparr>m_tail := 65535\<rparr>)"
    by (simp_all add: Initialize_def rb_inv_def)
  with Full_answers show ?thesis by (auto simp: Initialize_def)
qed

section \<open>The self-test\<close>

text \<open>
  \<open>Dump\<close> prints either its waiting message or bytes of its local array; \<open>array\<close> holds the 20
  letters from \<^verbatim>\<open>'a'\<close> to \<^verbatim>\<open>'t'\<close>. The return values of its \<open>Write\<close> calls are ignored.
\<close>

datatype dump_line = Waiting | Chars "byte list"

definition dump_array :: "byte list" where
  "dump_array = map (\<lambda>i. 97 + of_nat i) [0..<20]"

definition Dump :: "ring_buffer \<Rightarrow> (ring_buffer \<times> dump_line list) option" where
  "Dump rb = do {
     (rb, buffer, size) \<leftarrow> Read rb (replicate 1024 0) 1024;
     let out0 = (if size = 0 then [Waiting] else []);
     (rb, _) \<leftarrow> Write rb dump_array 6;
     (rb, _) \<leftarrow> Write rb dump_array 10;
     (rb, buffer, size) \<leftarrow> Read rb (replicate 1024 0) 4;
     let out1 = [Chars (take (unat size) buffer)];
     (rb, _) \<leftarrow> Write rb dump_array 10;
     (rb, buffer, size) \<leftarrow> Read rb (replicate 1024 0) 12;
     let out2 = [Chars (take (unat size) buffer)];
     (rb, buffer, _) \<leftarrow> Read rb (replicate 1024 0) 1;
     (rb, _) \<leftarrow> Write rb dump_array 15;
     (rb, buffer, size) \<leftarrow> Read rb (replicate 1024 0) 15;
     let out3 = [Chars (take (unat size) buffer)];
     Some (rb, out0 @ out1 @ out2 @ out3) }"

text \<open>\<open>letters i n\<close>: the \<open>n\<close> letters of the test array from its first one on.\<close>

definition letters :: "nat \<Rightarrow> byte list" where
  "letters n = take n dump_array"

lemma dump_write:
  assumes "rb_inv rb" and "contents rb = c" and "unat len \<le> 20" and "length c \<le> 60000"
  obtains rb' where "Write rb dump_array len = Some (rb', len)" and "rb_inv rb'"
    and "contents rb' = c @ letters (unat len)"
  using ring.put_fits [OF assms(1), of len dump_array] assms(2-4)
  by (auto simp: dump_array_def letters_def)

lemma dump_read:
  assumes "rb_inv rb" and "contents rb = c" and "unat len \<le> length c" and "unat len \<le> 1024"
  obtains rb' where
    "Read rb (replicate 1024 0) len = Some (rb', take (unat len) c @ replicate (1024 - unat len) 0, len)"
    and "rb_inv rb'" and "contents rb' = drop (unat len) c"
  using ring.get_has [OF assms(1), of len "replicate 1024 0"] assms(2-4) by auto

text \<open>
  The self-test on a fresh buffer. \<open>Dump\<close> on the constructor's state runs to the end, prints
  the waiting message and the lines \<^verbatim>\<open>abcd\<close>, \<^verbatim>\<open>efabcdefghij\<close> and \<^verbatim>\<open>bcdefghijabcdef\<close>, and
  leaves the nine letters \<^verbatim>\<open>g\<close> to \<^verbatim>\<open>o\<close> in the buffer.
\<close>

theorem Dump_fresh:
  "\<exists>rb. Dump Initialize = Some (rb, [Waiting, Chars (letters 4),
           Chars (drop 4 (letters 6) @ letters 10), Chars (drop 1 (letters 10) @ letters 6)]) \<and>
        rb_inv rb \<and> contents rb = drop 6 (letters 15)"
proof -
  have r0: "Read Initialize (replicate 1024 0) 1024 = Some (Initialize, replicate 1024 0, 0)"
    by (rule ring.get_short [OF Initialize_good]) (simp add: Initialize_empty)
  have len: "length (letters n) = n" if "n \<le> 20" for n using that by (simp add: letters_def dump_array_def)
  have tk: "take m (letters n) = letters m" if "m \<le> n" for m n using that by (simp add: letters_def min_absorb1)
  obtain b1 where b1: "Write Initialize dump_array 6 = Some (b1, 6)" "rb_inv b1" "contents b1 = letters 6"
    by (rule dump_write [OF Initialize_good Initialize_empty, of 6]) simp_all
  obtain b2 where b2: "Write b1 dump_array 10 = Some (b2, 10)" "rb_inv b2"
      "contents b2 = letters 6 @ letters 10"
    by (rule dump_write [OF b1(2,3), of 10]) (simp_all add: len)
  obtain b3 where b3: "Read b2 (replicate 1024 0) 4 = Some (b3, letters 4 @ replicate 1020 0, 4)"
      "rb_inv b3" "contents b3 = drop 4 (letters 6) @ letters 10"
    by (rule dump_read [OF b2(2,3), of 4]) (simp_all add: len tk)
  obtain b4 where b4: "Write b3 dump_array 10 = Some (b4, 10)" "rb_inv b4"
      "contents b4 = drop 4 (letters 6) @ letters 10 @ letters 10"
    by (rule dump_write [OF b3(2,3), of 10]) (simp_all add: len)
  obtain b5 where b5: "Read b4 (replicate 1024 0) 12 =
        Some (b5, drop 4 (letters 6) @ letters 10 @ replicate 1012 0, 12)"
      "rb_inv b5" "contents b5 = letters 10"
    by (rule dump_read [OF b4(2,3), of 12]) (simp_all add: len)
  obtain b6 where b6: "Read b5 (replicate 1024 0) 1 = Some (b6, letters 1 @ replicate 1023 0, 1)"
      "rb_inv b6" "contents b6 = drop 1 (letters 10)"
    by (rule dump_read [OF b5(2,3), of 1]) (simp_all add: len tk)
  obtain b7 where b7: "Write b6 dump_array 15 = Some (b7, 15)" "rb_inv b7"
      "contents b7 = drop 1 (letters 10) @ letters 15"
    by (rule dump_write [OF b6(2,3), of 15]) (simp_all add: len)
  obtain b8 where b8: "Read b7 (replicate 1024 0) 15 =
        Some (b8, drop 1 (letters 10) @ letters 6 @ replicate 1009 0, 15)"
      "rb_inv b8" "contents b8 = drop 6 (letters 15)"
    by (rule dump_read [OF b7(2,3), of 15]) (simp_all add: len tk)
  show ?thesis
    by (simp add: Dump_def r0 b1(1) b2(1) b3(1) b4(1) b5(1) b6(1) b7(1) b8 len)
qed

end
