(* ===== verification/Name_Ctrl.thy ===== *)
theory Name_Ctrl
  imports Prelude
begin

text \<open>
  The name allocator of \<^verbatim>\<open>nameserver/name_ctrl.h\<close> and \<^verbatim>\<open>nameserver/name_ctrl.cpp\<close>: per group a
  serial number and a bitset of 256 serials in use; \<open>allotnamepair\<close> hands out the next free
  serial of a group as a name, \<open>getnamelist\<close> lists the names in use. The abstract allocator is
  one counter per group.

  An \<^verbatim>\<open>int\<close> serial is a 32-bit word; the bitset is a list of 256 booleans, and a test outside
  it (an exception in C++) is \<^const>\<open>None\<close>. The unbounded search loop is a
  \<^theory_text>\<open>partial_function\<close>, so that not returning is \<^const>\<open>None\<close> too.
\<close>

section \<open>State\<close>

record name_pair =
  serial :: u32
  bitset :: "bool list"

type_synonym serial_map = "string \<Rightarrow> name_pair option"

definition SERIAL_SIZE :: nat where
  "SERIAL_SIZE = 256"

definition bit_test :: "bool list \<Rightarrow> u32 \<Rightarrow> bool option" where
  "bit_test bs i = (if unat i < length bs then Some (bs ! unat i) else None)"

section \<open>The printed serial\<close>

text \<open>\<open>sprintf(buff, "-%.4o", n)\<close>: octal, padded with zeros to at least four digits.\<close>

definition digit :: "nat \<Rightarrow> char" where
  "digit d = char_of (48 + d)"

fun octal :: "nat \<Rightarrow> string" where
  "octal n = (if n < 8 then [digit n] else octal (n div 8) @ [digit (n mod 8)])"

declare octal.simps [simp del]

definition serial_suffix :: "nat \<Rightarrow> string" where
  "serial_suffix n = ''-'' @ replicate (4 - length (octal n)) (CHR ''0'') @ octal n"

section \<open>Operations\<close>

text \<open>The \<^verbatim>\<open>for ( ; ; )\<close> loop: step the serial in 8 bits until its bit is clear.\<close>

partial_function (option) allot_loop :: "u32 \<Rightarrow> bool list \<Rightarrow> u32 option" where
  "allot_loop sr bs =
     (let sr' = (sr + 1) AND 0xff in
      Option.bind (bit_test bs sr') (\<lambda>used. if \<not> used then Some sr' else allot_loop sr' bs))"

definition allotnamepair :: "serial_map \<Rightarrow> string \<Rightarrow> (serial_map \<times> string) option" where
  "allotnamepair m name =
     (case m name of
        Some np \<Rightarrow>
          if list_all id (bitset np) then Some (m, '''')
          else do {
            sr \<leftarrow> allot_loop (serial np) (bitset np);
            Some (m(name \<mapsto> \<lparr>serial = sr, bitset = (bitset np)[unat sr := True]\<rparr>),
                  name @ serial_suffix (unat sr))
          }
      | None \<Rightarrow>
          Some (m(name \<mapsto> \<lparr>serial = 0, bitset = (replicate SERIAL_SIZE False)[0 := True]\<rparr>),
                name @ ''-0000''))"

text \<open>The listing loop, with its early exit once \<open>tot\<close> set bits have been seen.\<close>

fun getnamelist_loop :: "string \<Rightarrow> bool list \<Rightarrow> nat \<Rightarrow> nat \<Rightarrow> nat list \<Rightarrow> string list" where
  "getnamelist_loop name bs tot count [] = []"
| "getnamelist_loop name bs tot count (i # js) =
     (if bs ! i
      then (name @ serial_suffix i) #
           (if count + 1 \<ge> tot then [] else getnamelist_loop name bs tot (count + 1) js)
      else getnamelist_loop name bs tot count js)"

definition getnamelist :: "serial_map \<Rightarrow> string \<Rightarrow> string list" where
  "getnamelist m name =
     (case m name of
        Some np \<Rightarrow> getnamelist_loop name (bitset np) (count_list (bitset np) True) 0 [0..<SERIAL_SIZE]
      | None \<Rightarrow> [])"

section \<open>The printed serial determines the serial\<close>

fun octal_value :: "nat \<Rightarrow> string \<Rightarrow> nat" where
  "octal_value acc [] = acc"
| "octal_value acc (c # cs) = octal_value (8 * acc + (of_char c - 48)) cs"

lemma octal_value_append: "octal_value acc (xs @ ys) = octal_value (octal_value acc xs) ys"
  by (induction xs arbitrary: acc) simp_all

lemma digit_value: "d < 10 \<Longrightarrow> of_char (digit d) - 48 = d"
  by (simp add: digit_def)

lemma octal_value_octal: "octal_value 0 (octal n) = n"
proof (induction n rule: octal.induct)
  case (1 n)
  show ?case
  proof (cases "n < 8")
    case True
    then show ?thesis by (subst octal.simps) (simp add: digit_value)
  next
    case False
    with 1 have "octal_value 0 (octal (n div 8)) = n div 8" by simp
    with False show ?thesis
      by (subst octal.simps) (simp add: octal_value_append digit_value)
  qed
qed

lemma octal_value_zeros: "octal_value 0 (replicate k (CHR ''0'') @ cs) = octal_value 0 cs"
  by (induction k) simp_all

lemma serial_suffix_inj: "serial_suffix i = serial_suffix j \<Longrightarrow> i = j"
  unfolding serial_suffix_def
  by (metis append_same_eq octal_value_octal octal_value_zeros same_append_eq)

lemma length_octal: "n < 8 ^ k \<Longrightarrow> 0 < k \<Longrightarrow> length (octal n) \<le> k"
proof (induction k arbitrary: n)
  case (Suc k)
  show ?case
  proof (cases "n < 8")
    case True
    then show ?thesis by (subst octal.simps) simp
  next
    case False
    with Suc.prems have "n div 8 < 8 ^ k" "0 < k" by (cases k; simp add: div_less_iff_less_mult)+
    with Suc.IH False show ?thesis by (subst octal.simps) simp
  qed
qed simp

lemma length_serial_suffix: "n < 256 \<Longrightarrow> length (serial_suffix n) = 5"
  using length_octal [of n 4] by (simp add: serial_suffix_def)

text \<open>A name of any group is its group followed by five characters, so names never clash.\<close>

lemma name_inj:
  assumes "i < 256" and "j < 256" and "a @ serial_suffix i = b @ serial_suffix j"
  shows "a = b \<and> i = j"
  using assms by (auto simp: length_serial_suffix append_eq_append_conv dest: serial_suffix_inj)

section \<open>The search loop\<close>

text \<open>
  The loop stops at the first clear bit after \<open>sr\<close> in cyclic order: if the \<open>d\<close>-th serial
  after \<open>sr\<close> is the first one that is free, the loop returns it.
\<close>

lemma allot_loop_first:
  assumes "length bs = 256" and "0 < d" and "\<And>e. 0 < e \<Longrightarrow> e < d \<Longrightarrow> bs ! ((unat sr + e) mod 256)"
    and "\<not> bs ! ((unat sr + d) mod 256)"
  shows "\<exists>r. allot_loop sr bs = Some r \<and> unat r = (unat sr + d) mod 256"
  using assms(2-)
proof (induction d arbitrary: sr)
  case (Suc d)
  let ?sr = "(sr + 1) AND 0xff"
  have sr: "unat ?sr = (unat sr + 1) mod 256" by (rule unat_step_255)
  have bit: "bit_test bs ?sr = Some (bs ! ((unat sr + 1) mod 256))"
    using assms(1) by (simp only: bit_test_def sr) simp
  show ?case
  proof (cases d)
    case 0
    with Suc.prems bit sr show ?thesis by (subst allot_loop.simps) simp
  next
    case (Suc d')
    have used: "bs ! ((unat sr + 1) mod 256)" using Suc.prems(2) [of 1] Suc by simp
    have shift: "(unat ?sr + e) mod 256 = (unat sr + Suc e) mod 256" for e
      unfolding sr by (simp add: mod_add_left_eq)
    have "\<exists>r. allot_loop ?sr bs = Some r \<and> unat r = (unat ?sr + d) mod 256"
    proof (rule Suc.IH)
      show "0 < d" using Suc by simp
      show "bs ! ((unat ?sr + e) mod 256)" if "0 < e" "e < d" for e
        unfolding shift using Suc.prems(2) [of "Suc e"] that by simp
      show "\<not> bs ! ((unat ?sr + d) mod 256)" unfolding shift using Suc.prems(3) .
    qed
    then show ?thesis unfolding shift using bit used by (subst allot_loop.simps) (simp add: Let_def)
  qed
qed simp

text \<open>
  The unbounded search returns. On any bitset of 256 bits that is not full, from any serial,
  the loop of \<open>allotnamepair\<close> stops, and it stops at the first free serial after the given one
  in cyclic order: every serial passed on the way is in use.
\<close>

theorem allot_loop_returns:
  assumes "length bs = 256" and "\<not> list_all id bs"
  shows "\<exists>r d. allot_loop sr bs = Some r \<and> 0 < d \<and> d \<le> 256 \<and>
           unat r = (unat sr + d) mod 256 \<and> \<not> bs ! unat r \<and>
           (\<forall>e. 0 < e \<and> e < d \<longrightarrow> bs ! ((unat sr + e) mod 256))"
proof -
  let ?free = "\<lambda>d. 0 < d \<and> \<not> bs ! ((unat sr + d) mod 256)"
  obtain i where i: "i < 256" "\<not> bs ! i" using assms by (auto simp: list_all_length)
  have "?free (256 + i - unat sr mod 256)"
  proof -
    have "unat sr mod 256 + (256 + i - unat sr mod 256) = i + 256"
      using mod_less_divisor [of 256 "unat sr"] by linarith
    then have "(unat sr + (256 + i - unat sr mod 256)) mod 256 = i"
      using i(1) by (metis mod_add_left_eq mod_add_self2 mod_less)
    with i(2) show ?thesis using mod_less_divisor [of 256 "unat sr"] by simp
  qed
  then have ex: "?free (LEAST d. ?free d)" by (rule LeastI)
  define d where "d = (LEAST d. ?free d)"
  have below: "bs ! ((unat sr + e) mod 256)" if "0 < e" "e < d" for e
    using not_less_Least [of e ?free] that by (auto simp: d_def)
  have "d \<le> 256"
  proof (rule ccontr)
    assume "\<not> d \<le> 256"
    then have "bs ! ((unat sr + (d - 256)) mod 256)" by (intro below) simp_all
    moreover have "unat sr + d = unat sr + (d - 256) + 256" using \<open>\<not> d \<le> 256\<close> by simp
    then have "(unat sr + d) mod 256 = (unat sr + (d - 256)) mod 256" by (simp only: mod_add_self2)
    ultimately show False using ex by (simp add: d_def [symmetric])
  qed
  moreover obtain r where "allot_loop sr bs = Some r" "unat r = (unat sr + d) mod 256"
    using allot_loop_first [OF assms(1) _ below, of d] ex by (auto simp: d_def [symmetric])
  ultimately show ?thesis using below ex unfolding d_def [symmetric] by metis
qed

theorem allot_loop_returns_witness:
  "\<exists>r. allot_loop 255 ((replicate 256 True)[3 := False]) = Some r \<and>
       \<not> ((replicate 256 True)[3 := False]) ! unat r"
proof -
  have "\<not> list_all id ((replicate 256 True)[3 := False])"
    by (auto simp: list_all_length intro!: exI [of _ 3])
  then show ?thesis using allot_loop_returns [of "(replicate 256 True)[3 := False]" 255] by auto
qed

section \<open>The allocator as one counter per group\<close>

definition spec_allot :: "(string \<Rightarrow> nat) \<Rightarrow> string \<Rightarrow> (string \<Rightarrow> nat) \<times> string" where
  "spec_allot c name =
     (if c name < 256 then (c(name := c name + 1), name @ serial_suffix (c name)) else (c, []))"

definition spec_names :: "(string \<Rightarrow> nat) \<Rightarrow> string \<Rightarrow> string list" where
  "spec_names c name = map (\<lambda>i. name @ serial_suffix i) [0..<c name]"

text \<open>A session of requests, by the counters alone and on an implementation.\<close>

fun spec_allots :: "(string \<Rightarrow> nat) \<Rightarrow> string list \<Rightarrow> (string \<Rightarrow> nat) \<times> string list" where
  "spec_allots c [] = (c, [])"
| "spec_allots c (g # gs) =
     (let (c1, r) = spec_allot c g; (c2, rs) = spec_allots c1 gs in (c2, r # rs))"

fun allot_session ::
  "('m \<Rightarrow> string \<Rightarrow> ('m \<times> string) option) \<Rightarrow> 'm \<Rightarrow> string list \<Rightarrow> ('m \<times> string list) option" where
  "allot_session allot m [] = Some (m, [])"
| "allot_session allot m (g # gs) = do {
     (m1, r) \<leftarrow> allot m g;
     (m2, rs) \<leftarrow> allot_session allot m1 gs;
     Some (m2, r # rs) }"

lemma spec_allots_names:
  "r \<in> set (snd (spec_allots c gs)) \<Longrightarrow> r \<noteq> [] \<Longrightarrow>
   \<exists>g i. r = g @ serial_suffix i \<and> c g \<le> i \<and> i < 256"
proof (induction gs arbitrary: c)
  case (Cons g gs)
  from Cons.prems(1) consider "r = snd (spec_allot c g)"
    | "r \<in> set (snd (spec_allots (fst (spec_allot c g)) gs))"
    by (auto simp: case_prod_beta Let_def)
  then show ?case
  proof cases
    case 1
    with Cons.prems(2) show ?thesis by (auto simp: spec_allot_def split: if_splits)
  next
    case 2
    with Cons.IH [OF _ Cons.prems(2)] obtain h i where
      "r = h @ serial_suffix i" "fst (spec_allot c g) h \<le> i" "i < 256" by blast
    moreover have "c h \<le> fst (spec_allot c g) h" by (simp add: spec_allot_def)
    ultimately have "r = h @ serial_suffix i \<and> c h \<le> i \<and> i < 256" by linarith
    then show ?thesis by blast
  qed
qed simp

lemma spec_allots_distinct: "distinct (filter (\<lambda>r. r \<noteq> []) (snd (spec_allots c gs)))"
proof (induction gs arbitrary: c)
  case (Cons g gs)
  define c1 where "c1 = fst (spec_allot c g)"
  define r where "r = snd (spec_allot c g)"
  have fresh: "r \<notin> set (snd (spec_allots c1 gs))" if ne: "r \<noteq> []"
  proof
    assume "r \<in> set (snd (spec_allots c1 gs))"
    with ne obtain h i where r: "r = h @ serial_suffix i" "c1 h \<le> i" "i < 256"
      using spec_allots_names by blast
    from ne have lt: "c g < 256" and rg: "r = g @ serial_suffix (c g)"
      by (auto simp: r_def spec_allot_def split: if_splits)
    have "h @ serial_suffix i = g @ serial_suffix (c g)" using r(1) rg by (rule subst)
    then have "h = g" "i = c g" using name_inj [OF r(3) lt] by blast+
    with r(2) lt show False by (simp add: c1_def spec_allot_def)
  qed
  have "snd (spec_allots c (g # gs)) = r # snd (spec_allots c1 gs)"
    by (simp add: case_prod_beta Let_def r_def c1_def)
  with Cons.IH [of c1] fresh show ?case by simp
qed simp

text \<open>What a client of an allocator relies on: it represents the counters.\<close>

locale name_allocator =
  fixes allot :: "'m \<Rightarrow> string \<Rightarrow> ('m \<times> string) option"
    and names :: "'m \<Rightarrow> string \<Rightarrow> string list"
    and start :: 'm
    and rep :: "'m \<Rightarrow> (string \<Rightarrow> nat) \<Rightarrow> bool"
  assumes rep_start: "rep start (\<lambda>_. 0)"
    and allot_step: "rep m c \<Longrightarrow> \<exists>m'. allot m name = Some (m', snd (spec_allot c name)) \<and>
                                      rep m' (fst (spec_allot c name))"
    and names_step: "rep m c \<Longrightarrow> names m name = spec_names c name"
begin

lemma session_step:
  "rep m c \<Longrightarrow> \<exists>m'. allot_session allot m gs = Some (m', snd (spec_allots c gs)) \<and>
                       rep m' (fst (spec_allots c gs))"
proof (induction gs arbitrary: m c)
  case (Cons g gs)
  obtain m1 where m1: "allot m g = Some (m1, snd (spec_allot c g))"
      "rep m1 (fst (spec_allot c g))"
    using allot_step [OF Cons.prems] by blast
  with Cons.IH [OF m1(2)] show ?case by (auto simp: case_prod_beta Let_def)
qed simp

lemma session_distinct:
  "\<exists>m rs. allot_session allot start gs = Some (m, rs) \<and> rs = snd (spec_allots (\<lambda>_. 0) gs) \<and>
          distinct (filter (\<lambda>r. r \<noteq> []) rs) \<and>
          (\<forall>g. names m g = spec_names (fst (spec_allots (\<lambda>_. 0) gs)) g)"
  using session_step [OF rep_start, of gs] spec_allots_distinct [of "\<lambda>_. 0" gs]
  by (auto simp: names_step)

text \<open>A name just handed out is the last one listed for its group.\<close>

lemma allot_listed:
  assumes "rep m c" and "allot m name = Some (m', r)" and "r \<noteq> []"
  shows "names m' name = names m name @ [r]"
proof -
  have "r = snd (spec_allot c name)" and rep': "rep m' (fst (spec_allot c name))"
    using allot_step [OF assms(1), of name] assms(2) by auto
  with assms(3) have "c name < 256" "r = name @ serial_suffix (c name)"
    by (auto simp: spec_allot_def split: if_splits)
  then show ?thesis
    by (simp add: names_step [OF rep'] names_step [OF assms(1)] spec_names_def spec_allot_def)
qed

end

section \<open>The code implements the counters\<close>

text \<open>The bitset of a group with \<open>c\<close> names in use: the first \<open>c\<close> bits.\<close>

definition used_bits :: "nat \<Rightarrow> bool list" where
  "used_bits c = replicate c True @ replicate (256 - c) False"

definition name_rep :: "serial_map \<Rightarrow> (string \<Rightarrow> nat) \<Rightarrow> bool" where
  "name_rep m c \<longleftrightarrow> (\<forall>name. case m name of
       None \<Rightarrow> c name = 0
     | Some np \<Rightarrow> 0 < c name \<and> c name \<le> 256 \<and> unat (serial np) = c name - 1 \<and>
                  bitset np = used_bits (c name))"

lemma nth_used_bits [simp]: "i < 256 \<Longrightarrow> c \<le> 256 \<Longrightarrow> used_bits c ! i \<longleftrightarrow> i < c"
  by (simp add: used_bits_def nth_append)

lemma length_used_bits [simp]: "c \<le> 256 \<Longrightarrow> length (used_bits c) = 256"
  by (simp add: used_bits_def)

lemma used_bits_full: "c \<le> 256 \<Longrightarrow> list_all id (used_bits c) \<longleftrightarrow> c = 256"
  by (auto simp: list_all_length) (metis le_neq_implies_less less_irrefl)

lemma used_bits_Suc: "c < 256 \<Longrightarrow> (used_bits c)[c := True] = used_bits (Suc c)"
  by (rule nth_equalityI) (auto simp: nth_list_update)

lemma count_used_bits: "c \<le> 256 \<Longrightarrow> count_list (used_bits c) True = c"
proof -
  have "count_list (replicate k True) True = k" "count_list (replicate k False) True = 0" for k
    by (induction k) simp_all
  then show ?thesis by (simp add: used_bits_def)
qed

lemma name_rep_empty: "name_rep (\<lambda>_. None) (\<lambda>_. 0)"
  by (simp add: name_rep_def)

lemma serial_suffix_0: "serial_suffix 0 = ''-0000''"
  by code_simp

lemma name_rep_update:
  assumes "name_rep m c" and "k < 256" and "unat sr = k" and "bs = used_bits (Suc k)"
  shows "name_rep (m(name \<mapsto> \<lparr>serial = sr, bitset = bs\<rparr>)) (c(name := Suc k))"
  unfolding name_rep_def
proof
  fix n
  show "case (m(name \<mapsto> \<lparr>serial = sr, bitset = bs\<rparr>)) n of
       None \<Rightarrow> (c(name := Suc k)) n = 0
     | Some np \<Rightarrow> 0 < (c(name := Suc k)) n \<and> (c(name := Suc k)) n \<le> 256 \<and>
                  unat (serial np) = (c(name := Suc k)) n - 1 \<and> bitset np = used_bits ((c(name := Suc k)) n)"
    using assms(2-4) assms(1) [unfolded name_rep_def, rule_format, of n]
    by (cases "n = name"; cases "m n") simp_all
qed

lemma allotnamepair_step:
  assumes rep: "name_rep m c"
  shows "\<exists>m'. allotnamepair m name = Some (m', snd (spec_allot c name)) \<and>
              name_rep m' (fst (spec_allot c name))"
proof (cases "m name")
  case None
  with rep have "c name = 0" by (auto simp: name_rep_def dest: spec [of _ name])
  moreover have "(replicate 256 False)[0 := True] = used_bits (Suc 0)"
    using used_bits_Suc [of 0] by (simp add: used_bits_def)
  ultimately show ?thesis using None name_rep_update [OF rep, of 0 0 _ name]
    by (simp add: allotnamepair_def spec_allot_def SERIAL_SIZE_def serial_suffix_0)
next
  case (Some np)
  with rep have np: "0 < c name" "c name \<le> 256" "unat (serial np) = c name - 1"
      "bitset np = used_bits (c name)"
    by (auto simp: name_rep_def dest: spec [of _ name])
  show ?thesis
  proof (cases "c name = 256")
    case True
    with Some np rep show ?thesis
      by (simp add: allotnamepair_def spec_allot_def used_bits_full)
  next
    case False
    with np have lt: "c name < 256" by simp
    have cell: "(unat (serial np) + 1) mod 256 = c name" using np lt by simp
    obtain r where r: "allot_loop (serial np) (bitset np) = Some r" "unat r = c name"
      using allot_loop_first [of "bitset np" 1 "serial np"] np lt by (auto simp: cell)
    with Some np lt show ?thesis using name_rep_update [OF rep lt, of r _ name]
      by (simp add: allotnamepair_def spec_allot_def used_bits_full used_bits_Suc)
  qed
qed

lemma getnamelist_loop_used:
  "i < c \<Longrightarrow> c \<le> 256 \<Longrightarrow>
   getnamelist_loop name (used_bits c) c i [i..<256] = map (\<lambda>k. name @ serial_suffix k) [i..<c]"
proof (induction "c - i" arbitrary: i)
  case (Suc d)
  have hd: "[i..<256] = i # [Suc i..<256]" "[i..<c] = i # [Suc i..<c]"
    using Suc.prems by (simp_all add: upt_conv_Cons)
  show ?case
  proof (cases "Suc i < c")
    case True
    with Suc show ?thesis by (simp add: hd)
  next
    case False
    with Suc.prems show ?thesis by (simp add: hd)
  qed
qed simp

lemma getnamelist_step:
  assumes rep: "name_rep m c"
  shows "getnamelist m name = spec_names c name"
proof (cases "m name")
  case None
  with rep have "c name = 0" by (auto simp: name_rep_def dest: spec [of _ name])
  with None show ?thesis by (simp add: getnamelist_def spec_names_def)
next
  case (Some np)
  with rep have "0 < c name" "c name \<le> 256" "bitset np = used_bits (c name)"
    by (auto simp: name_rep_def dest: spec [of _ name])
  with Some show ?thesis
    by (simp add: getnamelist_def spec_names_def SERIAL_SIZE_def count_used_bits getnamelist_loop_used)
qed

interpretation ctrl: name_allocator allotnamepair getnamelist "\<lambda>_. None" name_rep
  by unfold_locales (auto intro: name_rep_empty allotnamepair_step getnamelist_step)

text \<open>
  C10: the allocator is a counter per group. On a state that represents the counters \<open>c\<close>,
  \<open>allotnamepair\<close> always returns; below 256 names it hands out the group followed by the next
  serial in four octal digits and represents the incremented counter, at 256 it returns the
  empty string and keeps the counters. \<open>getnamelist\<close> lists exactly the names handed out for a
  group, in order; the early exit of its loop loses none of them.
\<close>

theorem allocator_refines:
  assumes rep: "name_rep m c"
  shows "\<exists>m'. allotnamepair m name = Some (m', snd (spec_allot c name)) \<and>
              name_rep m' (fst (spec_allot c name)) \<and> getnamelist m name = spec_names c name"
  using ctrl.allot_step [OF rep] ctrl.names_step [OF rep] by blast

theorem allocator_refines_witness:
  "\<exists>m'. allotnamepair [''a'' \<mapsto> \<lparr>serial = 1, bitset = used_bits 2\<rparr>] ''a'' = Some (m', ''a-0002'') \<and>
        getnamelist [''a'' \<mapsto> \<lparr>serial = 1, bitset = used_bits 2\<rparr>] ''a'' = [''a-0000'', ''a-0001'']"
proof -
  have "name_rep [''a'' \<mapsto> \<lparr>serial = 1, bitset = used_bits 2\<rparr>] ((\<lambda>_. 0)(''a'' := 2))"
    by (simp add: name_rep_def)
  moreover have "serial_suffix 0 = ''-0000''" "serial_suffix 1 = ''-0001''" "serial_suffix 2 = ''-0002''"
    by code_simp+
  ultimately show ?thesis using allocator_refines [of _ "(\<lambda>_. 0)(''a'' := 2)" "''a''"]
    by (auto simp: spec_allot_def spec_names_def upt_rec)
qed

text \<open>
  Names are unique. In any sequence of requests for any groups from the empty allocator,
  every call returns, a request is answered by the counter of its group, and no name is ever
  handed out twice, neither within a group nor to two groups whose names extend each other; the
  lists shown afterwards are the names handed out.
\<close>

theorem names_unique:
  "\<exists>m rs. allot_session allotnamepair (\<lambda>_. None) gs = Some (m, rs) \<and>
          rs = snd (spec_allots (\<lambda>_. 0) gs) \<and> distinct (filter (\<lambda>r. r \<noteq> []) rs) \<and>
          (\<forall>g. getnamelist m g = spec_names (fst (spec_allots (\<lambda>_. 0) gs)) g)"
  by (rule ctrl.session_distinct)

end
