(* ===== verification/Name_Service.thy ===== *)
theory Name_Service
  imports Name_Ctrl
begin

text \<open>
  The name server's request loop (\<^verbatim>\<open>nameserver/name_server.cpp\<close>) and the router's lookup
  (\<^verbatim>\<open>routers/router_server.cpp\<close>), which talk over a ZeroMQ request socket with a protobuf
  message. ZeroMQ and protobuf are outside the repository: a frame received is an input of the
  model, a frame sent an output, and the two protobuf functions are the parameters \<open>ser\<close> and
  \<open>parse\<close>, of which only the round trip is used.
\<close>

section \<open>The server\<close>

text \<open>
  One pass of the loop with a request: the frames sent on the reply socket and on the publisher.
\<close>

definition serve_request ::
  "(string list \<Rightarrow> string) \<Rightarrow> serial_map \<Rightarrow> string \<Rightarrow> (serial_map \<times> string \<times> string) option" where
  "serve_request ser m grp = do {
     (m', name) \<leftarrow> allotnamepair m grp;
     let namelist = getnamelist m' grp;
     Some (m', ser namelist, name) }"

text \<open>
  The loop over what each poll found: \<^const>\<open>None\<close> when no request was pending. The frames are
  collected in the order they are sent.
\<close>

fun server_loop ::
  "(string list \<Rightarrow> string) \<Rightarrow> serial_map \<Rightarrow> string option list \<Rightarrow>
   (serial_map \<times> (string \<times> string) list) option" where
  "server_loop ser m [] = Some (m, [])"
| "server_loop ser m (None # polls) = server_loop ser m polls"
| "server_loop ser m (Some grp # polls) = do {
     (m1, reply, published) \<leftarrow> serve_request ser m grp;
     (m2, out) \<leftarrow> server_loop ser m1 polls;
     Some (m2, (reply, published) # out) }"

section \<open>The router\<close>

definition router_request :: string where
  "router_request = ''cluster''"

text \<open>The copying loop of \<open>router_name\<close> over the parsed message.\<close>

fun copy_names :: "string list \<Rightarrow> nat \<Rightarrow> nat \<Rightarrow> string list" where
  "copy_names msg i 0 = []"
| "copy_names msg i (Suc n) = msg ! i # copy_names msg (Suc i) n"

definition router_name :: "(string \<Rightarrow> string list) \<Rightarrow> string \<Rightarrow> string list" where
  "router_name parse res = (let msg = parse res in copy_names msg 0 (length msg))"

text \<open>A router's lookup against a server in state \<open>m\<close>: its list and what subscribers see.\<close>

definition router_lookup ::
  "(string list \<Rightarrow> string) \<Rightarrow> (string \<Rightarrow> string list) \<Rightarrow> serial_map \<Rightarrow>
   (serial_map \<times> string list \<times> string) option" where
  "router_lookup ser parse m = do {
     (m', reply, published) \<leftarrow> serve_request ser m router_request;
     Some (m', router_name parse reply, published) }"

section \<open>What they compute\<close>

lemma copy_names_drop: "i + n = length msg \<Longrightarrow> copy_names msg i n = drop i msg"
  by (induction msg i n rule: copy_names.induct) (simp_all add: Cons_nth_drop_Suc)

lemma router_name_id [simp]: "router_name parse res = parse res"
  by (simp add: router_name_def copy_names_drop)

lemma serve_request_step:
  assumes "name_rep m c"
  shows "\<exists>m'. serve_request ser m g =
           Some (m', ser (spec_names (fst (spec_allot c g)) g), snd (spec_allot c g)) \<and>
         name_rep m' (fst (spec_allot c g))"
proof -
  obtain m' where m': "allotnamepair m g = Some (m', snd (spec_allot c g))"
      "name_rep m' (fst (spec_allot c g))"
    using ctrl.allot_step [OF assms] by blast
  moreover have "getnamelist m' g = spec_names (fst (spec_allot c g)) g"
    by (rule ctrl.names_step [OF m'(2)])
  ultimately show ?thesis by (simp add: serve_request_def)
qed

text \<open>The requests among the polls.\<close>

abbreviation requests :: "string option list \<Rightarrow> string list" where
  "requests polls \<equiv> List.map_filter id polls"

lemma requests_simps [simp]:
  "requests [] = []" "requests (None # ps) = requests ps" "requests (Some g # ps) = g # requests ps"
  by (simp_all add: map_filter_simps)

lemma server_loop_publishes:
  "name_rep m c \<Longrightarrow> \<exists>m' out. server_loop ser m polls = Some (m', out) \<and>
     map snd out = snd (spec_allots c (requests polls)) \<and>
     name_rep m' (fst (spec_allots c (requests polls)))"
proof (induction polls arbitrary: m c)
  case (Cons p polls)
  show ?case
  proof (cases p)
    case None
    with Cons show ?thesis by simp
  next
    case (Some g)
    obtain m1 where m1: "serve_request ser m g =
           Some (m1, ser (spec_names (fst (spec_allot c g)) g), snd (spec_allot c g))"
        "name_rep m1 (fst (spec_allot c g))"
      using serve_request_step [OF Cons.prems] by blast
    with Cons.IH [OF m1(2)] Some show ?thesis by (auto simp: case_prod_beta Let_def)
  qed
qed simp

text \<open>
  The server never stops answering and never publishes a name twice. For every sequence of
  polls, with any requests in any order, the loop gets through it, sends one reply and one
  publication per request, and the non-empty names published are pairwise different.
\<close>

theorem server_loop_serves:
  "\<exists>m out. server_loop ser (\<lambda>_. None) polls = Some (m, out) \<and>
     length out = length (requests polls) \<and>
     distinct (filter (\<lambda>r. r \<noteq> []) (map snd out))"
proof -
  obtain m out where out: "server_loop ser (\<lambda>_. None) polls = Some (m, out)"
      "map snd out = snd (spec_allots (\<lambda>_. 0) (requests polls))"
    using server_loop_publishes [OF name_rep_empty] by blast
  moreover have "length (snd (spec_allots c gs)) = length gs" for c gs
    by (induction gs arbitrary: c) (simp_all add: case_prod_beta Let_def)
  ultimately show ?thesis
    using spec_allots_distinct [of "\<lambda>_. 0" "requests polls"]
    by (metis length_map)
qed

text \<open>
  A router's lookup, end to end. With a protobuf codec whose parser inverts its serializer,
  a router that asks a server with fewer than 256 cluster names receives every name handed out so
  far followed by its own new one, and subscribers are sent that new name; once all 256 are in
  use, it still receives the full list, and subscribers are sent an empty frame.
\<close>

theorem router_lookup_end_to_end:
  assumes codec: "\<And>ns. parse (ser ns) = ns" and rep: "name_rep m c"
  shows "\<exists>m' ns published. router_lookup ser parse m = Some (m', ns, published) \<and>
    (if c ''cluster'' < 256
     then published = ''cluster'' @ serial_suffix (c ''cluster'') \<and>
          ns = getnamelist m ''cluster'' @ [published]
     else published = [] \<and> ns = getnamelist m ''cluster'')"
proof -
  obtain m' where "serve_request ser m ''cluster'' = Some (m',
        ser (spec_names (fst (spec_allot c ''cluster'')) ''cluster''), snd (spec_allot c ''cluster''))"
    using serve_request_step [OF rep] by blast
  then show ?thesis
    by (simp add: router_lookup_def router_request_def codec ctrl.names_step [OF rep]
        spec_allot_def spec_names_def)
qed

text \<open>A concrete codec: every character is marked and every name ends with a stop.\<close>

fun mark_ser :: "string list \<Rightarrow> string" where
  "mark_ser [] = []"
| "mark_ser (n # ns) = concat (map (\<lambda>c. [CHR ''c'', c]) n) @ CHR ''.'' # mark_ser ns"

fun mark_parse :: "string \<Rightarrow> string \<Rightarrow> string list" where
  "mark_parse acc (CHR ''c'' # c # r) = mark_parse (acc @ [c]) r"
| "mark_parse acc (_ # r) = acc # mark_parse [] r"
| "mark_parse acc [] = []"

lemma mark_parse_name:
  "mark_parse acc (concat (map (\<lambda>c. [CHR ''c'', c]) n) @ r) = mark_parse (acc @ n) r"
  by (induction n arbitrary: acc) simp_all

lemma mark_codec: "mark_parse [] (mark_ser ns) = ns"
  by (induction ns) (simp_all add: mark_parse_name)

theorem router_lookup_end_to_end_witness:
  "\<exists>m'. router_lookup mark_ser (mark_parse []) (\<lambda>_. None) =
     Some (m', [''cluster-0000''], ''cluster-0000'')"
  using router_lookup_end_to_end [where ser = mark_ser and parse = "mark_parse []",
      OF mark_codec name_rep_empty]
  by (simp add: serial_suffix_0 getnamelist_def)

end
