(* ===== verification/Path_Queue.thy ===== *)
theory Path_Queue
  imports Prelude "HOL-Library.Multiset" "HOL-Library.Product_Lexorder"
begin

text \<open>
  The priority queue of \<^verbatim>\<open>pathserver/dijkstra.cpp\<close>:
  \<^verbatim>\<open>std::priority_queue<pair_t, std::vector<pair_t>, std::greater<pair_t>>\<close>, whose top is the
  least pair in lexicographic order. The locale \<open>min_queue\<close> is what the standard library
  promises; the model is a sorted list.
\<close>

locale min_queue =
  fixes push :: "'a::linorder \<Rightarrow> 'q \<Rightarrow> 'q"
    and top :: "'q \<Rightarrow> 'a"
    and pop :: "'q \<Rightarrow> 'q"
    and is_empty :: "'q \<Rightarrow> bool"
    and elems :: "'q \<Rightarrow> 'a multiset"
    and good :: "'q \<Rightarrow> bool"
  assumes empty_iff: "good q \<Longrightarrow> is_empty q \<longleftrightarrow> elems q = {#}"
    and elems_push: "good q \<Longrightarrow> elems (push x q) = add_mset x (elems q)"
    and elems_pop: "good q \<Longrightarrow> \<not> is_empty q \<Longrightarrow> elems q = add_mset (top q) (elems (pop q))"
    and top_least: "good q \<Longrightarrow> x \<in># elems q \<Longrightarrow> top q \<le> x"
    and good_push: "good q \<Longrightarrow> good (push x q)"
    and good_pop: "good q \<Longrightarrow> \<not> is_empty q \<Longrightarrow> good (pop q)"
begin

lemma top_in: "good q \<Longrightarrow> \<not> is_empty q \<Longrightarrow> top q \<in># elems q"
  by (subst elems_pop) simp_all

lemma pop_in: "good q \<Longrightarrow> \<not> is_empty q \<Longrightarrow> x \<in># elems (pop q) \<Longrightarrow> x \<in># elems q"
  by (subst elems_pop) simp_all

lemma in_pop: "good q \<Longrightarrow> \<not> is_empty q \<Longrightarrow> x \<in># elems q \<Longrightarrow> x \<noteq> top q \<Longrightarrow> x \<in># elems (pop q)"
  using elems_pop [of q] by auto

lemma push_in [simp]: "good q \<Longrightarrow> x \<in># elems (push y q) \<longleftrightarrow> x = y \<or> x \<in># elems q"
  by (simp add: elems_push)

lemma size_pop: "good q \<Longrightarrow> \<not> is_empty q \<Longrightarrow> size (elems q) = Suc (size (elems (pop q)))"
  by (subst elems_pop) simp_all

text \<open>What remains after a pop is no smaller than what was popped.\<close>

lemma pop_ge_top: "good q \<Longrightarrow> \<not> is_empty q \<Longrightarrow> x \<in># elems (pop q) \<Longrightarrow> top q \<le> x"
  by (blast intro: top_least pop_in)

end

type_synonym pair_t = "int \<times> int"

definition pq_push :: "pair_t \<Rightarrow> pair_t list \<Rightarrow> pair_t list" where
  "pq_push x q = insort x q"

definition pq_top :: "pair_t list \<Rightarrow> pair_t" where
  "pq_top q = hd q"

definition pq_pop :: "pair_t list \<Rightarrow> pair_t list" where
  "pq_pop q = tl q"

definition pq_empty :: "pair_t list \<Rightarrow> bool" where
  "pq_empty q \<longleftrightarrow> q = []"

interpretation pq: min_queue pq_push pq_top pq_pop pq_empty mset sorted
proof unfold_locales
  fix q :: "pair_t list" and x
  assume "sorted q" and "x \<in># mset q"
  then show "pq_top q \<le> x" by (cases q) (auto simp: pq_top_def)
next
  fix q :: "pair_t list"
  assume "sorted q" and "\<not> pq_empty q"
  then show "mset q = add_mset (pq_top q) (mset (pq_pop q))" "sorted (pq_pop q)"
    by (cases q; simp add: pq_top_def pq_pop_def pq_empty_def)+
qed (simp_all add: pq_push_def pq_empty_def sorted_insort)

end
