(* ===== verification/Path_Graph.thy ===== *)
theory Path_Graph
  imports Path_Queue
begin

text \<open>
  The weighted graph of \<^verbatim>\<open>pathserver/graph.h\<close> and \<^verbatim>\<open>pathserver/graph.cpp\<close>: an array of adjacency
  lists to which \<open>AddEdge\<close> adds both directions of an edge, and the walks of such a graph.
  An index outside the array is undefined in C++ and \<^const>\<open>None\<close> here.
\<close>

record graph =
  m_size :: int
  m_edges :: "(int \<times> int) list list"

definition new_graph :: "int \<Rightarrow> graph option" where
  "new_graph sz =
     (if 0 \<le> sz then Some \<lparr>m_size = sz, m_edges = replicate (nat sz) []\<rparr> else None)"

definition index_ok :: "int \<Rightarrow> 'a list \<Rightarrow> bool" where
  "index_ok i xs \<longleftrightarrow> 0 \<le> i \<and> nat i < length xs"

definition push_edge :: "graph \<Rightarrow> int \<Rightarrow> int \<times> int \<Rightarrow> graph option" where
  "push_edge g u e =
     (if index_ok u (m_edges g)
      then Some (g\<lparr>m_edges := (m_edges g)[nat u := m_edges g ! nat u @ [e]]\<rparr>)
      else None)"

definition AddEdge :: "graph \<Rightarrow> int \<Rightarrow> int \<Rightarrow> int \<Rightarrow> graph option" where
  "AddEdge g u v w = Option.bind (push_edge g u (v, w)) (\<lambda>g'. push_edge g' v (u, w))"

fun AddEdges :: "graph \<Rightarrow> (int \<times> int \<times> int) list \<Rightarrow> graph option" where
  "AddEdges g [] = Some g"
| "AddEdges g ((u, v, w) # es) = Option.bind (AddEdge g u v w) (\<lambda>g'. AddEdges g' es)"

section \<open>Edges and walks\<close>

definition edge :: "graph \<Rightarrow> int \<Rightarrow> int \<Rightarrow> int \<Rightarrow> bool" where
  "edge g u v w \<longleftrightarrow> index_ok u (m_edges g) \<and> (v, w) \<in> set (m_edges g ! nat u)"

text \<open>\<open>walk g s vs v k\<close>: from \<open>s\<close> through the vertices \<open>vs\<close> to \<open>v\<close>, of total weight \<open>k\<close>.\<close>

inductive walk :: "graph \<Rightarrow> int \<Rightarrow> int list \<Rightarrow> int \<Rightarrow> int \<Rightarrow> bool" for g s where
  stay: "walk g s [] s 0"
| step: "walk g s vs u k \<Longrightarrow> edge g u v w \<Longrightarrow> walk g s (vs @ [u]) v (k + w)"

inductive_cases walk_NilE: "walk g s [] v k"

text \<open>
  A graph the search can run on without overflow: every edge leads to a vertex, and no weight is
  negative or so large that adding it to a distance below \<^verbatim>\<open>INF\<close> leaves the range of \<^verbatim>\<open>int\<close>.
\<close>

definition INF_DIST :: int where
  "INF_DIST = 2016062613"

definition INT_MAX :: int where
  "INT_MAX = 2147483647"

definition graph_ok :: "graph \<Rightarrow> bool" where
  "graph_ok g \<longleftrightarrow> m_size g = int (length (m_edges g)) \<and> m_size g \<le> INF_DIST \<and>
     (\<forall>es \<in> set (m_edges g). \<forall>(v, w) \<in> set es. index_ok v (m_edges g) \<and> 0 \<le> w \<and> INF_DIST + w \<le> INT_MAX)"

lemma index_ok_same_length: "length xs = length ys \<Longrightarrow> index_ok i xs = index_ok i ys"
  by (simp add: index_ok_def)

lemma graph_ok_edge:
  assumes "graph_ok g" and "edge g u v w"
  shows "index_ok u (m_edges g)" and "index_ok v (m_edges g)" and "0 \<le> w" and "INF_DIST + w \<le> INT_MAX"
proof -
  have "m_edges g ! nat u \<in> set (m_edges g)" "(v, w) \<in> set (m_edges g ! nat u)"
    using assms(2) by (auto simp: edge_def index_ok_def)
  then show "index_ok v (m_edges g)" "0 \<le> w" "INF_DIST + w \<le> INT_MAX"
    using assms(1) by (fastforce simp: graph_ok_def)+
  show "index_ok u (m_edges g)" using assms(2) by (simp add: edge_def)
qed

lemma walk_index:
  "walk g s vs v k \<Longrightarrow> graph_ok g \<Longrightarrow> index_ok s (m_edges g) \<Longrightarrow> index_ok v (m_edges g) \<and> 0 \<le> k"
  by (induction rule: walk.induct) (auto dest: graph_ok_edge(2,3))

lemma new_graph_ok:
  "0 \<le> sz \<Longrightarrow> sz \<le> INF_DIST \<Longrightarrow> \<exists>g. new_graph sz = Some g \<and> graph_ok g \<and> (\<forall>u v w. \<not> edge g u v w)"
  by (auto simp: new_graph_def graph_ok_def edge_def index_ok_def)

lemma edge_push_edge:
  assumes "push_edge g u (v, w) = Some g'"
  shows "edge g' a b c \<longleftrightarrow> edge g a b c \<or> (a, b, c) = (u, v, w)"
  using assms
  by (auto simp: push_edge_def edge_def index_ok_def nth_list_update eq_nat_nat_iff split: if_splits)

lemma push_edge_ok:
  assumes "graph_ok g" and "index_ok u (m_edges g)" and "index_ok v (m_edges g)"
    and "0 \<le> w" and "INF_DIST + w \<le> INT_MAX"
  obtains g' where "push_edge g u (v, w) = Some g'" and "graph_ok g'"
    and "length (m_edges g') = length (m_edges g)"
proof -
  let ?es = "(m_edges g)[nat u := m_edges g ! nat u @ [(v, w)]]"
  have "\<forall>(x, y)\<in>set es. index_ok x ?es \<and> 0 \<le> y \<and> INF_DIST + y \<le> INT_MAX"
    if "es \<in> set ?es" for es
  proof -
    from that consider "es \<in> set (m_edges g)" | "es = m_edges g ! nat u @ [(v, w)]"
      by (auto dest: set_update_subset_insert [THEN subsetD])
    then show ?thesis
      using assms by cases (fastforce simp: graph_ok_def index_ok_def)+
  qed
  then have "graph_ok (g\<lparr>m_edges := ?es\<rparr>)" using assms(1) by (simp add: graph_ok_def)
  with assms(2) show thesis by (intro that [of "g\<lparr>m_edges := ?es\<rparr>"]) (simp_all add: push_edge_def)
qed

lemma AddEdge_both:
  assumes "graph_ok g" and "index_ok u (m_edges g)" and "index_ok v (m_edges g)"
    and "0 \<le> w" and "INF_DIST + w \<le> INT_MAX"
  shows "\<exists>g'. AddEdge g u v w = Some g' \<and> graph_ok g' \<and> m_size g' = m_size g \<and>
    (\<forall>a b c. edge g' a b c \<longleftrightarrow> edge g a b c \<or> (a, b, c) = (u, v, w) \<or> (a, b, c) = (v, u, w))"
proof -
  obtain g1 where g1: "push_edge g u (v, w) = Some g1" "graph_ok g1"
      "length (m_edges g1) = length (m_edges g)"
    using assms by (rule push_edge_ok)
  have "index_ok u (m_edges g1)" "index_ok v (m_edges g1)"
    using assms(2,3) index_ok_same_length [OF g1(3)] by simp_all
  then obtain g2 where g2: "push_edge g1 v (u, w) = Some g2" "graph_ok g2"
      "length (m_edges g2) = length (m_edges g1)"
    using push_edge_ok [OF g1(2) _ _ assms(4,5)] by metis
  have "m_size g2 = m_size g" using assms(1) g1 g2 by (simp add: graph_ok_def)
  with g1 g2 edge_push_edge [OF g1(1)] edge_push_edge [OF g2(1)] show ?thesis
    by (auto simp: AddEdge_def)
qed

text \<open>
  Building a graph. \<open>AddEdge\<close> between two vertices of a well-formed graph, with a weight in
  range, succeeds, keeps the graph well formed, and adds exactly the two directed edges, so the
  graph stays undirected and keeps its edges.
\<close>

theorem AddEdge_undirected:
  assumes "graph_ok g" and "index_ok u (m_edges g)" and "index_ok v (m_edges g)"
    and "0 \<le> w" and "INF_DIST + w \<le> INT_MAX" and "\<forall>a b c. edge g a b c = edge g b a c"
  shows "\<exists>g'. AddEdge g u v w = Some g' \<and> graph_ok g' \<and>
    (\<forall>a b c. edge g' a b c \<longleftrightarrow> edge g a b c \<or> (a, b, c) = (u, v, w) \<or> (a, b, c) = (v, u, w)) \<and>
    (\<forall>a b c. edge g' a b c = edge g' b a c)"
  using AddEdge_both [OF assms(1-5)] assms(6) by auto

theorem AddEdge_undirected_witness:
  "\<exists>g'. AddEdge \<lparr>m_size = 2, m_edges = [[], []]\<rparr> 0 1 4 = Some g' \<and> graph_ok g' \<and> edge g' 1 0 4"
proof -
  have g: "graph_ok \<lparr>m_size = 2, m_edges = [[], []]\<rparr>" by (simp add: graph_ok_def INF_DIST_def)
  have e: "\<not> edge \<lparr>m_size = 2, m_edges = [[], []]\<rparr> a b c" for a b c
    by (auto simp: edge_def index_ok_def less_Suc_eq)
  show ?thesis
    using AddEdge_undirected [OF g, of 0 1 4] e by (auto simp: index_ok_def INF_DIST_def INT_MAX_def)
qed

end
