(* ===== verification/Dijkstra.thy ===== *)
theory Dijkstra
  imports Path_Graph
begin

text \<open>
  The shortest path search of \<^verbatim>\<open>pathserver/dijkstra.cpp\<close>: \<open>ShortPath\<close>, which prints the
  distances from a source, and \<open>GetPath\<close>, which also records predecessors and prints the way to a
  destination. The \<^verbatim>\<open>int\<close> values are \<^typ>\<open>int\<close> with the signed range checked where the code
  adds; leaving it, or indexing outside an array, is undefined in C++ and \<^const>\<open>None\<close> here.
  The loops are \<^theory_text>\<open>partial_function\<close>s, so not returning is \<^const>\<open>None\<close> as well. A printed
  table row is the pair of vertex and distance.
\<close>

section \<open>The code\<close>

definition elem_at :: "'a list \<Rightarrow> int \<Rightarrow> 'a option" where
  "elem_at xs i = (if index_ok i xs then Some (xs ! nat i) else None)"

definition int_add :: "int \<Rightarrow> int \<Rightarrow> int option" where
  "int_add a b = (if - INT_MAX - 1 \<le> a + b \<and> a + b \<le> INT_MAX then Some (a + b) else None)"

definition table :: "int list \<Rightarrow> (nat \<times> int) list" where
  "table ds = map (\<lambda>i. (i, ds ! i)) [0..<length ds]"

text \<open>The state of \<open>GetPath\<close>'s search.\<close>

record search =
  dist :: "int list"
  path :: "int list"
  prio_queue :: "pair_t list"

fun relax_path :: "int \<Rightarrow> int \<times> int \<Rightarrow> search \<Rightarrow> search option" where
  "relax_path u (v, w) s = do {
     dv \<leftarrow> elem_at (dist s) v;
     du \<leftarrow> elem_at (dist s) u;
     t \<leftarrow> int_add du w;
     if dv > t
     then Some (s\<lparr>dist := (dist s)[nat v := t], path := (path s)[nat v := u],
                  prio_queue := pq_push (t, v) (prio_queue s)\<rparr>)
     else Some s }"

fun relax_path_all :: "int \<Rightarrow> (int \<times> int) list \<Rightarrow> search \<Rightarrow> search option" where
  "relax_path_all u [] s = Some s"
| "relax_path_all u (e # es) s = Option.bind (relax_path u e s) (relax_path_all u es)"

partial_function (option) search_path :: "graph \<Rightarrow> search \<Rightarrow> search option" where
  "search_path g s =
     (if pq_empty (prio_queue s) then Some s
      else let u = snd (pq_top (prio_queue s)) in
        Option.bind (elem_at (m_edges g) u) (\<lambda>es.
        Option.bind (relax_path_all u es (s\<lparr>prio_queue := pq_pop (prio_queue s)\<rparr>))
          (search_path g)))"

definition path_start :: "graph \<Rightarrow> int \<Rightarrow> search option" where
  "path_start g src =
     (let d = replicate (nat (m_size g)) INF_DIST in
      if index_ok src d
      then Some \<lparr>dist = d[nat src := 0], path = replicate (nat (m_size g)) INF_DIST,
                 prio_queue = pq_push (0, src) []\<rparr>
      else None)"

text \<open>
  The two loops that print the way: predecessors are pushed on a stack from the destination
  back, then popped; the stack is the list \<open>acc\<close> with its top first.
\<close>

partial_function (option) trace_back :: "int list \<Rightarrow> int \<Rightarrow> int list \<Rightarrow> int list option" where
  "trace_back p index acc =
     Option.bind (elem_at p index)
       (\<lambda>x. if x \<noteq> INF_DIST then trace_back p x (x # acc) else Some acc)"

definition GetPath :: "graph \<Rightarrow> int \<Rightarrow> int \<Rightarrow> ((nat \<times> int) list \<times> int list) option" where
  "GetPath g src des = do {
     s0 \<leftarrow> path_start g src;
     s \<leftarrow> search_path g s0;
     way \<leftarrow> trace_back (path s) des [];
     Some (table (dist s), way) }"

text \<open>\<open>ShortPath\<close>'s own copy of the search, without predecessors.\<close>

record short_search =
  s_dist :: "int list"
  s_queue :: "pair_t list"

fun relax_short :: "int \<Rightarrow> int \<times> int \<Rightarrow> short_search \<Rightarrow> short_search option" where
  "relax_short u (v, w) s = do {
     dv \<leftarrow> elem_at (s_dist s) v;
     du \<leftarrow> elem_at (s_dist s) u;
     t \<leftarrow> int_add du w;
     if dv > t
     then Some \<lparr>s_dist = (s_dist s)[nat v := t], s_queue = pq_push (t, v) (s_queue s)\<rparr>
     else Some s }"

fun relax_short_all :: "int \<Rightarrow> (int \<times> int) list \<Rightarrow> short_search \<Rightarrow> short_search option" where
  "relax_short_all u [] s = Some s"
| "relax_short_all u (e # es) s = Option.bind (relax_short u e s) (relax_short_all u es)"

partial_function (option) search_short :: "graph \<Rightarrow> short_search \<Rightarrow> short_search option" where
  "search_short g s =
     (if pq_empty (s_queue s) then Some s
      else let u = snd (pq_top (s_queue s)) in
        Option.bind (elem_at (m_edges g) u) (\<lambda>es.
        Option.bind (relax_short_all u es (s\<lparr>s_queue := pq_pop (s_queue s)\<rparr>))
          (search_short g)))"

definition ShortPath :: "graph \<Rightarrow> int \<Rightarrow> (nat \<times> int) list option" where
  "ShortPath g src =
     (let d = replicate (nat (m_size g)) INF_DIST in
      if index_ok src d
      then map_option (\<lambda>s. table (s_dist s))
             (search_short g \<lparr>s_dist = d[nat src := 0], s_queue = pq_push (0, src) []\<rparr>)
      else None)"

declare search_path.simps [code] search_short.simps [code] trace_back.simps [code]

section \<open>The invariant of the search\<close>

definition dof :: "search \<Rightarrow> int \<Rightarrow> int" where
  "dof s v = dist s ! nat v"

definition pof :: "search \<Rightarrow> int \<Rightarrow> int" where
  "pof s v = path s ! nat v"

abbreviation vertex :: "graph \<Rightarrow> int \<Rightarrow> bool" where
  "vertex g v \<equiv> index_ok v (m_edges g)"

definition shape_ok :: "graph \<Rightarrow> search \<Rightarrow> bool" where
  "shape_ok g s \<longleftrightarrow> length (dist s) = length (m_edges g) \<and> length (path s) = length (m_edges g) \<and>
     sorted (prio_queue s) \<and> (\<forall>(d, u) \<in> set (prio_queue s). vertex g u \<and> dof s u < INF_DIST)"

text \<open>Every finite distance is the weight of a walk from the source.\<close>

definition sound :: "graph \<Rightarrow> int \<Rightarrow> search \<Rightarrow> bool" where
  "sound g src s \<longleftrightarrow> dof s src = 0 \<and> (\<forall>v. vertex g v \<longrightarrow> 0 \<le> dof s v \<and> dof s v \<le> INF_DIST \<and>
     (dof s v < INF_DIST \<longrightarrow> (\<exists>vs. walk g src vs v (dof s v))))"

text \<open>A vertex is settled when none of its edges can be relaxed any more.\<close>

definition settled :: "graph \<Rightarrow> search \<Rightarrow> int \<Rightarrow> bool" where
  "settled g s y \<longleftrightarrow> (\<forall>v w. edge g y v w \<longrightarrow> dof s v \<le> dof s y + w)"

definition waiting :: "search \<Rightarrow> int \<Rightarrow> bool" where
  "waiting s y \<longleftrightarrow> (dof s y, y) \<in> set (prio_queue s)"

text \<open>The predecessors form a tree whose edges are edges of the graph.\<close>

definition preds :: "graph \<Rightarrow> search \<Rightarrow> (int \<times> int) set" where
  "preds g s = {(pof s v, v) | v. vertex g v \<and> pof s v \<noteq> INF_DIST}"

definition tree_ok :: "graph \<Rightarrow> int \<Rightarrow> search \<Rightarrow> bool" where
  "tree_ok g src s \<longleftrightarrow> acyclic (preds g s) \<and> pof s src = INF_DIST \<and>
     (\<forall>v. vertex g v \<longrightarrow>
        (pof s v \<noteq> INF_DIST \<longrightarrow> dof s v < INF_DIST \<and>
           (\<exists>w. edge g (pof s v) v w \<and> dof s (pof s v) + w \<le> dof s v)) \<and>
        (v \<noteq> src \<and> dof s v < INF_DIST \<longrightarrow> pof s v \<noteq> INF_DIST))"

text \<open>
  The invariant while the edges of \<open>u\<close> are being relaxed, those in \<open>fin\<close> already: every other
  vertex with a finite distance is waiting in the queue or settled.
\<close>

definition relaxing :: "graph \<Rightarrow> int \<Rightarrow> int \<Rightarrow> (int \<times> int) set \<Rightarrow> search \<Rightarrow> bool" where
  "relaxing g src u fin s \<longleftrightarrow> shape_ok g s \<and> sound g src s \<and> tree_ok g src s \<and>
     vertex g u \<and> dof s u < INF_DIST \<and> (\<forall>(v, w) \<in> fin. dof s v \<le> dof s u + w) \<and>
     (\<forall>y. vertex g y \<and> dof s y < INF_DIST \<and> y \<noteq> u \<longrightarrow> waiting s y \<or> settled g s y)"

definition search_inv :: "graph \<Rightarrow> int \<Rightarrow> search \<Rightarrow> bool" where
  "search_inv g src s \<longleftrightarrow> shape_ok g s \<and> sound g src s \<and> tree_ok g src s \<and>
     (\<forall>y. vertex g y \<and> dof s y < INF_DIST \<longrightarrow> waiting s y \<or> settled g s y)"

section \<open>One relaxation\<close>

definition lower :: "int \<Rightarrow> int \<Rightarrow> int \<Rightarrow> search \<Rightarrow> search" where
  "lower u v t s = s\<lparr>dist := (dist s)[nat v := t], path := (path s)[nat v := u],
                     prio_queue := pq_push (t, v) (prio_queue s)\<rparr>"

lemma dof_lower:
  "length (dist s) = length (m_edges g) \<Longrightarrow> vertex g v \<Longrightarrow> vertex g x \<Longrightarrow>
   dof (lower u v t s) x = (if x = v then t else dof s x)"
  by (auto simp: dof_def lower_def index_ok_def nth_list_update eq_nat_nat_iff)

lemma pof_lower:
  "length (path s) = length (m_edges g) \<Longrightarrow> vertex g v \<Longrightarrow> vertex g x \<Longrightarrow>
   pof (lower u v t s) x = (if x = v then u else pof s x)"
  by (auto simp: pof_def lower_def index_ok_def nth_list_update eq_nat_nat_iff)

lemma relaxing_edge:
  assumes g: "graph_ok g" and rel: "relaxing g src u fin s" and e: "edge g u v w"
  shows "vertex g v" and "0 \<le> w" and "0 \<le> dof s u" and "dof s u < INF_DIST"
    and "length (dist s) = length (m_edges g)" and "length (path s) = length (m_edges g)"
    and "sorted (prio_queue s)" and "vertex g u"
  using graph_ok_edge [OF g e] rel by (auto simp: relaxing_def shape_ok_def sound_def)

lemma relax_path_step:
  assumes g: "graph_ok g" and rel: "relaxing g src u fin s" and e: "edge g u v w"
  shows "relax_path u (v, w) s =
    Some (if dof s v > dof s u + w then lower u v (dof s u + w) s else s)"
proof -
  note f = relaxing_edge [OF assms]
  have "elem_at (dist s) v = Some (dof s v)" "elem_at (dist s) u = Some (dof s u)"
    using f by (simp_all add: elem_at_def dof_def index_ok_def)
  moreover have "int_add (dof s u) w = Some (dof s u + w)"
    using f graph_ok_edge(4) [OF g e] by (auto simp: int_add_def INT_MAX_def)
  ultimately show ?thesis by (simp add: lower_def)
qed

text \<open>A relaxation never touches the vertex whose edges are being relaxed.\<close>

lemma lower_other: "graph_ok g \<Longrightarrow> relaxing g src u fin s \<Longrightarrow> edge g u v w \<Longrightarrow>
  dof s u + w < dof s v \<Longrightarrow> v \<noteq> u"
  using graph_ok_edge(3) by force

lemma shape_ok_lower:
  assumes g: "graph_ok g" and rel: "relaxing g src u fin s" and e: "edge g u v w"
    and lt: "dof s u + w < dof s v"
  shows "shape_ok g (lower u v (dof s u + w) s)"
proof -
  note f = relaxing_edge [OF g rel e]
  have v: "dof s v \<le> INF_DIST" using rel f(1) by (simp add: relaxing_def sound_def)
  have q: "prio_queue (lower u v (dof s u + w) s) = pq_push (dof s u + w, v) (prio_queue s)"
    by (simp add: lower_def)
  have "vertex g y \<and> dof (lower u v (dof s u + w) s) y < INF_DIST"
    if "(d, y) \<in> set (prio_queue (lower u v (dof s u + w) s))" for d y
  proof -
    from that f(7) have "(d, y) = (dof s u + w, v) \<or> (d, y) \<in> set (prio_queue s)"
      using pq.push_in [of "prio_queue s"] by (simp add: q)
    then show ?thesis
      using rel f v lt by (auto simp: relaxing_def shape_ok_def dof_lower)
  qed
  moreover have "sorted (prio_queue (lower u v (dof s u + w) s))"
    unfolding q using f(7) by (rule pq.good_push)
  ultimately show ?thesis using f(5,6) by (auto simp: shape_ok_def lower_def)
qed

lemma sound_lower:
  assumes g: "graph_ok g" and src: "vertex g src" and rel: "relaxing g src u fin s" and e: "edge g u v w"
    and lt: "dof s u + w < dof s v"
  shows "sound g src (lower u v (dof s u + w) s)"
proof -
  note f = relaxing_edge [OF g rel e]
  have snd: "sound g src s" using rel by (simp add: relaxing_def)
  obtain vs where "walk g src vs u (dof s u)" using snd f(4,8) by (auto simp: sound_def)
  then have "walk g src (vs @ [u]) v (dof s u + w)" using e by (rule walk.step)
  moreover have "dof s v \<le> INF_DIST" using snd f(1) by (simp add: sound_def)
  moreover have "v \<noteq> src" using snd f lt by (auto simp: sound_def)
  ultimately show ?thesis
    using snd src lt f unfolding sound_def by (auto simp: dof_lower)
qed

text \<open>Along predecessors the distance does not grow, so no new edge can close a cycle.\<close>

lemma preds_mono:
  assumes g: "graph_ok g" and "tree_ok g src s" and "(a, b) \<in> (preds g s)\<^sup>*"
  shows "dof s a \<le> dof s b"
  using assms(3)
proof (induction rule: rtrancl_induct)
  case (step b c)
  then obtain w where "edge g b c w" "dof s b + w \<le> dof s c"
    using assms(2) by (auto simp: preds_def tree_ok_def)
  with graph_ok_edge(3) [OF g] step.IH show ?case by fastforce
qed simp

lemma tree_ok_lower:
  assumes g: "graph_ok g" and src: "vertex g src" and rel: "relaxing g src u fin s" and e: "edge g u v w"
    and lt: "dof s u + w < dof s v"
  shows "tree_ok g src (lower u v (dof s u + w) s)"
proof -
  let ?s = "lower u v (dof s u + w) s"
  note f = relaxing_edge [OF g rel e]
  have tree: "tree_ok g src s" and snd: "sound g src s" using rel by (simp_all add: relaxing_def)
  note d = dof_lower [OF f(5) f(1)] and p = pof_lower [OF f(6) f(1)]
  have v: "v \<noteq> src" "v \<noteq> u" "dof s v \<le> INF_DIST" using snd f lt by (auto simp: sound_def)
  have "u < int (length (m_edges g))" using f(8) by (auto simp: index_ok_def)
  then have u: "u \<noteq> INF_DIST" using g by (simp add: graph_ok_def)
  have "preds g ?s \<subseteq> insert (u, v) (preds g s)" using p by (auto simp: preds_def split: if_splits)
  moreover have "(v, u) \<notin> (preds g s)\<^sup>*"
    using preds_mono [OF g tree, of v u] lt f(2) by linarith
  then have "acyclic (insert (u, v) (preds g s))" using tree by (simp add: acyclic_insert tree_ok_def)
  ultimately have "acyclic (preds g ?s)" by (blast intro: acyclic_subset)
  moreover have "pof ?s src = INF_DIST" using tree v src p by (simp add: tree_ok_def)
  moreover have "dof ?s x < INF_DIST \<and> (\<exists>w. edge g (pof ?s x) x w \<and> dof ?s (pof ?s x) + w \<le> dof ?s x)"
    if x: "vertex g x" and px: "pof ?s x \<noteq> INF_DIST" for x
  proof (cases "x = v")
    case True
    with e v lt f show ?thesis by (auto simp: p d)
  next
    case False
    with x px tree obtain w' where w': "dof s x < INF_DIST" "edge g (pof s x) x w'"
        "dof s (pof s x) + w' \<le> dof s x"
      by (auto simp: p tree_ok_def)
    have "vertex g (pof s x)" using w'(2) by (simp add: edge_def)
    then have "dof ?s (pof s x) \<le> dof s (pof s x)" using lt by (simp add: d)
    with w' False x show ?thesis by (auto simp: p d intro!: exI [of _ w'])
  qed
  moreover have "pof ?s x \<noteq> INF_DIST" if "vertex g x" "x \<noteq> src" "dof ?s x < INF_DIST" for x
    using that tree u by (auto simp: p d tree_ok_def split: if_splits)
  ultimately show ?thesis by (auto simp: tree_ok_def)
qed

text \<open>What decreases: the sum of the distances at every relaxation.\<close>

definition cost :: "search \<Rightarrow> nat" where
  "cost s = sum_list (map nat (dist s))"

lemma cost_lower:
  assumes "index_ok v (dist s)" and "0 \<le> t" and "t < dof s v"
  shows "cost (lower u v t s) < cost s"
proof -
  let ?ns = "map nat (dist s)"
  have v: "nat v < length ?ns" using assms(1) by (simp add: index_ok_def)
  have "?ns ! nat v \<le> sum_list ?ns" using v by (rule elem_le_sum_list)
  moreover have "?ns ! nat v = nat (dof s v)" using v by (simp add: dof_def)
  moreover have "cost (lower u v t s) = sum_list ?ns + nat t - ?ns ! nat v"
    using v by (simp add: cost_def lower_def map_update sum_list_update)
  ultimately show ?thesis using assms(2,3) by (simp add: cost_def)
qed

lemma relaxing_lower:
  assumes g: "graph_ok g" and src: "vertex g src" and rel: "relaxing g src u fin s" and e: "edge g u v w"
    and fin: "\<And>a b. (a, b) \<in> fin \<Longrightarrow> edge g u a b" and lt: "dof s u + w < dof s v"
  shows "relaxing g src u (insert (v, w) fin) (lower u v (dof s u + w) s)"
proof -
  let ?s = "lower u v (dof s u + w) s"
  note f = relaxing_edge [OF g rel e]
  note d = dof_lower [OF f(5) f(1)]
  have vu: "v \<noteq> u" by (rule lower_other [OF g rel e lt])
  have "dof ?s a \<le> dof ?s u + b" if "(a, b) \<in> insert (v, w) fin" for a b
  proof -
    have "edge g u a b" using that fin e by auto
    then have "vertex g a" by (rule graph_ok_edge(2) [OF g])
    with that rel lt vu f show ?thesis by (auto simp: d relaxing_def)
  qed
  moreover have "waiting ?s y \<or> settled g ?s y"
    if y: "vertex g y" "dof ?s y < INF_DIST" "y \<noteq> u" for y
  proof (cases "y = v")
    case True
    then show ?thesis
      using f(7) f(1) pq.push_in [of "prio_queue s"] by (simp add: waiting_def d) (simp add: lower_def)
  next
    case False
    with y rel have "waiting s y \<or> settled g s y" by (auto simp: relaxing_def d)
    then show ?thesis
    proof
      assume "waiting s y"
      then show ?thesis using False y(1) f(7) pq.push_in [of "prio_queue s"]
        by (simp add: waiting_def d) (simp add: lower_def)
    next
      assume st: "settled g s y"
      have "dof ?s x \<le> dof ?s y + b" if xb: "edge g y x b" for x b
      proof -
        have "dof s x \<le> dof s y + b" using st xb by (simp add: settled_def)
        moreover have "dof ?s x \<le> dof s x" using graph_ok_edge(2) [OF g xb] lt by (simp add: d)
        ultimately show ?thesis using False y(1) by (simp add: d)
      qed
      then show ?thesis by (simp add: settled_def)
    qed
  qed
  moreover have "shape_ok g ?s" "sound g src ?s" "tree_ok g src ?s"
    using shape_ok_lower [OF g rel e lt] sound_lower [OF g src rel e lt] tree_ok_lower [OF g src rel e lt]
    by simp_all
  moreover have "dof ?s u < INF_DIST" using f vu by (simp add: d)
  ultimately show ?thesis using f(8) unfolding relaxing_def by blast
qed

lemma relaxing_step:
  assumes g: "graph_ok g" and src: "vertex g src" and rel: "relaxing g src u fin s" and e: "edge g u v w"
    and fin: "\<And>a b. (a, b) \<in> fin \<Longrightarrow> edge g u a b"
  shows "\<exists>s'. relax_path u (v, w) s = Some s' \<and> relaxing g src u (insert (v, w) fin) s' \<and>
              (s' = s \<or> cost s' < cost s)"
proof (cases "dof s u + w < dof s v")
  case True
  note f = relaxing_edge [OF g rel e]
  have "cost (lower u v (dof s u + w) s) < cost s"
    using f True by (intro cost_lower) (simp_all add: index_ok_def)
  with True relaxing_lower [OF assms True] show ?thesis
    by (simp add: relax_path_step [OF g rel e] del: relax_path.simps)
next
  case False
  with rel show ?thesis
    by (auto simp: relax_path_step [OF g rel e] relaxing_def simp del: relax_path.simps)
qed

lemma relaxing_all:
  assumes g: "graph_ok g" and src: "vertex g src"
  shows "relaxing g src u fin s \<Longrightarrow> (\<And>a b. (a, b) \<in> fin \<union> set es \<Longrightarrow> edge g u a b) \<Longrightarrow>
    \<exists>s'. relax_path_all u es s = Some s' \<and> relaxing g src u (fin \<union> set es) s' \<and>
         (s' = s \<or> cost s' < cost s)"
proof (induction es arbitrary: fin s)
  case (Cons e es)
  obtain v w where vw: "e = (v, w)" by (cases e)
  obtain s1 where s1: "relax_path u (v, w) s = Some s1" "relaxing g src u (insert (v, w) fin) s1"
      "s1 = s \<or> cost s1 < cost s"
    using relaxing_step [OF g src Cons.prems(1), of v w] Cons.prems(2) vw by (auto simp del: relax_path.simps)
  obtain s2 where "relax_path_all u es s1 = Some s2"
      "relaxing g src u (insert (v, w) fin \<union> set es) s2" "s2 = s1 \<or> cost s2 < cost s1"
    using Cons.IH [OF s1(2)] Cons.prems(2) vw by auto
  with s1 show ?case by (auto simp: vw simp del: relax_path.simps)
qed simp

section \<open>The loop\<close>

lemma relaxing_settled:
  assumes "relaxing g src u (set (m_edges g ! nat u)) s"
  shows "search_inv g src s"
proof -
  have "settled g s u" using assms by (auto simp: relaxing_def settled_def edge_def)
  with assms show ?thesis unfolding relaxing_def search_inv_def by blast
qed

text \<open>One turn: pop the top and relax its edges.\<close>

lemma search_turn:
  assumes g: "graph_ok g" and src: "vertex g src" and inv: "search_inv g src s"
    and ne: "\<not> pq_empty (prio_queue s)"
  defines "u \<equiv> snd (pq_top (prio_queue s))"
  defines "s1 \<equiv> s\<lparr>prio_queue := pq_pop (prio_queue s)\<rparr>"
  shows "\<exists>s2. elem_at (m_edges g) u = Some (m_edges g ! nat u) \<and>
    relax_path_all u (m_edges g ! nat u) s1 = Some s2 \<and> search_inv g src s2 \<and>
    (cost s2 < cost s \<or> s2 = s1)"
proof -
  have sorted: "sorted (prio_queue s)" using inv by (simp add: search_inv_def shape_ok_def)
  obtain d where top: "pq_top (prio_queue s) = (d, u)" by (cases "pq_top (prio_queue s)") (simp add: u_def)
  have "(d, u) \<in> set (prio_queue s)" using pq.top_in [OF sorted ne] top by simp
  then have u: "vertex g u" "dof s u < INF_DIST" using inv by (auto simp: search_inv_def shape_ok_def)
  have same: "dof s1 = dof s" "pof s1 = pof s" "preds g s1 = preds g s"
    by (auto simp: fun_eq_iff dof_def pof_def preds_def s1_def)
  have "waiting s1 y" if "waiting s y" "y \<noteq> u" for y
    using that pq.in_pop [OF sorted ne, of "(dof s y, y)"] top
    by (simp add: waiting_def same) (simp add: s1_def)
  moreover have "settled g s1 y" if "settled g s y" for y using that by (simp add: settled_def same)
  moreover have "sound g src s1 = sound g src s" "tree_ok g src s1 = tree_ok g src s"
    by (simp_all only: sound_def tree_ok_def same)
  then have "sound g src s1" "tree_ok g src s1" using inv by (simp_all add: search_inv_def)
  moreover have "shape_ok g s1"
  proof -
    have proj: "prio_queue s1 = pq_pop (prio_queue s)" "dist s1 = dist s" "path s1 = path s"
      by (simp_all add: s1_def)
    have old: "\<forall>(d, y) \<in> set (prio_queue s). vertex g y \<and> dof s y < INF_DIST"
      and len: "length (dist s) = length (m_edges g)" "length (path s) = length (m_edges g)"
      using inv by (simp_all add: search_inv_def shape_ok_def)
    have "vertex g y \<and> dof s y < INF_DIST" if "(d, y) \<in> set (pq_pop (prio_queue s))" for d y
      using pq.pop_in [OF sorted ne, of "(d, y)"] that old by auto
    then show ?thesis
      unfolding shape_ok_def same proj using len pq.good_pop [OF sorted ne] by auto
  qed
  ultimately have "relaxing g src u {} s1"
    using inv u unfolding relaxing_def search_inv_def same by blast
  moreover have "edge g u a b" if "(a, b) \<in> set (m_edges g ! nat u)" for a b
    using that u(1) by (simp add: edge_def)
  ultimately obtain s2 where s2: "relax_path_all u (m_edges g ! nat u) s1 = Some s2"
      "relaxing g src u (set (m_edges g ! nat u)) s2" "s2 = s1 \<or> cost s2 < cost s1"
    using relaxing_all [OF g src, of u "{}" s1 "m_edges g ! nat u"] by auto
  moreover have "cost s1 = cost s" by (simp add: cost_def s1_def)
  moreover have "elem_at (m_edges g) u = Some (m_edges g ! nat u)" using u by (simp add: elem_at_def)
  ultimately show ?thesis using relaxing_settled by metis
qed

lemma search_returns:
  assumes g: "graph_ok g" and src: "vertex g src"
  shows "search_inv g src s \<Longrightarrow>
    \<exists>s'. search_path g s = Some s' \<and> search_inv g src s' \<and> pq_empty (prio_queue s')"
proof (induction s rule: wf_induct_rule [OF wf_measures [of "[cost, \<lambda>s. length (prio_queue s)]"]])
  case (1 s)
  show ?case
  proof (cases "pq_empty (prio_queue s)")
    case True
    with "1.prems" show ?thesis by (auto simp: search_path.simps)
  next
    case False
    define u where "u = snd (pq_top (prio_queue s))"
    define s1 where "s1 = s\<lparr>prio_queue := pq_pop (prio_queue s)\<rparr>"
    obtain s2 where s2: "elem_at (m_edges g) u = Some (m_edges g ! nat u)"
        "relax_path_all u (m_edges g ! nat u) s1 = Some s2" "search_inv g src s2"
        "cost s2 < cost s \<or> s2 = s1"
      using search_turn [OF g src "1.prems" False] by (auto simp: u_def s1_def)
    have "length (prio_queue s1) < length (prio_queue s)" "cost s1 = cost s"
      using False by (simp_all add: s1_def pq_pop_def pq_empty_def cost_def)
    with s2(4) have "(s2, s) \<in> measures [cost, \<lambda>s. length (prio_queue s)]" by auto
    with "1.IH" s2(3) obtain s' where "search_path g s2 = Some s'" "search_inv g src s'"
        "pq_empty (prio_queue s')" by blast
    moreover have "search_path g s = search_path g s2"
      using False s2(1,2) by (subst search_path.simps) (simp add: u_def s1_def Let_def)
    ultimately show ?thesis by simp
  qed
qed

section \<open>What the finished search knows\<close>

lemma finished_settled:
  assumes "search_inv g src s" and "pq_empty (prio_queue s)" and "vertex g y" and "dof s y < INF_DIST"
  shows "settled g s y"
  using assms by (auto simp: search_inv_def waiting_def pq_empty_def)

lemma finished_least:
  assumes g: "graph_ok g" and src: "vertex g src" and inv: "search_inv g src s"
    and emp: "pq_empty (prio_queue s)"
  shows "walk g src vs v k \<Longrightarrow> dof s v \<le> k"
proof (induction rule: walk.induct)
  case stay
  then show ?case using inv by (simp add: search_inv_def sound_def)
next
  case (step vs u k v w)
  have u: "vertex g u" and v: "vertex g v" and w: "0 \<le> w"
    using graph_ok_edge [OF g step.hyps(2)] by simp_all
  show ?case
  proof (cases "dof s u < INF_DIST")
    case True
    then have "settled g s u" by (rule finished_settled [OF inv emp u])
    with step show ?thesis by (fastforce simp: settled_def)
  next
    case False
    then have "dof s v \<le> dof s u" using inv v by (fastforce simp: search_inv_def sound_def)
    with step.IH w show ?thesis by linarith
  qed
qed

lemma path_start_inv:
  assumes g: "graph_ok g" and src: "vertex g src"
  shows "\<exists>s. path_start g src = Some s \<and> search_inv g src s"
proof -
  define n where "n = length (m_edges g)"
  have n: "nat (m_size g) = n" using g by (simp add: graph_ok_def n_def)
  define s where "s = \<lparr>dist = (replicate n INF_DIST)[nat src := 0], path = replicate n INF_DIST,
    prio_queue = pq_push (0, src) []\<rparr>"
  have start: "path_start g src = Some s"
    using src by (simp add: path_start_def n s_def index_ok_def n_def Let_def)
  have d: "dof s v = (if v = src then 0 else INF_DIST)" if "vertex g v" for v
    using that src by (auto simp: s_def dof_def nth_list_update n_def index_ok_def eq_nat_nat_iff)
  have p: "pof s v = INF_DIST" if "vertex g v" for v
    using that by (simp add: s_def pof_def n_def index_ok_def)
  have q: "prio_queue s = [(0, src)]" by (simp add: s_def pq_push_def)
  have "shape_ok g s"
    using src by (simp add: shape_ok_def q d INF_DIST_def) (simp add: s_def n_def)
  moreover have "sound g src s"
    using src walk.stay [of g src] by (auto simp: sound_def d INF_DIST_def)
  moreover have "preds g s = {}" by (auto simp: preds_def p)
  then have "tree_ok g src s" using src by (auto simp: tree_ok_def p d acyclic_def)
  moreover have "waiting s y" if "vertex g y" "dof s y < INF_DIST" for y
    using that d src by (auto simp: waiting_def q split: if_splits)
  ultimately show ?thesis using start by (auto simp: search_inv_def)
qed

lemma search_finishes:
  assumes g: "graph_ok g" and src: "vertex g src"
  obtains s0 s where "path_start g src = Some s0" and "search_path g s0 = Some s"
    and "search_inv g src s" and "pq_empty (prio_queue s)"
  using path_start_inv [OF assms] search_returns [OF assms] by metis

text \<open>The distance of every vertex, as the printed table gives it.\<close>

definition shortest :: "graph \<Rightarrow> int \<Rightarrow> int \<Rightarrow> int \<Rightarrow> bool" where
  "shortest g src v d \<longleftrightarrow> (\<forall>vs k. walk g src vs v k \<longrightarrow> d \<le> k) \<and>
     (d = INF_DIST \<or> d < INF_DIST \<and> (\<exists>vs. walk g src vs v d))"

lemma finished_shortest:
  assumes g: "graph_ok g" and src: "vertex g src" and inv: "search_inv g src s"
    and emp: "pq_empty (prio_queue s)" and v: "vertex g v"
  shows "shortest g src v (dof s v)"
  using finished_least [OF assms(1-4)] inv v
  by (auto simp: shortest_def search_inv_def sound_def order.order_iff_strict)

lemma table_dof:
  "length (dist s) = length (m_edges g) \<Longrightarrow>
   table (dist s) = map (\<lambda>i. (i, dof s (int i))) [0..<length (m_edges g)]"
  by (simp add: table_def dof_def)

section \<open>The way back\<close>

lemma preds_wf:
  assumes "tree_ok g src s"
  shows "wf (preds g s)"
proof -
  have "preds g s \<subseteq> (\<lambda>i. (pof s (int i), int i)) ` {..<length (m_edges g)}"
  proof (clarsimp simp: preds_def index_ok_def image_iff)
    fix v :: int
    assume "0 \<le> v" and "nat v < length (m_edges g)"
    then show "\<exists>x\<in>{..<length (m_edges g)}. pof s v = pof s (int x) \<and> v = int x"
      by (intro bexI [of _ "nat v"]) simp_all
  qed
  then have "finite (preds g s)" by (rule finite_subset) simp
  with assms show ?thesis by (simp add: finite_acyclic_wf tree_ok_def)
qed

lemma finished_pred:
  assumes g: "graph_ok g" and inv: "search_inv g src s" and emp: "pq_empty (prio_queue s)"
    and v: "vertex g v" and p: "pof s v \<noteq> INF_DIST"
  obtains w where "edge g (pof s v) v w" and "dof s v = dof s (pof s v) + w"
    and "vertex g (pof s v)" and "dof s (pof s v) < INF_DIST"
proof -
  obtain w where w: "edge g (pof s v) v w" "dof s (pof s v) + w \<le> dof s v" "dof s v < INF_DIST"
    using inv v p by (auto simp: search_inv_def tree_ok_def)
  note e = graph_ok_edge [OF g w(1)]
  have lt: "dof s (pof s v) < INF_DIST" using w e(3) by linarith
  then have "settled g s (pof s v)" by (rule finished_settled [OF inv emp e(1)])
  then have "dof s v \<le> dof s (pof s v) + w" using w(1) by (simp add: settled_def)
  with w(2) have "dof s v = dof s (pof s v) + w" by linarith
  with w(1) e(1) lt show thesis by (intro that [of w])
qed

lemma trace_walk:
  assumes g: "graph_ok g" and inv: "search_inv g src s" and emp: "pq_empty (prio_queue s)"
  shows "vertex g v \<Longrightarrow> dof s v < INF_DIST \<Longrightarrow>
    \<exists>ws. trace_back (path s) v acc = Some (ws @ acc) \<and> walk g src ws v (dof s v)"
proof (induction v arbitrary: acc rule: wf_induct_rule [OF preds_wf [of g src s]])
  case 1
  show ?case using inv by (simp add: search_inv_def)
next
  case (2 v)
  have at: "elem_at (path s) v = Some (pof s v)"
    using "2.prems"(1) inv by (simp add: elem_at_def pof_def search_inv_def shape_ok_def index_ok_def)
  show ?case
  proof (cases "pof s v = INF_DIST")
    case True
    then have "v = src" using "2.prems" inv by (auto simp: search_inv_def tree_ok_def)
    then have "walk g src [] v (dof s v)" using inv by (simp add: search_inv_def sound_def walk.stay)
    with at True show ?thesis by (subst trace_back.simps) simp
  next
    case False
    obtain w where w: "edge g (pof s v) v w" "dof s v = dof s (pof s v) + w"
        "vertex g (pof s v)" "dof s (pof s v) < INF_DIST"
      using finished_pred [OF g inv emp "2.prems"(1) False] .
    have "(pof s v, v) \<in> preds g s" using "2.prems"(1) False by (auto simp: preds_def)
    from "2.IH" [OF this w(3,4), of "pof s v # acc"] obtain ws where
      ws: "trace_back (path s) (pof s v) (pof s v # acc) = Some (ws @ pof s v # acc)"
      "walk g src ws (pof s v) (dof s (pof s v))" by blast
    have "walk g src (ws @ [pof s v]) v (dof s v)" unfolding w(2) by (rule walk.step [OF ws(2) w(1)])
    with at False ws(1) show ?thesis by (subst trace_back.simps) auto
  qed
qed

lemma trace_unreached:
  assumes inv: "search_inv g src s" and v: "vertex g v" and "\<not> dof s v < INF_DIST"
  shows "trace_back (path s) v acc = Some acc"
proof -
  have "elem_at (path s) v = Some (pof s v)"
    using v inv by (simp add: elem_at_def pof_def search_inv_def shape_ok_def index_ok_def)
  moreover have "pof s v = INF_DIST" using assms by (auto simp: search_inv_def tree_ok_def)
  ultimately show ?thesis by (subst trace_back.simps) simp
qed

section \<open>The two searches agree\<close>

definition strip :: "search \<Rightarrow> short_search" where
  "strip s = \<lparr>s_dist = dist s, s_queue = prio_queue s\<rparr>"

lemma relax_short_strip: "relax_short u e (strip s) = map_option strip (relax_path u e s)"
  by (cases e) (simp add: strip_def split: Option.bind_splits)

lemma relax_short_all_strip: "relax_short_all u es (strip s) = map_option strip (relax_path_all u es s)"
proof (induction es arbitrary: s)
  case (Cons e es)
  then show ?case by (simp add: relax_short_strip del: relax_short.simps relax_path.simps split: Option.bind_splits)
qed simp

lemma strip_pop: "(strip s)\<lparr>s_queue := q\<rparr> = strip (s\<lparr>prio_queue := q\<rparr>)"
  by (simp add: strip_def)

lemma search_short_follows:
  assumes ret: "search_path g s = Some s'"
  shows "search_short g (strip s) = Some (strip s')"
proof (rule search_path.raw_induct
    [where P = "\<lambda>g s s'. search_short g (strip s) = Some (strip s')", OF _ ret])
  fix f g s s'
  assume IH: "\<And>g s s'. f g s = Some s' \<Longrightarrow> search_short g (strip s) = Some (strip s')"
    and eq: "(if pq_empty (prio_queue s) then Some s
      else let u = snd (pq_top (prio_queue s)) in
        Option.bind (elem_at (m_edges g) u) (\<lambda>es.
        Option.bind (relax_path_all u es (s\<lparr>prio_queue := pq_pop (prio_queue s)\<rparr>)) (f g))) = Some s'"
  have q: "s_queue (strip x) = prio_queue x" for x by (simp add: strip_def)
  show "search_short g (strip s) = Some (strip s')"
  proof (cases "pq_empty (prio_queue s)")
    case True
    with eq show ?thesis by (subst search_short.simps) (simp add: q)
  next
    case False
    with eq obtain es s2 where
      "elem_at (m_edges g) (snd (pq_top (prio_queue s))) = Some es"
      "relax_path_all (snd (pq_top (prio_queue s))) es (s\<lparr>prio_queue := pq_pop (prio_queue s)\<rparr>) = Some s2"
      "f g s2 = Some s'" by (auto simp: Let_def bind_eq_Some_conv)
    with False IH show ?thesis
      by (subst search_short.simps) (simp add: q Let_def strip_pop relax_short_all_strip)
  qed
qed

lemma search_path_follows:
  assumes ret: "search_short g t = Some t'"
  shows "\<forall>s. t = strip s \<longrightarrow> (\<exists>s'. search_path g s = Some s' \<and> t' = strip s')"
proof (rule search_short.raw_induct
    [where P = "\<lambda>g t t'. \<forall>s. t = strip s \<longrightarrow> (\<exists>s'. search_path g s = Some s' \<and> t' = strip s')", OF _ ret])
  fix f g t t'
  assume IH: "\<And>g t t'. f g t = Some t' \<Longrightarrow>
      \<forall>s. t = strip s \<longrightarrow> (\<exists>s'. search_path g s = Some s' \<and> t' = strip s')"
    and eq: "(if pq_empty (s_queue t) then Some t
      else let u = snd (pq_top (s_queue t)) in
        Option.bind (elem_at (m_edges g) u) (\<lambda>es.
        Option.bind (relax_short_all u es (t\<lparr>s_queue := pq_pop (s_queue t)\<rparr>)) (f g))) = Some t'"
  show "\<forall>s. t = strip s \<longrightarrow> (\<exists>s'. search_path g s = Some s' \<and> t' = strip s')"
  proof (intro allI impI)
    fix s assume t: "t = strip s"
    have q: "s_queue t = prio_queue s" by (simp add: t strip_def)
    show "\<exists>s'. search_path g s = Some s' \<and> t' = strip s'"
    proof (cases "pq_empty (prio_queue s)")
      case True
      with eq t q show ?thesis by (subst search_path.simps) simp
    next
      case False
      with eq q t obtain es s2 where
        "elem_at (m_edges g) (snd (pq_top (prio_queue s))) = Some es"
        "relax_path_all (snd (pq_top (prio_queue s))) es (s\<lparr>prio_queue := pq_pop (prio_queue s)\<rparr>) = Some s2"
        "f g (strip s2) = Some t'"
        by (auto simp: Let_def bind_eq_Some_conv strip_pop relax_short_all_strip)
      with False IH show ?thesis by (subst search_path.simps) (simp add: Let_def)
    qed
  qed
qed

lemma search_short_strip: "search_short g (strip s) = map_option strip (search_path g s)"
  using search_short_follows [of g s] search_path_follows [of g "strip s"]
  by (cases "search_path g s"; cases "search_short g (strip s)") auto

section \<open>The program's own example graph\<close>

text \<open>The graph \<open>main\<close> builds, vertex by vertex.\<close>

definition main_graph :: "graph option" where
  "main_graph = Option.bind (new_graph 9) (\<lambda>g. AddEdges g
     [(0, 1, 4), (0, 7, 8), (1, 2, 8), (1, 7, 11), (2, 3, 7), (2, 8, 2), (2, 5, 4), (3, 4, 9),
      (3, 5, 14), (4, 5, 10), (5, 6, 2), (6, 7, 1), (6, 8, 6), (7, 8, 7)])"

lemma main_graph_ok:
  "\<exists>g. main_graph = Some g \<and> graph_ok g \<and> vertex g 0 \<and> vertex g 4 \<and> vertex g 8"
proof -
  have "case main_graph of None \<Rightarrow> False
    | Some g \<Rightarrow> graph_ok g \<and> vertex g 0 \<and> vertex g 4 \<and> vertex g 8" by code_simp
  then show ?thesis by (auto split: option.splits)
qed

section \<open>What the two routines print\<close>

text \<open>
  C8: \<open>GetPath\<close> is correct on every graph without negative or overflowing weights. It returns, and
  the table has one row per vertex with the weight of a shortest walk from the source, \<^verbatim>\<open>INF\<close>
  standing for no walk lighter than \<^verbatim>\<open>INF\<close>. The way printed is empty when the destination is not
  reached; otherwise it lists, in order, the vertices of a walk from the source to the destination
  whose weight is the distance in the table, the destination itself left out.
\<close>

theorem GetPath_shortest:
  assumes "graph_ok g" and "vertex g src" and "vertex g des"
  shows "\<exists>ds way. GetPath g src des = Some (table ds, way) \<and> length ds = length (m_edges g) \<and>
    (\<forall>v. vertex g v \<longrightarrow> shortest g src v (ds ! nat v)) \<and>
    (if ds ! nat des < INF_DIST then walk g src way des (ds ! nat des) else way = [])"
proof -
  obtain s0 s where s: "path_start g src = Some s0" "search_path g s0 = Some s"
      "search_inv g src s" "pq_empty (prio_queue s)"
    using search_finishes [OF assms(1,2)] .
  have rows: "\<forall>v. vertex g v \<longrightarrow> shortest g src v (dist s ! nat v)"
    using finished_shortest [OF assms(1,2) s(3,4)] by (simp add: dof_def)
  have len: "length (dist s) = length (m_edges g)" using s(3) by (simp add: search_inv_def shape_ok_def)
  obtain way where "trace_back (path s) des [] = Some way"
      "(if dist s ! nat des < INF_DIST then walk g src way des (dist s ! nat des) else way = [])"
    using trace_walk [OF assms(1) s(3,4) assms(3), of "[]"] trace_unreached [OF s(3) assms(3), of "[]"]
    by (cases "dof s des < INF_DIST") (auto simp: dof_def)
  with rows len s(1,2) show ?thesis by (intro exI [of _ "dist s"] exI [of _ way]) (simp add: GetPath_def)
qed

theorem GetPath_shortest_witness:
  "\<exists>g ds way. main_graph = Some g \<and> GetPath g 0 4 = Some (table ds, way) \<and>
     shortest g 0 8 (ds ! 8)"
proof -
  obtain g where g: "main_graph = Some g" "graph_ok g" "vertex g 0" "vertex g 4" "vertex g 8"
    using main_graph_ok by auto
  with GetPath_shortest [OF g(2-4)] show ?thesis by force
qed

text \<open>
  C36: \<open>ShortPath\<close> and \<open>GetPath\<close> agree, on any graph at all: \<open>ShortPath\<close> goes wrong or fails to
  return exactly when the search of \<open>GetPath\<close> does, and otherwise prints the table of the distances
  that search found.
\<close>

theorem ShortPath_agrees:
  "ShortPath g src =
     map_option (\<lambda>s. table (dist s)) (Option.bind (path_start g src) (search_path g))"
proof -
  have "search_short g \<lparr>s_dist = d, s_queue = q\<rparr> =
      map_option strip (search_path g \<lparr>dist = d, path = p, prio_queue = q\<rparr>)" for d p q
    using search_short_strip [of g "\<lparr>dist = d, path = p, prio_queue = q\<rparr>"] by (simp add: strip_def)
  from this [where p = "replicate (nat (m_size g)) INF_DIST"] show ?thesis
    by (simp add: ShortPath_def path_start_def Let_def strip_def option.map_comp o_def)
qed

text \<open>
  C34: \<open>ShortPath\<close> returns on every graph without negative or overflowing weights, and its table is
  the table of shortest distances.
\<close>

theorem ShortPath_shortest:
  assumes "graph_ok g" and "vertex g src"
  shows "\<exists>ds. ShortPath g src = Some (table ds) \<and> length ds = length (m_edges g) \<and>
    (\<forall>v. vertex g v \<longrightarrow> shortest g src v (ds ! nat v))"
proof -
  obtain s0 s where s: "path_start g src = Some s0" "search_path g s0 = Some s"
      "search_inv g src s" "pq_empty (prio_queue s)"
    using search_finishes [OF assms] .
  have "s0 = \<lparr>dist = dist s0, path = path s0, prio_queue = prio_queue s0\<rparr>" by simp
  then have "search_short g (strip s0) = Some (strip s)" using s(2) by (simp add: search_short_strip)
  moreover have "ShortPath g src = map_option (\<lambda>t. table (s_dist t)) (search_short g (strip s0))"
    using s(1) by (auto simp: ShortPath_def path_start_def Let_def strip_def split: if_splits)
  ultimately have "ShortPath g src = Some (table (dist s))" by (simp add: strip_def)
  moreover have "\<forall>v. vertex g v \<longrightarrow> shortest g src v (dist s ! nat v)"
    using finished_shortest [OF assms s(3,4)] by (simp add: dof_def)
  moreover have "length (dist s) = length (m_edges g)"
    using s(3) by (simp add: search_inv_def shape_ok_def)
  ultimately show ?thesis by blast
qed

theorem ShortPath_shortest_witness:
  "\<exists>g ds. main_graph = Some g \<and> ShortPath g 0 = Some (table ds) \<and> shortest g 0 4 (ds ! 4)"
proof -
  obtain g where g: "main_graph = Some g" "graph_ok g" "vertex g 0" "vertex g 4" "vertex g 8"
    using main_graph_ok by auto
  with ShortPath_shortest [OF g(2,3)] show ?thesis by force
qed

text \<open>What the four calls of \<open>main\<close> print.\<close>

definition path_main :: "((nat \<times> int) list \<times> ((nat \<times> int) list \<times> int list) list) option" where
  "path_main = do {
     g \<leftarrow> main_graph;
     t \<leftarrow> ShortPath g 0;
     a \<leftarrow> GetPath g 0 4;
     b \<leftarrow> GetPath g 0 8;
     c \<leftarrow> GetPath g 7 2;
     Some (t, [a, b, c]) }"

text \<open>
  The run of \<open>main\<close>, evaluated. The table from vertex 0 holds the known shortest distances of
  this graph, and the three ways are printed without their destinations.
\<close>

theorem path_main_prints:
  "map_option (\<lambda>(t, ps). (map snd t, map snd ps)) path_main =
     Some ([0, 4, 12, 19, 21, 11, 9, 8, 14], [[0, 7, 6, 5], [0, 1, 2], [7, 6, 5]])"
  by code_simp

end
