(* ===== verification/Socket_Base.thy ===== *)
theory Socket_Base
  imports Prelude
begin

text \<open>
  Data and operating system interface of the gate server: the constants of
  \<^verbatim>\<open>gateserver/socket_define.h\<close>, the structures of \<^verbatim>\<open>gateserver/socket_server.h\<close> and
  \<^verbatim>\<open>socket_poll.h\<close>, and the epoll wrapper \<^verbatim>\<open>socket_epoll.h\<close>.

  The operating system is a parameter: a function \<open>os\<close> from the calls made so far and the call
  made now to its reply. The state keeps the calls made, in order, in \<open>trace\<close>. As \<open>os\<close> is
  arbitrary, a reply may depend on anything that happened and on every choice of the other side.
  Pointers to slots are slot numbers, and a null pointer is \<^const>\<open>None\<close>.
\<close>

section \<open>Constants\<close>

type_synonym u16 = "16 word"

abbreviation (input) SOCKET_DATA :: int where "SOCKET_DATA \<equiv> 0"
abbreviation (input) SOCKET_CLOSE :: int where "SOCKET_CLOSE \<equiv> 1"
abbreviation (input) SOCKET_OPEN :: int where "SOCKET_OPEN \<equiv> 2"
abbreviation (input) SOCKET_ACCEPT :: int where "SOCKET_ACCEPT \<equiv> 3"
abbreviation (input) SOCKET_ERROR :: int where "SOCKET_ERROR \<equiv> 4"
abbreviation (input) SOCKET_EXIT :: int where "SOCKET_EXIT \<equiv> 5"

abbreviation (input) SOCKET_TYPE_INVALID :: u16 where "SOCKET_TYPE_INVALID \<equiv> 0"
abbreviation (input) SOCKET_TYPE_RESERVE :: u16 where "SOCKET_TYPE_RESERVE \<equiv> 1"
abbreviation (input) SOCKET_TYPE_PLISTEN :: u16 where "SOCKET_TYPE_PLISTEN \<equiv> 2"
abbreviation (input) SOCKET_TYPE_LISTEN :: u16 where "SOCKET_TYPE_LISTEN \<equiv> 3"
abbreviation (input) SOCKET_TYPE_CONNECTING :: u16 where "SOCKET_TYPE_CONNECTING \<equiv> 4"
abbreviation (input) SOCKET_TYPE_CONNECTED :: u16 where "SOCKET_TYPE_CONNECTED \<equiv> 5"
abbreviation (input) SOCKET_TYPE_HALFCLOSE :: u16 where "SOCKET_TYPE_HALFCLOSE \<equiv> 6"
abbreviation (input) SOCKET_TYPE_PACCEPT :: u16 where "SOCKET_TYPE_PACCEPT \<equiv> 7"
abbreviation (input) SOCKET_TYPE_BIND :: u16 where "SOCKET_TYPE_BIND \<equiv> 8"

abbreviation (input) PROTOCOL_TCP :: u16 where "PROTOCOL_TCP \<equiv> 0"

definition MAX_INFO :: nat where "MAX_INFO = 128"
definition MAX_SOCKET :: nat where "MAX_SOCKET = 2 ^ 16"
definition MAX_EVENT :: nat where "MAX_EVENT = 64"
definition MIN_READ_BUFFER :: int where "MIN_READ_BUFFER = 64"

definition HASH_ID :: "u32 \<Rightarrow> nat" where
  "HASH_ID i = unat i mod MAX_SOCKET"

lemma HASH_ID_less [simp]: "HASH_ID i < MAX_SOCKET"
  by (simp add: HASH_ID_def MAX_SOCKET_def)

text \<open>The values of \<^verbatim>\<open>errno\<close> the code tells apart, and the flags of epoll, as on Linux.\<close>

abbreviation (input) EINTR :: int where "EINTR \<equiv> 4"
abbreviation (input) EAGAIN :: int where "EAGAIN \<equiv> 11"
abbreviation (input) EINPROGRESS :: int where "EINPROGRESS \<equiv> 115"
abbreviation (input) EPOLLIN :: u32 where "EPOLLIN \<equiv> 1"
abbreviation (input) EPOLLOUT :: u32 where "EPOLLOUT \<equiv> 4"
definition FD_SETSIZE :: int where "FD_SETSIZE = 1024"

section \<open>Structures\<close>

text \<open>A write buffer; its \<^verbatim>\<open>next\<close> pointer is the rest of the list it is in.\<close>

record write_buffer =
  wb_buffer :: u64
  wb_ptr :: u64
  wb_sz :: int

record socket =
  opaque :: u64
  high :: "write_buffer list"
  low :: "write_buffer list"
  wb_size :: int
  fd :: int
  sock_id :: u32
  protocol :: u16
  sock_type :: u16
  rd_size :: int

record event =
  ev_s :: "nat option"
  ev_read :: bool
  ev_write :: bool

text \<open>The data pointer of a message: null, a string constant, the server's text buffer, or a
  block from the heap with what was read into it.\<close>

datatype msg_data = Nullptr | Literal string | Info string | Heap u64 "byte list"

record message =
  msg_id :: u32
  msg_opaque :: u64
  msg_ud :: int
  msg_data :: msg_data

section \<open>The operating system\<close>

record sockaddr =
  sa_family :: int
  sa_addr :: "byte list"
  sa_port :: nat

record addrinfo =
  ai_family :: int
  ai_socktype :: int
  ai_protocol :: int
  ai_addr :: sockaddr

record epoll_event =
  events :: u32
  data_ptr :: "nat option"

datatype (plugins only: code) call =
    Epoll_create | Epoll_add int int "nat option" u32 | Epoll_mod int int "nat option" u32
  | Epoll_del int int | Epoll_wait int nat
  | Pipe | Close int | Read int nat | Read_heap int u64 int
  | Write int "byte list" | Write_mem int u64 int | Select int
  | Malloc int | Free u64
  | Getaddrinfo string string int int | Freeaddrinfo "addrinfo list"
  | Socket int int int | Bind int sockaddr | Listen int int | Accept int | Connect int sockaddr
  | Set_reuse int | Set_keepalive int | Set_tcp_option int int int | Get_so_error int
  | Getpeername int | Inet_ntop int "byte list" nat
  | Fcntl_getfl int | Fcntl_setfl int int

text \<open>A reply: the return value, \<^verbatim>\<open>errno\<close>, and what the call stores through its pointers.\<close>

record reply =
  ret :: int
  errno :: int
  r_bytes :: "byte list"
  r_ptr :: u64
  r_fds :: "int \<times> int"
  r_value :: int
  r_text :: string
  r_addr :: sockaddr
  r_addrs :: "addrinfo list"
  r_events :: "epoll_event list"

type_synonym os = "call list \<Rightarrow> call \<Rightarrow> reply"

section \<open>The server\<close>

record server =
  recvctrl_fd :: int
  sendctrl_fd :: int
  checkctrl :: bool
  event_fd :: int
  alloc_id :: u32
  event_n :: nat
  event_index :: nat
  ev :: "event list"
  slot :: "nat \<Rightarrow> socket"
  buffer :: string
  trace :: "call list"

definition sys :: "os \<Rightarrow> call \<Rightarrow> server \<Rightarrow> reply \<times> server" where
  "sys os c st = (os (trace st) c, st\<lparr>trace := trace st @ [c]\<rparr>)"

text \<open>A call whose reply the code ignores.\<close>

definition emit :: "call \<Rightarrow> server \<Rightarrow> server" where
  "emit c st = st\<lparr>trace := trace st @ [c]\<rparr>"

definition set_slot :: "nat \<Rightarrow> (socket \<Rightarrow> socket) \<Rightarrow> server \<Rightarrow> server" where
  "set_slot i f st = st\<lparr>slot := (slot st)(i := f (slot st i))\<rparr>"

section \<open>The epoll wrapper\<close>

definition ep_invalid :: "server \<Rightarrow> bool" where
  "ep_invalid st \<longleftrightarrow> event_fd st = - 1"

definition ep_create :: "os \<Rightarrow> server \<Rightarrow> server" where
  "ep_create os st = (let (r, st) = sys os Epoll_create st in st\<lparr>event_fd := ret r\<rparr>)"

definition ep_release :: "server \<Rightarrow> server" where
  "ep_release st = emit (Close (event_fd st)) st"

definition ep_add :: "os \<Rightarrow> int \<Rightarrow> nat option \<Rightarrow> server \<Rightarrow> bool \<times> server" where
  "ep_add os sock ud st =
     (let (r, st) = sys os (Epoll_add (event_fd st) sock ud EPOLLIN) st in (ret r = - 1, st))"

definition ep_del :: "int \<Rightarrow> server \<Rightarrow> server" where
  "ep_del sock st = emit (Epoll_del (event_fd st) sock) st"

definition ep_write :: "int \<Rightarrow> nat option \<Rightarrow> bool \<Rightarrow> server \<Rightarrow> server" where
  "ep_write sock ud enable st =
     emit (Epoll_mod (event_fd st) sock ud (EPOLLIN OR (if enable then EPOLLOUT else 0))) st"

definition O_NONBLOCK :: int where
  "O_NONBLOCK = 2048"

definition ep_nonblocking :: "os \<Rightarrow> server \<Rightarrow> server" where
  "ep_nonblocking os st =
     (let (r, st) = sys os (Fcntl_getfl (event_fd st)) st in
      if ret r = - 1 then st else emit (Fcntl_setfl (event_fd st) (ret r OR O_NONBLOCK)) st)"

definition to_event :: "epoll_event \<Rightarrow> event" where
  "to_event e = \<lparr>ev_s = data_ptr e, ev_read = (events e AND EPOLLIN \<noteq> 0),
                 ev_write = (events e AND EPOLLOUT \<noteq> 0)\<rparr>"

definition ep_wait :: "os \<Rightarrow> nat \<Rightarrow> server \<Rightarrow> int \<times> server" where
  "ep_wait os m st =
     (let (r, st) = sys os (Epoll_wait (event_fd st) m) st; n = nat (ret r) in
      (ret r, st\<lparr>ev := map to_event (take n (r_events r)) @ drop n (ev st)\<rparr>))"

section \<open>Small facts about the state operations\<close>

lemma sys_simps [simp]:
  "snd (sys os c st) = emit c st" "fst (sys os c st) = os (trace st) c"
  by (simp_all add: sys_def emit_def)

lemma sys_split: "sys os c st = (os (trace st) c, emit c st)"
  by (simp add: sys_def emit_def)

lemma emit_simps [simp]:
  "slot (emit c st) = slot st" "alloc_id (emit c st) = alloc_id st"
  "ev (emit c st) = ev st" "event_n (emit c st) = event_n st"
  "event_index (emit c st) = event_index st" "checkctrl (emit c st) = checkctrl st"
  "recvctrl_fd (emit c st) = recvctrl_fd st" "sendctrl_fd (emit c st) = sendctrl_fd st"
  "event_fd (emit c st) = event_fd st" "buffer (emit c st) = buffer st"
  "trace (emit c st) = trace st @ [c]"
  by (simp_all add: emit_def)

lemma set_slot_simps [simp]:
  "slot (set_slot i f st) = (slot st)(i := f (slot st i))" "alloc_id (set_slot i f st) = alloc_id st"
  "ev (set_slot i f st) = ev st" "event_n (set_slot i f st) = event_n st"
  "event_index (set_slot i f st) = event_index st" "checkctrl (set_slot i f st) = checkctrl st"
  "recvctrl_fd (set_slot i f st) = recvctrl_fd st" "sendctrl_fd (set_slot i f st) = sendctrl_fd st"
  "event_fd (set_slot i f st) = event_fd st" "buffer (set_slot i f st) = buffer st"
  "trace (set_slot i f st) = trace st"
  by (simp_all add: set_slot_def)

end
