(* ===== verification/Socket_Table.thy ===== *)
theory Socket_Table
  imports Socket_Base
begin

text \<open>
  The slot table of the gate server: \<open>reserve_id\<close> of \<^verbatim>\<open>gateserver/socket_server.cpp\<close>, which
  hands out socket numbers, and the contract of a table of numbered resources it implements.
  Between threads the code uses atomic instructions; here one call runs alone, so the final
  compare-and-swap finds the type it has just read. \<open>Socket_Reserve\<close> has calls of several threads.
\<close>

section \<open>The contract\<close>

text \<open>
  A table with a fixed number of places. \<open>live\<close> is the set of numbers in use; a reservation
  fails exactly when the table is full and otherwise returns a number not in use.
\<close>

locale id_table =
  fixes reserve :: "'s \<Rightarrow> 'i option \<times> 's"
    and ok :: "'s \<Rightarrow> bool"
    and live :: "'s \<Rightarrow> 'i set"
    and places :: nat
  assumes live_finite: "ok s \<Longrightarrow> finite (live s) \<and> card (live s) \<le> places"
    and reserve_full: "ok s \<Longrightarrow> fst (reserve s) = None \<longleftrightarrow> card (live s) = places"
    and reserve_fresh: "ok s \<Longrightarrow> fst (reserve s) = Some i \<Longrightarrow>
      i \<notin> live s \<and> live (snd (reserve s)) = insert i (live s)"
    and reserve_ok: "ok s \<Longrightarrow> ok (snd (reserve s))"
begin

primrec reserves :: "nat \<Rightarrow> 's \<Rightarrow> 'i option list \<times> 's" where
  "reserves 0 s = ([], s)"
| "reserves (Suc n) s =
     (let (i, s') = reserve s; (is, t) = reserves n s' in (i # is, t))"

lemma reserves_ok: "ok s \<Longrightarrow> ok (snd (reserves n s))"
  by (induction n arbitrary: s) (auto simp: reserve_ok case_prod_beta Let_def)

text \<open>Reservations in a row: all distinct and new, as many as there are free places.\<close>

lemma reserves_fill:
  "ok s \<Longrightarrow> card (live s) + n \<le> places \<Longrightarrow>
   \<exists>ids. fst (reserves n s) = map Some ids \<and> distinct ids \<and> set ids \<inter> live s = {} \<and>
     live (snd (reserves n s)) = set ids \<union> live s"
proof (induction n arbitrary: s)
  case (Suc n)
  obtain i where i: "fst (reserve s) = Some i"
    using reserve_full [OF Suc.prems(1)] Suc.prems(2) by (cases "fst (reserve s)") auto
  note new = reserve_fresh [OF Suc.prems(1) i]
  have "card (live (snd (reserve s))) = Suc (card (live s))"
    using new live_finite [OF Suc.prems(1)] by simp
  with Suc.IH [OF reserve_ok [OF Suc.prems(1)]] Suc.prems(2) obtain ids where
    "fst (reserves n (snd (reserve s))) = map Some ids" "distinct ids"
    "set ids \<inter> live (snd (reserve s)) = {}"
    "live (snd (reserves n (snd (reserve s)))) = set ids \<union> live (snd (reserve s))" by auto
  with new i show ?case by (intro exI [of _ "i # ids"]) (auto simp: case_prod_beta Let_def)
qed simp

lemma reserves_then_full:
  assumes "ok s" and "card (live s) + n = places"
  shows "fst (reserve (snd (reserves n s))) = None"
proof -
  obtain ids where ids: "distinct ids" "set ids \<inter> live s = {}" "fst (reserves n s) = map Some ids"
      "live (snd (reserves n s)) = set ids \<union> live s"
    using reserves_fill [OF assms(1), of n] assms(2) by auto
  have "length (fst (reserves n s)) = n" for s
    by (induction n arbitrary: s) (simp_all add: case_prod_beta Let_def)
  with ids have "card (live (snd (reserves n s))) = places"
    using assms live_finite [OF assms(1)]
    by (metis card_Un_disjoint distinct_card List.finite_set length_map add.commute)
  then show ?thesis using reserve_full [OF reserves_ok [OF assms(1)]] by blast
qed

end

section \<open>The code\<close>

text \<open>
  One turn of the loop draws the next number; a negative one is masked to 31 bits. The loop runs
  at most \<^const>\<open>MAX_SOCKET\<close> turns, counted down here.
\<close>

definition draw_id :: "server \<Rightarrow> u32 \<times> server" where
  "draw_id st =
     (let i = alloc_id st + 1; st = st\<lparr>alloc_id := i\<rparr> in
      if sint i < 0
      then (let i = alloc_id st AND 0x7fffffff in (i, st\<lparr>alloc_id := i\<rparr>))
      else (i, st))"

primrec reserve_loop :: "nat \<Rightarrow> server \<Rightarrow> u32 \<times> server" where
  "reserve_loop 0 st = (- 1, st)"
| "reserve_loop (Suc n) st =
     (let (i, st) = draw_id st in
      if sock_type (slot st (HASH_ID i)) = SOCKET_TYPE_INVALID
      then (i, set_slot (HASH_ID i)
                 (\<lambda>s. s\<lparr>sock_type := SOCKET_TYPE_RESERVE, sock_id := i, fd := - 1\<rparr>) st)
      else reserve_loop n st)"

definition reserve_id :: "server \<Rightarrow> u32 \<times> server" where
  "reserve_id st = reserve_loop MAX_SOCKET st"

section \<open>The numbers drawn\<close>

definition alloc_ok :: "server \<Rightarrow> bool" where
  "alloc_ok st \<longleftrightarrow> unat (alloc_id st) < 2 ^ 31"

lemma draw_id_next:
  assumes "alloc_ok st"
  defines "i \<equiv> fst (draw_id st)"
  shows "unat i = (unat (alloc_id st) + 1) mod 2 ^ 31" and "snd (draw_id st) = st\<lparr>alloc_id := i\<rparr>"
    and "0 \<le> sint i"
proof -
  have suc: "unat (alloc_id st + 1) = unat (alloc_id st) + 1"
    using assms(1) by (simp add: alloc_ok_def unat_plus_if_size word_size)
  have "unat i = (unat (alloc_id st) + 1) mod 2 ^ 31 \<and> 0 \<le> sint i"
  proof (cases "unat (alloc_id st) + 1 = 2 ^ 31")
    case True
    then have "alloc_id st + 1 = 0x80000000" by (intro word_unat_eq_iff [THEN iffD2]) (simp add: suc)
    then have "i = 0" by (simp add: i_def draw_id_def Let_def)
    with True show ?thesis by simp
  next
    case False
    with assms(1) have small: "unat (alloc_id st + 1) < 2147483648" by (simp add: suc alloc_ok_def)
    then have "i = alloc_id st + 1" by (simp add: i_def draw_id_def Let_def sint_small)
    with small suc show ?thesis by (simp add: sint_small)
  qed
  then show "unat i = (unat (alloc_id st) + 1) mod 2 ^ 31" and "0 \<le> sint i" by simp_all
  show "snd (draw_id st) = st\<lparr>alloc_id := i\<rparr>"
    by (simp add: draw_id_def i_def Let_def)
qed

text \<open>The \<open>k\<close>-th number drawn from state \<open>st\<close> on.\<close>

definition later_id :: "u32 \<Rightarrow> nat \<Rightarrow> u32" where
  "later_id a k = word_of_nat ((unat a + k) mod 2 ^ 31)"

lemma unat_later_id: "unat (later_id a k) = (unat a + k) mod 2 ^ 31"
proof -
  have "(unat a + k) mod 2 ^ 31 < 2 ^ 31" by (rule mod_less_divisor) simp
  then have "(unat a + k) mod 2 ^ 31 < 2 ^ 32" by (rule less_trans) simp
  then show ?thesis unfolding later_id_def unat_of_nat by (simp only: mod_less len_num1 len_bit0 len_of_numeral_defs) simp
qed

lemma later_id_sint: "0 \<le> sint (later_id a k)"
  using mod_less_divisor [of "2 ^ 31" "unat a + k"] by (simp add: sint_small unat_later_id)

lemma later_id_not_neg: "later_id a k \<noteq> - 1"
  using later_id_sint [of a k] by auto

lemma HASH_later_id: "HASH_ID (later_id a k) = (unat a + k) mod MAX_SOCKET"
  by (simp add: HASH_ID_def MAX_SOCKET_def unat_later_id mod_mod_cancel)

lemma later_id_later_id: "later_id (later_id a k) n = later_id a (k + n)"
  by (simp add: later_id_def [of "later_id a k"] unat_later_id mod_simps add.assoc)
     (simp add: later_id_def)

lemma draw_later_id: "alloc_ok st \<Longrightarrow> draw_id st = (later_id (alloc_id st) 1, st\<lparr>alloc_id := later_id (alloc_id st) 1\<rparr>)"
  using draw_id_next [of st]
  by (metis prod.collapse unat_later_id word_unat_eq_iff)

lemma later_id_ok: "alloc_ok (st\<lparr>alloc_id := later_id a k\<rparr>)"
  using mod_less_divisor [of "2 ^ 31" "unat a + k"] by (simp add: alloc_ok_def unat_later_id)

abbreviation free_slot :: "server \<Rightarrow> nat \<Rightarrow> bool" where
  "free_slot st i \<equiv> sock_type (slot st i) = SOCKET_TYPE_INVALID"

text \<open>What a reservation that succeeds does to the state.\<close>

definition reserved :: "u32 \<Rightarrow> server \<Rightarrow> server" where
  "reserved i st = set_slot (HASH_ID i)
     (\<lambda>s. s\<lparr>sock_type := SOCKET_TYPE_RESERVE, sock_id := i, fd := - 1\<rparr>) (st\<lparr>alloc_id := i\<rparr>)"

abbreviation taken_from :: "server \<Rightarrow> u32 \<Rightarrow> nat \<Rightarrow> bool" where
  "taken_from st a k \<equiv> \<not> free_slot st (HASH_ID (later_id a k))"

lemma reserve_loop_from:
  assumes "\<forall>j \<in> {1..m}. taken_from st a j"
  shows "(\<forall>j \<in> {1..m + n}. taken_from st a j) \<and>
       reserve_loop n (st\<lparr>alloc_id := later_id a m\<rparr>) = (- 1, st\<lparr>alloc_id := later_id a (m + n)\<rparr>) \<or>
     (\<exists>k \<in> {1..m + n}. (\<forall>j \<in> {1..<k}. taken_from st a j) \<and> \<not> taken_from st a k \<and>
       reserve_loop n (st\<lparr>alloc_id := later_id a m\<rparr>) = (later_id a k, reserved (later_id a k) st))"
  using assms
proof (induction n arbitrary: m)
  case (Suc n)
  have draw: "draw_id (st\<lparr>alloc_id := later_id a m\<rparr>) =
      (later_id a (Suc m), st\<lparr>alloc_id := later_id a (Suc m)\<rparr>)"
    using draw_later_id [OF later_id_ok [where st = st and a = a and k = m]] by (simp add: later_id_later_id)
  show ?case
  proof (cases "taken_from st a (Suc m)")
    case True
    with Suc.prems have "\<forall>j \<in> {1..Suc m}. taken_from st a j" by (auto simp: le_Suc_eq)
    with Suc.IH [of "Suc m"] True show ?thesis by (simp add: draw)
  next
    case False
    then have "reserve_loop (Suc n) (st\<lparr>alloc_id := later_id a m\<rparr>) =
        (later_id a (Suc m), reserved (later_id a (Suc m)) st)"
      by (simp add: draw reserved_def)
    moreover have "\<forall>j \<in> {1..<Suc m}. taken_from st a j" using Suc.prems by auto
    ultimately show ?thesis using False by (intro disjI2 bexI [of _ "Suc m"]) auto
  qed
qed simp

lemma reserve_loop_spec:
  assumes "alloc_ok st"
  shows "(\<forall>j \<in> {1..n}. taken_from st (alloc_id st) j) \<and>
       reserve_loop n st = (- 1, st\<lparr>alloc_id := later_id (alloc_id st) n\<rparr>) \<or>
     (\<exists>k \<in> {1..n}. (\<forall>j \<in> {1..<k}. taken_from st (alloc_id st) j) \<and>
       \<not> taken_from st (alloc_id st) k \<and>
       reserve_loop n st = (later_id (alloc_id st) k, reserved (later_id (alloc_id st) k) st))"
proof -
  have "later_id (alloc_id st) 0 = alloc_id st"
    using assms by (simp add: word_unat_eq_iff unat_later_id alloc_ok_def)
  then show ?thesis using reserve_loop_from [of 0 st "alloc_id st" n] by simp
qed

text \<open>A full round of numbers passes every slot.\<close>

lemma round_covers:
  assumes "i < MAX_SOCKET"
  obtains j where "j \<in> {1..MAX_SOCKET}" and "HASH_ID (later_id a j) = i"
proof -
  let ?j = "(i + MAX_SOCKET - Suc (unat a) mod MAX_SOCKET) mod MAX_SOCKET + 1"
  have "(unat a + ?j) mod MAX_SOCKET =
      (Suc (unat a) mod MAX_SOCKET + (i + MAX_SOCKET - Suc (unat a) mod MAX_SOCKET)) mod MAX_SOCKET"
    by (simp add: mod_simps) (metis mod_Suc_eq mod_add_right_eq)
  also have "\<dots> = i"
    using assms mod_less_divisor [of MAX_SOCKET "Suc (unat a)"] by (simp add: MAX_SOCKET_def)
  finally have "HASH_ID (later_id a ?j) = i" by (simp only: HASH_later_id)
  moreover have "?j \<in> {1..MAX_SOCKET}"
    using mod_less_divisor [of MAX_SOCKET "i + MAX_SOCKET - Suc (unat a) mod MAX_SOCKET"]
    by (simp add: MAX_SOCKET_def)
  ultimately show thesis by (rule that [rotated])
qed

text \<open>What \<open>reserve_id\<close> does, in one fact.\<close>

lemma reserve_id_cases:
  assumes "alloc_ok st"
  shows "(\<forall>i < MAX_SOCKET. \<not> free_slot st i) \<and>
       reserve_id st = (- 1, st\<lparr>alloc_id := later_id (alloc_id st) MAX_SOCKET\<rparr>) \<or>
     (\<exists>k \<in> {1..MAX_SOCKET}. (\<forall>j \<in> {1..<k}. taken_from st (alloc_id st) j) \<and>
       \<not> taken_from st (alloc_id st) k \<and>
       reserve_id st = (later_id (alloc_id st) k, reserved (later_id (alloc_id st) k) st))"
  using reserve_loop_spec [OF assms, of MAX_SOCKET] round_covers [of _ "alloc_id st"]
  unfolding reserve_id_def by metis

section \<open>The table as a table of numbered places\<close>

definition live_ids :: "server \<Rightarrow> u32 set" where
  "live_ids st = {sock_id (slot st i) | i. i < MAX_SOCKET \<and> \<not> free_slot st i}"

text \<open>Every socket in use sits in the slot its number hashes to.\<close>

definition table_ok :: "server \<Rightarrow> bool" where
  "table_ok st \<longleftrightarrow> alloc_ok st \<and>
     (\<forall>i < MAX_SOCKET. \<not> free_slot st i \<longrightarrow> HASH_ID (sock_id (slot st i)) = i)"

definition reserve :: "server \<Rightarrow> u32 option \<times> server" where
  "reserve st = (let (i, st') = reserve_id st in (if i = - 1 then None else Some i, st'))"

lemma live_ids_card:
  assumes "table_ok st"
  shows "finite (live_ids st)" and "card (live_ids st) = card {i. i < MAX_SOCKET \<and> \<not> free_slot st i}"
proof -
  let ?used = "{i. i < MAX_SOCKET \<and> \<not> free_slot st i}"
  have image: "live_ids st = (\<lambda>i. sock_id (slot st i)) ` ?used" by (auto simp: live_ids_def)
  show "finite (live_ids st)" unfolding image by simp
  have "inj_on (\<lambda>i. sock_id (slot st i)) ?used"
    using assms by (intro inj_on_inverseI [where g = HASH_ID]) (simp add: table_ok_def)
  then show "card (live_ids st) = card ?used" unfolding image by (rule card_image)
qed

lemma used_card: "card {i. i < MAX_SOCKET \<and> \<not> free_slot st i} \<le> MAX_SOCKET"
proof -
  have "card {i. i < MAX_SOCKET \<and> \<not> free_slot st i} \<le> card {..<MAX_SOCKET}"
    by (rule card_mono) auto
  then show ?thesis by simp
qed

lemma used_full:
  "card {i. i < MAX_SOCKET \<and> \<not> free_slot st i} = MAX_SOCKET \<longleftrightarrow> (\<forall>i < MAX_SOCKET. \<not> free_slot st i)"
proof
  assume "card {i. i < MAX_SOCKET \<and> \<not> free_slot st i} = MAX_SOCKET"
  then have "{i. i < MAX_SOCKET \<and> \<not> free_slot st i} = {..<MAX_SOCKET}"
    by (intro card_subset_eq) auto
  then show "\<forall>i < MAX_SOCKET. \<not> free_slot st i" by blast
next
  assume "\<forall>i < MAX_SOCKET. \<not> free_slot st i"
  then have "{i. i < MAX_SOCKET \<and> \<not> free_slot st i} = {..<MAX_SOCKET}" by auto
  then show "card {i. i < MAX_SOCKET \<and> \<not> free_slot st i} = MAX_SOCKET" by simp
qed

lemma reserved_slot:
  "slot (reserved i st) = (slot st)(HASH_ID i := (slot st (HASH_ID i))
     \<lparr>sock_type := SOCKET_TYPE_RESERVE, sock_id := i, fd := - 1\<rparr>)"
  by (simp add: reserved_def)

lemma reserved_live:
  assumes "table_ok st" and "free_slot st (HASH_ID i)"
  shows "live_ids (reserved i st) = insert i (live_ids st)" and "i \<notin> live_ids st"
proof -
  show "i \<notin> live_ids st" using assms by (auto simp: live_ids_def table_ok_def)
  show "live_ids (reserved i st) = insert i (live_ids st)"
  proof (intro set_eqI iffI)
    fix x assume "x \<in> live_ids (reserved i st)"
    then show "x \<in> insert i (live_ids st)" by (auto simp: live_ids_def reserved_slot split: if_splits)
  next
    fix x assume "x \<in> insert i (live_ids st)"
    then consider "x = i" | j where "x = sock_id (slot st j)" "j < MAX_SOCKET" "\<not> free_slot st j"
      by (auto simp: live_ids_def)
    then show "x \<in> live_ids (reserved i st)"
    proof cases
      case 1
      then show ?thesis unfolding live_ids_def by (intro CollectI exI [of _ "HASH_ID i"]) (simp add: reserved_slot)
    next
      case 2
      with assms(2) have "j \<noteq> HASH_ID i" by auto
      with 2 show ?thesis unfolding live_ids_def by (intro CollectI exI [of _ j]) (simp add: reserved_slot)
    qed
  qed
qed

lemma reserve_free:
  assumes "table_ok st" and "fst (reserve st) = Some i"
  shows "snd (reserve st) = reserved i st" and "free_slot st (HASH_ID i)" and "alloc_ok (reserved i st)"
  using reserve_id_cases [of st] assms later_id_ok
  by (auto simp: reserve_def table_ok_def reserved_def alloc_ok_def split: if_splits)

lemma reserve_none:
  assumes "table_ok st"
  shows "fst (reserve st) = None \<longleftrightarrow> (\<forall>i < MAX_SOCKET. \<not> free_slot st i)"
  using reserve_id_cases [of st] assms later_id_not_neg
  by (auto simp: reserve_def table_ok_def split: if_splits)

lemma reserve_table_ok:
  assumes "table_ok st"
  shows "table_ok (snd (reserve st))"
proof (cases "fst (reserve st)")
  case None
  then have "snd (reserve st) = st\<lparr>alloc_id := later_id (alloc_id st) MAX_SOCKET\<rparr>"
    using reserve_id_cases [of st] assms later_id_not_neg
    by (auto simp: reserve_def table_ok_def split: if_splits)
  with assms later_id_ok show ?thesis by (simp add: table_ok_def)
next
  case (Some i)
  with assms reserve_free [OF assms Some] show ?thesis
    by (auto simp: table_ok_def reserved_slot)
qed

interpretation ids: id_table reserve table_ok live_ids MAX_SOCKET
proof unfold_locales
  fix st i
  assume ok: "table_ok st"
  show "finite (live_ids st) \<and> card (live_ids st) \<le> MAX_SOCKET"
    using live_ids_card [OF ok] used_card [of st] by simp
  show "fst (reserve st) = None \<longleftrightarrow> card (live_ids st) = MAX_SOCKET"
    by (simp add: live_ids_card [OF ok] used_full reserve_none [OF ok])
  show "table_ok (snd (reserve st))" by (rule reserve_table_ok [OF ok])
  show "i \<notin> live_ids st \<and> live_ids (snd (reserve st)) = insert i (live_ids st)"
    if "fst (reserve st) = Some i"
    using reserve_free [OF ok that] reserved_live [OF ok] by simp
qed

text \<open>A row of calls to \<open>reserve_id\<close>, with their results.\<close>

primrec reserve_ids :: "nat \<Rightarrow> server \<Rightarrow> u32 list \<times> server" where
  "reserve_ids 0 st = ([], st)"
| "reserve_ids (Suc n) st =
     (let (i, st) = reserve_id st; (is, st) = reserve_ids n st in (i # is, st))"

lemma reserve_ids_reserves:
  "fst (ids.reserves n st) = map Some is \<Longrightarrow> reserve_ids n st = (is, snd (ids.reserves n st))"
  by (induction n arbitrary: st "is") (auto simp: reserve_def case_prod_beta Let_def split: if_splits)

section \<open>Properties\<close>

text \<open>A state in which no socket is in use, for concrete runs.\<close>

definition blank_socket :: socket where
  "blank_socket = \<lparr>opaque = 0, high = [], low = [], wb_size = 0, fd = 0, sock_id = 0,
     protocol = 0, sock_type = SOCKET_TYPE_INVALID, rd_size = 64\<rparr>"

definition blank_server :: server where
  "blank_server = \<lparr>recvctrl_fd = 4, sendctrl_fd = 5, checkctrl = True, event_fd = 3, alloc_id = 0,
     event_n = 0, event_index = 0,
     ev = replicate MAX_EVENT \<lparr>ev_s = None, ev_read = False, ev_write = False\<rparr>,
     slot = (\<lambda>_. blank_socket), buffer = [], trace = []\<rparr>"

lemma blank_free [simp]: "free_slot blank_server i"
  by (simp add: blank_server_def blank_socket_def)

lemma blank_table_ok: "table_ok blank_server"
  by (simp add: table_ok_def alloc_ok_def blank_server_def blank_socket_def)

text \<open>
  C15: reserving a socket number. In a well-formed table \<open>reserve_id\<close> returns \<open>-1\<close> exactly when
  every slot is in use, and then changes no slot. Otherwise it returns a non-negative number that
  no socket in use has, whose slot was free and is now reserved under that number; no other slot
  changes, and the table stays well formed, across the wrap-around of the 31-bit counter.
\<close>

theorem reserve_id_spec:
  assumes "table_ok st"
  shows "if \<forall>i < MAX_SOCKET. \<not> free_slot st i
    then fst (reserve_id st) = - 1 \<and> slot (snd (reserve_id st)) = slot st
    else (\<exists>i st'. reserve_id st = (i, st') \<and> 0 \<le> sint i \<and> i \<notin> live_ids st \<and>
      free_slot st (HASH_ID i) \<and> table_ok st' \<and>
      slot st' = (slot st)(HASH_ID i := (slot st (HASH_ID i))
        \<lparr>sock_type := SOCKET_TYPE_RESERVE, sock_id := i, fd := - 1\<rparr>))"
proof (cases "\<forall>i < MAX_SOCKET. \<not> free_slot st i")
  case True
  have "alloc_ok st" using assms by (simp add: table_ok_def)
  from reserve_id_cases [OF this] True HASH_ID_less show ?thesis by auto
next
  case False
  then obtain i where i: "fst (reserve st) = Some i"
    using reserve_none [OF assms] by blast
  note new = reserve_free [OF assms i]
  have "reserve_id st = (i, reserved i st)" "i \<noteq> - 1"
    using i new(1) by (auto simp: reserve_def case_prod_beta Let_def prod_eq_iff split: if_splits)
  moreover have "0 \<le> sint i"
  proof -
    have "unat i < 2147483648" using new(3) by (simp add: alloc_ok_def reserved_def)
    then show ?thesis by (simp add: sint_small)
  qed
  ultimately show ?thesis
    using False new reserved_live(2) [OF assms new(2)] reserve_table_ok [OF assms]
    by (auto simp: reserved_slot)
qed

theorem reserve_id_spec_witness:
  "\<exists>i st'. reserve_id blank_server = (i, st') \<and> sock_type (slot st' (HASH_ID i)) = SOCKET_TYPE_RESERVE"
proof -
  have free: "\<not> (\<forall>i < MAX_SOCKET. \<not> free_slot blank_server i)"
    by (auto simp: MAX_SOCKET_def intro: exI [of _ 0])
  show ?thesis
    using reserve_id_spec [OF blank_table_ok] unfolding if_not_P [OF free] by fastforce
qed

text \<open>
  The table can be filled. From any well-formed table, \<open>n\<close> reservations in a row with at
  least \<open>n\<close> free slots return \<open>n\<close> different numbers, none of them in use before; when they have
  taken the last slot, the next reservation returns \<open>-1\<close>.
\<close>

theorem reserve_ids_fill:
  assumes "table_ok st" and "card (live_ids st) + n \<le> MAX_SOCKET"
  shows "\<exists>is st'. reserve_ids n st = (is, st') \<and> length is = n \<and> distinct is \<and>
    - 1 \<notin> set is \<and> set is \<inter> live_ids st = {} \<and> live_ids st' = set is \<union> live_ids st \<and>
    (card (live_ids st) + n = MAX_SOCKET \<longrightarrow> fst (reserve_id st') = - 1)"
proof -
  obtain "is" where f: "fst (ids.reserves n st) = map Some is" "distinct is"
      "set is \<inter> live_ids st = {}" "live_ids (snd (ids.reserves n st)) = set is \<union> live_ids st"
    using ids.reserves_fill [OF assms] by blast
  have run: "reserve_ids n st = (is, snd (ids.reserves n st))" by (rule reserve_ids_reserves [OF f(1)])
  moreover have "length (fst (reserve_ids n s)) = n" for s
    by (induction n arbitrary: s) (simp_all add: case_prod_beta Let_def)
  then have "length is = n" using run by (metis fst_conv)
  moreover have "Some (- 1) \<notin> set (fst (ids.reserves n s))" for s
    by (induction n arbitrary: s) (auto simp: reserve_def case_prod_beta Let_def split: if_splits)
  then have "- 1 \<notin> set is" using f(1) by (metis image_eqI list.set_map)
  moreover have "fst (reserve_id (snd (ids.reserves n st))) = - 1"
    if "card (live_ids st) + n = MAX_SOCKET"
    using ids.reserves_then_full [OF assms(1) that]
    by (simp add: reserve_def case_prod_beta Let_def split: if_splits)
  ultimately show ?thesis using f by blast
qed

theorem reserve_ids_fill_witness:
  "\<exists>is st'. reserve_ids 65536 blank_server = (is, st') \<and> distinct is \<and> length is = 65536 \<and>
     fst (reserve_id st') = - 1"
proof -
  have "live_ids blank_server = {}" by (simp add: live_ids_def)
  then show ?thesis using reserve_ids_fill [OF blank_table_ok, of 65536] by (auto simp: MAX_SOCKET_def)
qed

end
