(* ===== verification/Socket_Request.thy ===== *)
theory Socket_Request
  imports Socket_Table
begin

text \<open>
  The requests of the gate server: the packages \<^verbatim>\<open>struct request_package\<close> of
  \<^verbatim>\<open>gateserver/socket_server.h\<close>, byte by byte, the operations of \<^verbatim>\<open>socket_server.cpp\<close> that other
  threads call and that write a package to the control pipe, and \<open>block_readpipe\<close> on its other end.

  A package is the list of its 520 bytes: eight header bytes, the 256 bytes of the union, whose
  members start at offset 8 with the layout of x86-64, and 256 spare bytes. The local variable
  starts with whatever was on the stack, the argument \<open>pkg\<close>.
\<close>

section \<open>Bytes of machine integers, low byte first\<close>

definition le32 :: "u32 \<Rightarrow> byte list" where
  "le32 w = map (\<lambda>k. ucast (drop_bit (8 * k) w)) [0, 1, 2, 3]"

definition le64 :: "u64 \<Rightarrow> byte list" where
  "le64 w = map (\<lambda>k. ucast (drop_bit (8 * k) w)) [0, 1, 2, 3, 4, 5, 6, 7]"

definition get32 :: "byte list \<Rightarrow> nat \<Rightarrow> u32" where
  "get32 b p = foldr (\<lambda>k w. push_bit 8 w OR ucast (b ! (p + k))) [0, 1, 2, 3] 0"

definition get64 :: "byte list \<Rightarrow> nat \<Rightarrow> u64" where
  "get64 b p = foldr (\<lambda>k w. push_bit 8 w OR ucast (b ! (p + k))) [0, 1, 2, 3, 4, 5, 6, 7] 0"

text \<open>Stores into a buffer; outside it they are undefined.\<close>

definition poke :: "byte list \<Rightarrow> nat \<Rightarrow> byte list \<Rightarrow> byte list option" where
  "poke b p xs = memcpy_at b p xs 0 (length xs)"

definition put_int :: "byte list \<Rightarrow> nat \<Rightarrow> int \<Rightarrow> byte list option" where
  "put_int b p n = poke b p (le32 (word_of_int n))"

definition get_int :: "byte list \<Rightarrow> nat \<Rightarrow> int" where
  "get_int b p = sint (get32 b p)"

definition text_bytes :: "string \<Rightarrow> byte list" where
  "text_bytes t = map of_char t"

text \<open>The C string that starts at offset \<open>p\<close>; without a final zero byte it is undefined.\<close>

definition c_string :: "byte list \<Rightarrow> nat \<Rightarrow> string option" where
  "c_string b p =
     (if 0 \<in> set (drop p b) then Some (map (\<lambda>x. char_of (unat x)) (takeWhile (\<lambda>x. x \<noteq> 0) (drop p b)))
      else None)"

text \<open>\<^verbatim>\<open>sprintf\<close> with \<^verbatim>\<open>%d\<close>.\<close>

fun decimal :: "nat \<Rightarrow> string" where
  "decimal n = (if n < 10 then [char_of (48 + n)] else decimal (n div 10) @ [char_of (48 + n mod 10)])"

declare decimal.simps [simp del]

definition show_int :: "int \<Rightarrow> string" where
  "show_int n = (if n < 0 then CHR ''-'' # decimal (nat (- n)) else decimal (nat n))"

section \<open>The structures read from the pipe\<close>

record request_open = o_id :: u32  o_port :: int  o_opaque :: u64  o_host :: "string option"
record request_send = d_id :: u32  d_sz :: int  d_buffer :: u64
record request_close = k_id :: u32  k_opaque :: u64
record request_listen = l_id :: u32  l_fd :: int  l_opaque :: u64
record request_bind = b_id :: u32  b_fd :: int  b_opaque :: u64
record request_start = s_id :: u32  s_opaque :: u64
record request_setopt = t_id :: u32  t_what :: int  t_value :: int

definition as_open :: "byte list \<Rightarrow> request_open" where
  "as_open b = \<lparr>o_id = get32 b 0, o_port = get_int b 4, o_opaque = get64 b 8, o_host = c_string b 16\<rparr>"

definition as_send :: "byte list \<Rightarrow> request_send" where
  "as_send b = \<lparr>d_id = get32 b 0, d_sz = get_int b 4, d_buffer = get64 b 8\<rparr>"

definition as_close :: "byte list \<Rightarrow> request_close" where
  "as_close b = \<lparr>k_id = get32 b 0, k_opaque = get64 b 8\<rparr>"

definition as_listen :: "byte list \<Rightarrow> request_listen" where
  "as_listen b = \<lparr>l_id = get32 b 0, l_fd = get_int b 4, l_opaque = get64 b 8\<rparr>"

definition as_bind :: "byte list \<Rightarrow> request_bind" where
  "as_bind b = \<lparr>b_id = get32 b 0, b_fd = get_int b 4, b_opaque = get64 b 8\<rparr>"

definition as_start :: "byte list \<Rightarrow> request_start" where
  "as_start b = \<lparr>s_id = get32 b 0, s_opaque = get64 b 8\<rparr>"

definition as_setopt :: "byte list \<Rightarrow> request_setopt" where
  "as_setopt b = \<lparr>t_id = get32 b 0, t_what = get_int b 4, t_value = get_int b 8\<rparr>"

section \<open>The two ends of the pipe\<close>

text \<open>The write loop retries after every error, whatever it is, and asserts a full write.\<close>

partial_function (option) send_loop :: "os \<Rightarrow> byte list \<Rightarrow> server \<Rightarrow> server option" where
  "send_loop os msg st =
     (let (r, st) = sys os (Write (sendctrl_fd st) msg) st in
      if ret r < 0 then send_loop os msg st
      else if ret r = int (length msg) then Some st
      else None)"

definition send_request :: "os \<Rightarrow> byte list \<Rightarrow> char \<Rightarrow> nat \<Rightarrow> server \<Rightarrow> server option" where
  "send_request os pkg ty len st = do {
     pkg \<leftarrow> poke pkg 6 [of_char ty];
     pkg \<leftarrow> poke pkg 7 [word_of_nat len];
     send_loop os (take (len + 2) (drop 6 pkg)) st }"

text \<open>The read retries after an interrupt, gives up on any other error with the buffer as it was,
  and asserts that as many bytes came as were asked for.\<close>

partial_function (option) block_readpipe ::
  "os \<Rightarrow> int \<Rightarrow> byte list \<Rightarrow> nat \<Rightarrow> server \<Rightarrow> (byte list \<times> server) option" where
  "block_readpipe os pipefd buf sz st =
     (let (r, st) = sys os (Read pipefd sz) st in
      if ret r < 0
      then (if errno r = EINTR then block_readpipe os pipefd buf sz st else Some (buf, st))
      else if ret r = int sz
      then map_option (\<lambda>b. (b, st)) (poke buf 0 (take sz (r_bytes r)))
      else None)"

section \<open>Requests of other threads\<close>

definition server_start :: "os \<Rightarrow> byte list \<Rightarrow> u64 \<Rightarrow> u32 \<Rightarrow> server \<Rightarrow> server option" where
  "server_start os pkg opq i st = do {
     pkg \<leftarrow> poke pkg 8 (le32 i);
     pkg \<leftarrow> poke pkg 16 (le64 opq);
     send_request os pkg (CHR ''S'') 16 st }"

definition server_close :: "os \<Rightarrow> byte list \<Rightarrow> u64 \<Rightarrow> u32 \<Rightarrow> server \<Rightarrow> server option" where
  "server_close os pkg opq i st = do {
     pkg \<leftarrow> poke pkg 8 (le32 i);
     pkg \<leftarrow> poke pkg 16 (le64 opq);
     send_request os pkg (CHR ''K'') 16 st }"

definition server_exit :: "os \<Rightarrow> byte list \<Rightarrow> server \<Rightarrow> server option" where
  "server_exit os pkg st = send_request os pkg (CHR ''X'') 0 st"

definition server_bind :: "os \<Rightarrow> byte list \<Rightarrow> u64 \<Rightarrow> int \<Rightarrow> server \<Rightarrow> (u32 \<times> server) option" where
  "server_bind os pkg opq f st =
     (let (i, st) = reserve_id st in
      if sint i < 0 then Some (- 1, st)
      else do {
        pkg \<leftarrow> poke pkg 16 (le64 opq);
        pkg \<leftarrow> poke pkg 8 (le32 i);
        pkg \<leftarrow> put_int pkg 12 f;
        st \<leftarrow> send_request os pkg (CHR ''B'') 16 st;
        Some (i, st) })"

text \<open>\<^verbatim>\<open>server_send\<close> returns the number of bytes waiting, or \<open>-1\<close> for a socket not in use.\<close>

definition server_send :: "os \<Rightarrow> byte list \<Rightarrow> u32 \<Rightarrow> u64 \<Rightarrow> int \<Rightarrow> server \<Rightarrow> (int \<times> server) option" where
  "server_send os pkg i buf sz st =
     (let s = slot st (HASH_ID i) in
      if i \<noteq> sock_id s \<or> sock_type s = SOCKET_TYPE_INVALID then Some (- 1, st)
      else do {
        pkg \<leftarrow> poke pkg 8 (le32 i);
        pkg \<leftarrow> put_int pkg 12 sz;
        pkg \<leftarrow> poke pkg 16 (le64 buf);
        st \<leftarrow> send_request os pkg (CHR ''D'') 16 st;
        Some (wb_size (slot st (HASH_ID i)), st) })"

text \<open>\<open>open_request\<close> fills the package and returns the length of the host name, or \<open>-1\<close>.\<close>

definition open_request ::
  "byte list \<Rightarrow> u64 \<Rightarrow> string \<Rightarrow> int \<Rightarrow> server \<Rightarrow> ((nat \<times> byte list \<times> u32) option \<times> server) option" where
  "open_request pkg opq addr port st =
     (let len = length addr in
      if len + 24 > 256 then Some (None, st)
      else let (i, st) = reserve_id st in
        if sint i < 0 then Some (None, st)
        else do {
          pkg \<leftarrow> poke pkg 16 (le64 opq);
          pkg \<leftarrow> poke pkg 8 (le32 i);
          pkg \<leftarrow> put_int pkg 12 port;
          pkg \<leftarrow> poke pkg 24 (text_bytes addr);
          pkg \<leftarrow> poke pkg (24 + len) [0];
          Some (Some (len, pkg, i), st) })"

definition server_connect ::
  "os \<Rightarrow> byte list \<Rightarrow> u64 \<Rightarrow> string \<Rightarrow> int \<Rightarrow> server \<Rightarrow> (u32 \<times> server) option" where
  "server_connect os pkg opq addr port st = do {
     (req, st) \<leftarrow> open_request pkg opq addr port st;
     (case req of
        None \<Rightarrow> Some (- 1, st)
      | Some (len, pkg, i) \<Rightarrow> do {
          st \<leftarrow> send_request os pkg (CHR ''O'') (24 + len) st;
          Some (i, st) }) }"

text \<open>Binding and listening; the pointers \<^verbatim>\<open>host\<close> and \<^verbatim>\<open>ai_list\<close> may be null.\<close>

definition do_bind ::
  "os \<Rightarrow> string option \<Rightarrow> int \<Rightarrow> int \<Rightarrow> server \<Rightarrow> (int \<times> server) option" where
  "do_bind os host port proto st =
     (let host = (case host of None \<Rightarrow> ''0.0.0.0'' | Some h \<Rightarrow> if h = [] then ''0.0.0.0'' else h);
          socktype = (if proto = 6 then Some 1 else if proto = 17 then Some 2 else None) in
      Option.bind socktype (\<lambda>ty.
      let (r, st) = sys os (Getaddrinfo host (show_int port) ty proto) st in
      if ret r \<noteq> 0 then Some (- 1, st)
      else case r_addrs r of
        [] \<Rightarrow> None
      | ai # rest \<Rightarrow>
          let (f, st) = sys os (Socket (ai_family ai) (ai_socktype ai) 0) st in
          if ret f < 0 then Some (- 1, emit (Freeaddrinfo (ai # rest)) st)
          else let (o1, st) = sys os (Set_reuse (ret f)) st in
            if ret o1 = - 1
            then Some (- 1, emit (Freeaddrinfo (ai # rest)) (emit (Close (ret f)) st))
            else let (b, st) = sys os (Bind (ret f) (ai_addr ai)) st in
              if ret b \<noteq> 0
              then Some (- 1, emit (Freeaddrinfo (ai # rest)) (emit (Close (ret f)) st))
              else Some (ret f, emit (Freeaddrinfo (ai # rest)) st)))"

definition do_listen :: "os \<Rightarrow> string option \<Rightarrow> int \<Rightarrow> int \<Rightarrow> server \<Rightarrow> (int \<times> server) option" where
  "do_listen os host port backlog st = do {
     (f, st) \<leftarrow> do_bind os host port 6 st;
     if f < 0 then Some (- 1, st)
     else let (r, st) = sys os (Listen f backlog) st in
       if ret r = - 1 then Some (- 1, emit (Close f) st)
       else Some (f, st) }"

definition server_listen ::
  "os \<Rightarrow> byte list \<Rightarrow> u64 \<Rightarrow> string option \<Rightarrow> int \<Rightarrow> int \<Rightarrow> server \<Rightarrow> (u32 \<times> server) option" where
  "server_listen os pkg opq addr port backlog st = do {
     (f, st) \<leftarrow> do_listen os addr port backlog st;
     if f < 0 then Some (- 1, st)
     else let (i, st) = reserve_id st in
       if sint i < 0 then Some (i, emit (Close f) st)
       else do {
         pkg \<leftarrow> poke pkg 16 (le64 opq);
         pkg \<leftarrow> poke pkg 8 (le32 i);
         pkg \<leftarrow> put_int pkg 12 f;
         st \<leftarrow> send_request os pkg (CHR ''L'') 24 st;
         Some (i, st) } }"

end
