(* ===== verification/Socket_Handlers.thy ===== *)
theory Socket_Handlers
  imports Socket_Request
begin

text \<open>
  The handlers of the gate server, \<^verbatim>\<open>gateserver/socket_server.cpp\<close>: what the polling thread does
  with a request from the control pipe or with an event on a socket. A handler returns the number
  the code returns (a message kind, or \<open>-1\<close> for none), the new state and the message it filled in.
  A failed assertion, a null pointer used, and signed overflow are \<^const>\<open>None\<close>.
\<close>

type_synonym outcome = "(int \<times> server \<times> message) option"

abbreviation (input) no_message :: int where "no_message \<equiv> - 1"

section \<open>Slots\<close>

definition new_socket ::
  "os \<Rightarrow> u32 \<Rightarrow> int \<Rightarrow> u16 \<Rightarrow> u64 \<Rightarrow> bool \<Rightarrow> server \<Rightarrow> (nat option \<times> server) option" where
  "new_socket os i f proto opq add st =
     (let k = HASH_ID i in
      if sock_type (slot st k) \<noteq> SOCKET_TYPE_RESERVE then None
      else let (failed, st) = (if add then ep_add os f (Some k) st else (False, st)) in
        if failed then Some (None, set_slot k (\<lambda>s. s\<lparr>sock_type := SOCKET_TYPE_INVALID\<rparr>) st)
        else Some (Some k, set_slot k
               (\<lambda>s. s\<lparr>sock_id := i, fd := f, protocol := proto, opaque := opq\<rparr>) st))"

definition set_type :: "nat \<Rightarrow> u16 \<Rightarrow> server \<Rightarrow> server" where
  "set_type k ty st = set_slot k (\<lambda>s. s\<lparr>sock_type := ty\<rparr>) st"

definition send_buffer_empty :: "socket \<Rightarrow> bool" where
  "send_buffer_empty s \<longleftrightarrow> high s = [] \<and> low s = []"

definition force_close :: "nat \<Rightarrow> server \<Rightarrow> message \<Rightarrow> (server \<times> message) option" where
  "force_close k st m =
     (let s = slot st k;
          m = m\<lparr>msg_id := sock_id s, msg_ud := 0, msg_data := Nullptr, msg_opaque := opaque s\<rparr> in
      if sock_type s = SOCKET_TYPE_INVALID then Some (st, m)
      else if sock_type s = SOCKET_TYPE_RESERVE then None
      else
        let st = set_slot k (\<lambda>s. s\<lparr>high := [], low := []\<rparr>) st;
            st = (if sock_type s \<noteq> SOCKET_TYPE_PACCEPT \<and> sock_type s \<noteq> SOCKET_TYPE_PLISTEN
                  then ep_del (fd s) st else st);
            st = (if sock_type s \<noteq> SOCKET_TYPE_BIND then emit (Close (fd s)) st else st)
        in Some (set_type k SOCKET_TYPE_INVALID st, m))"

section \<open>Requests\<close>

definition listen_socket :: "os \<Rightarrow> request_listen \<Rightarrow> server \<Rightarrow> message \<Rightarrow> outcome" where
  "listen_socket os req st m = do {
     (s, st) \<leftarrow> new_socket os (l_id req) (l_fd req) PROTOCOL_TCP (l_opaque req) False st;
     (case s of
        Some k \<Rightarrow> Some (no_message, set_type k SOCKET_TYPE_PLISTEN st, m)
      | None \<Rightarrow> Some (SOCKET_ERROR,
          set_type (HASH_ID (l_id req)) SOCKET_TYPE_INVALID (emit (Close (l_fd req)) st),
          m\<lparr>msg_opaque := l_opaque req, msg_id := l_id req, msg_ud := 0, msg_data := Nullptr\<rparr>)) }"

definition start_socket :: "os \<Rightarrow> request_start \<Rightarrow> server \<Rightarrow> message \<Rightarrow> outcome" where
  "start_socket os req st m =
     (let i = s_id req; k = HASH_ID i;
          m = m\<lparr>msg_id := i, msg_opaque := s_opaque req, msg_ud := 0, msg_data := Nullptr\<rparr>;
          s = slot st k in
      if sock_type s = SOCKET_TYPE_INVALID \<or> sock_id s \<noteq> i then Some (SOCKET_ERROR, st, m)
      else if sock_type s = SOCKET_TYPE_PACCEPT \<or> sock_type s = SOCKET_TYPE_PLISTEN then
        let (failed, st) = ep_add os (fd s) (Some k) st in
        if failed then Some (SOCKET_ERROR, set_type k SOCKET_TYPE_INVALID st, m)
        else
          let st = set_type k (if sock_type s = SOCKET_TYPE_PACCEPT then SOCKET_TYPE_CONNECTED
                               else SOCKET_TYPE_LISTEN) st;
              st = set_slot k (\<lambda>s. s\<lparr>opaque := s_opaque req\<rparr>) st
          in Some (SOCKET_OPEN, st, m\<lparr>msg_data := Literal ''start''\<rparr>)
      else if sock_type s = SOCKET_TYPE_CONNECTED then
        Some (SOCKET_OPEN, set_slot k (\<lambda>s. s\<lparr>opaque := s_opaque req\<rparr>) st,
              m\<lparr>msg_data := Literal ''transfer''\<rparr>)
      else Some (no_message, st, m))"

text \<open>\<^verbatim>\<open>fcntl\<close> and \<^verbatim>\<open>setsockopt\<close>: their results are not used further.\<close>

definition keepalive :: "int \<Rightarrow> server \<Rightarrow> server" where
  "keepalive f st = emit (Set_keepalive f) st"

definition nonblocking :: "os \<Rightarrow> int \<Rightarrow> server \<Rightarrow> server" where
  "nonblocking os f st =
     (let (r, st) = sys os (Fcntl_getfl f) st in
      if ret r = - 1 then st else emit (Fcntl_setfl f (ret r OR O_NONBLOCK)) st)"

definition bind_socket :: "os \<Rightarrow> request_bind \<Rightarrow> server \<Rightarrow> message \<Rightarrow> outcome" where
  "bind_socket os req st m =
     (let m = m\<lparr>msg_id := b_id req, msg_opaque := b_opaque req, msg_ud := 0\<rparr> in
      do {
        (s, st) \<leftarrow> new_socket os (b_id req) (b_fd req) PROTOCOL_TCP (b_opaque req) True st;
        (case s of
           None \<Rightarrow> Some (SOCKET_ERROR, st, m\<lparr>msg_data := Nullptr\<rparr>)
         | Some k \<Rightarrow> Some (SOCKET_OPEN, set_type k SOCKET_TYPE_BIND (nonblocking os (b_fd req) st),
                           m\<lparr>msg_data := Literal ''binding''\<rparr>)) })"

text \<open>
  The loop over the addresses. Its condition tests \<^verbatim>\<open>ai_list\<close>, which never changes, so that after
  the last address of a list that was not empty the null pointer is used. The result is the socket,
  the status of its \<^verbatim>\<open>connect\<close> and the address it belongs to.
\<close>

fun connect_loop ::
  "os \<Rightarrow> addrinfo list \<Rightarrow> server \<Rightarrow> ((int \<times> int \<times> addrinfo) \<times> server) option" where
  "connect_loop os [] st = None"
| "connect_loop os (ai # rest) st =
     (let (r, st) = sys os (Socket (ai_family ai) (ai_socktype ai) (ai_protocol ai)) st in
      if ret r < 0 then connect_loop os rest st
      else
        let sock = ret r;
            st = nonblocking os sock (keepalive sock st);
            (c, st) = sys os (Connect sock (ai_addr ai)) st in
        if ret c \<noteq> 0 \<and> errno c \<noteq> EINPROGRESS
        then connect_loop os rest (emit (Close sock) st)
        else Some ((sock, ret c, ai), st))"

text \<open>\<^verbatim>\<open>inet_ntop\<close> into the server's text buffer: the buffer changes when it succeeds.\<close>

definition name_peer :: "os \<Rightarrow> sockaddr \<Rightarrow> server \<Rightarrow> bool \<times> server" where
  "name_peer os a st =
     (let (r, st) = sys os (Inet_ntop (sa_family a) (sa_addr a) MAX_INFO) st in
      if ret r \<noteq> 0 then (True, st\<lparr>buffer := r_text r\<rparr>) else (False, st))"

definition open_socket :: "os \<Rightarrow> request_open \<Rightarrow> server \<Rightarrow> message \<Rightarrow> outcome" where
  "open_socket os req st m =
     (let i = o_id req;
          m = m\<lparr>msg_id := i, msg_opaque := o_opaque req, msg_ud := 0, msg_data := Nullptr\<rparr> in
      Option.bind (o_host req) (\<lambda>host.
      let (r, st) = sys os (Getaddrinfo host (show_int (o_port req)) 1 6) st in
      if ret r \<noteq> 0 \<or> r_addrs r = []
      then Some (SOCKET_ERROR,
             set_type (HASH_ID i) SOCKET_TYPE_INVALID (emit (Freeaddrinfo []) st), m)
      else do {
        ((sock, status, ai), st) \<leftarrow> connect_loop os (r_addrs r) st;
        (s, st) \<leftarrow> new_socket os i sock PROTOCOL_TCP (o_opaque req) True st;
        k \<leftarrow> s;
        if status = 0
        then
          let (named, st) = name_peer os (ai_addr ai) (set_type k SOCKET_TYPE_CONNECTED st) in
          Some (SOCKET_OPEN, emit (Freeaddrinfo (r_addrs r)) st,
                if named then m\<lparr>msg_data := Info (buffer st)\<rparr> else m)
        else
          let st = set_type k SOCKET_TYPE_CONNECTING st;
              st = ep_write (fd (slot st k)) (Some k) True st in
          Some (no_message, emit (Freeaddrinfo (r_addrs r)) st, m) }))"

definition setopt_socket :: "request_setopt \<Rightarrow> server \<Rightarrow> server" where
  "setopt_socket req st =
     (let s = slot st (HASH_ID (t_id req)) in
      if sock_type s = SOCKET_TYPE_INVALID \<or> sock_id s \<noteq> t_id req then st
      else emit (Set_tcp_option (fd s) (t_what req) (t_value req)) st)"

section \<open>Sending\<close>

text \<open>
  One attempt after another to write the head of a list, until the operating system takes
  something or reports an error other than an interrupt.
\<close>

datatype write_result = Wrote int | Again | Broken

partial_function (option) write_retry ::
  "os \<Rightarrow> int \<Rightarrow> u64 \<Rightarrow> int \<Rightarrow> server \<Rightarrow> (write_result \<times> server) option" where
  "write_retry os f p sz st =
     (let (r, st) = sys os (Write_mem f p sz) st in
      if ret r < 0
      then (if errno r = EINTR then write_retry os f p sz st
            else if errno r = EAGAIN then Some (Again, st)
            else Some (Broken, st))
      else Some (Wrote (ret r), st))"

text \<open>\<open>upd\<close> stores the rest of the list back into the slot (the code works on it in place).\<close>

fun send_list_tcp ::
  "os \<Rightarrow> nat \<Rightarrow> (write_buffer list \<Rightarrow> socket \<Rightarrow> socket) \<Rightarrow> write_buffer list \<Rightarrow>
   server \<Rightarrow> message \<Rightarrow> outcome" where
  "send_list_tcp os k upd [] st m = Some (no_message, set_slot k (upd []) st, m)"
| "send_list_tcp os k upd (w # ws) st m = do {
     (res, st) \<leftarrow> write_retry os (fd (slot st k)) (wb_ptr w) (wb_sz w) st;
     (case res of
        Again \<Rightarrow> Some (no_message, set_slot k (upd (w # ws)) st, m)
      | Broken \<Rightarrow> map_option (\<lambda>(st, m). (SOCKET_CLOSE, st, m)) (force_close k st m)
      | Wrote n \<Rightarrow>
          let st = set_slot k (\<lambda>s. s\<lparr>wb_size := wb_size s - n\<rparr>) st in
          if n \<noteq> wb_sz w
          then Some (no_message,
                 set_slot k (upd (w\<lparr>wb_ptr := wb_ptr w + word_of_int n, wb_sz := wb_sz w - n\<rparr> # ws)) st, m)
          else send_list_tcp os k upd ws (emit (Free (wb_buffer w)) st) m) }"

text \<open>The test compares the type of the slot, not its protocol, with \<^verbatim>\<open>PROTOCOL_TCP\<close>.\<close>

definition send_list ::
  "os \<Rightarrow> nat \<Rightarrow> (write_buffer list \<Rightarrow> socket \<Rightarrow> socket) \<Rightarrow> write_buffer list \<Rightarrow>
   server \<Rightarrow> message \<Rightarrow> outcome" where
  "send_list os k upd ws st m =
     (if sock_type (slot st k) = PROTOCOL_TCP then send_list_tcp os k upd ws st m
      else Some (0, st, m))"

definition list_uncomplete :: "write_buffer list \<Rightarrow> bool" where
  "list_uncomplete ws = (case ws of [] \<Rightarrow> False | w # _ \<Rightarrow> wb_ptr w \<noteq> wb_buffer w)"

definition raise_uncomplete :: "nat \<Rightarrow> server \<Rightarrow> server option" where
  "raise_uncomplete k st =
     (case low (slot st k) of
        [] \<Rightarrow> None
      | w # ws \<Rightarrow>
          if high (slot st k) \<noteq> [] then None
          else Some (set_slot k (\<lambda>s. s\<lparr>low := ws, high := [w]\<rparr>) st))"

definition send_buffer :: "os \<Rightarrow> nat \<Rightarrow> server \<Rightarrow> message \<Rightarrow> outcome" where
  "send_buffer os k st m =
     (if list_uncomplete (low (slot st k)) then None
      else do {
        (ty, st, m) \<leftarrow> send_list os k (\<lambda>ws s. s\<lparr>high := ws\<rparr>) (high (slot st k)) st m;
        if ty = SOCKET_CLOSE then Some (SOCKET_CLOSE, st, m)
        else if high (slot st k) \<noteq> [] then Some (no_message, st, m)
        else if low (slot st k) \<noteq> [] then do {
          (ty, st, m) \<leftarrow> send_list os k (\<lambda>ws s. s\<lparr>low := ws\<rparr>) (low (slot st k)) st m;
          if ty = SOCKET_CLOSE then Some (SOCKET_CLOSE, st, m)
          else if list_uncomplete (low (slot st k))
          then map_option (\<lambda>st. (no_message, st, m)) (raise_uncomplete k st)
          else Some (no_message, st, m) }
        else
          let st = ep_write (fd (slot st k)) (Some k) False st in
          if sock_type (slot st k) = SOCKET_TYPE_HALFCLOSE
          then map_option (\<lambda>(st, m). (SOCKET_CLOSE, st, m)) (force_close k st m)
          else Some (no_message, st, m) })"

definition close_socket :: "os \<Rightarrow> request_close \<Rightarrow> server \<Rightarrow> message \<Rightarrow> outcome" where
  "close_socket os req st m =
     (let i = k_id req; k = HASH_ID i; s = slot st k in
      if sock_type s = SOCKET_TYPE_INVALID \<or> sock_id s \<noteq> i
      then Some (SOCKET_CLOSE, st,
             m\<lparr>msg_id := i, msg_opaque := k_opaque req, msg_ud := 0, msg_data := Nullptr\<rparr>)
      else do {
        (ty, st, m) \<leftarrow> (if send_buffer_empty s then Some (0, st, m) else send_buffer os k st m);
        if \<not> send_buffer_empty s \<and> ty = no_message then Some (ty, st, m)
        else if send_buffer_empty (slot st k) then do {
          (st, m) \<leftarrow> force_close k st m;
          Some (SOCKET_CLOSE, st, m\<lparr>msg_id := i, msg_opaque := k_opaque req\<rparr>) }
        else Some (no_message, set_type k SOCKET_TYPE_HALFCLOSE st, m) })"

text \<open>Bytes the write leaves over are not kept anywhere.\<close>

definition send_socket :: "os \<Rightarrow> request_send \<Rightarrow> server \<Rightarrow> message \<Rightarrow> outcome" where
  "send_socket os req st m =
     (let i = d_id req; k = HASH_ID i; s = slot st k in
      if sock_type s = SOCKET_TYPE_INVALID \<or> sock_id s \<noteq> i \<or> sock_type s = SOCKET_TYPE_HALFCLOSE
         \<or> sock_type s = SOCKET_TYPE_PACCEPT
      then Some (no_message, st, m)
      else if sock_type s = SOCKET_TYPE_PLISTEN \<or> sock_type s = SOCKET_TYPE_LISTEN then None
      else if send_buffer_empty s \<and> sock_type s = SOCKET_TYPE_CONNECTED \<and> protocol s = PROTOCOL_TCP
      then
        let (r, st) = sys os (Write_mem (fd s) (d_buffer req) (d_sz req)) st in
        if ret r < 0 \<and> errno r \<noteq> EINTR \<and> errno r \<noteq> EAGAIN
        then map_option (\<lambda>(st, m). (SOCKET_CLOSE, st, m)) (force_close k st m)
        else
          let n = (if ret r < 0 then 0 else ret r) in
          if n = d_sz req then Some (no_message, st, m)
          else Some (no_message, ep_write (fd s) (Some k) True st, m)
      else Some (no_message, st, m))"

section \<open>Events\<close>

text \<open>
  A new client, once it is accepted as \<open>f\<close> from address \<open>a\<close> and given the number \<open>i\<close>. The text is
  the address and port, cut to the size of the buffer.
\<close>

definition name_client :: "os \<Rightarrow> sockaddr \<Rightarrow> server \<Rightarrow> message \<Rightarrow> bool \<times> server \<times> message" where
  "name_client os a st m =
     (let (t, st) = sys os (Inet_ntop (sa_family a) (sa_addr a) 46) st in
      if ret t \<noteq> 0
      then let txt = take (MAX_INFO - 1) (r_text t @ CHR '':'' # decimal (sa_port a)) in
        (True, st\<lparr>buffer := txt\<rparr>, m\<lparr>msg_data := Info txt\<rparr>)
      else (True, st, m))"

definition accept_client ::
  "os \<Rightarrow> nat \<Rightarrow> int \<Rightarrow> sockaddr \<Rightarrow> u32 \<Rightarrow> server \<Rightarrow> message \<Rightarrow> (bool \<times> server \<times> message) option" where
  "accept_client os k f a i st m = do {
     let st = nonblocking os f (keepalive f st);
     (ns, st) \<leftarrow> new_socket os i f PROTOCOL_TCP (opaque (slot st k)) False st;
     (case ns of
        None \<Rightarrow> Some (False, emit (Close f) st, m)
      | Some n \<Rightarrow>
          let st = set_type n SOCKET_TYPE_PACCEPT st;
              m = m\<lparr>msg_opaque := opaque (slot st k), msg_id := sock_id (slot st k),
                    msg_ud := sint i, msg_data := Nullptr\<rparr>
          in Some (name_client os a st m)) }"

definition report_accept :: "os \<Rightarrow> nat \<Rightarrow> server \<Rightarrow> message \<Rightarrow> (bool \<times> server \<times> message) option" where
  "report_accept os k st m =
     (let (r, st) = sys os (Accept (fd (slot st k))) st in
      if ret r < 0 then Some (False, st, m)
      else let (i, st) = reserve_id st in
        if sint i < 0 then Some (False, emit (Close (ret r)) st, m)
        else accept_client os k (ret r) (r_addr r) i st m)"

text \<open>The end of a pending connect. The peer's name is only printed when \<^verbatim>\<open>getpeername\<close> fails.\<close>

definition report_connect :: "os \<Rightarrow> nat \<Rightarrow> server \<Rightarrow> message \<Rightarrow> outcome" where
  "report_connect os k st m =
     (let (r, st) = sys os (Get_so_error (fd (slot st k))) st in
      if ret r < 0 \<or> r_value r \<noteq> 0
      then map_option (\<lambda>(st, m). (SOCKET_ERROR, st, m)) (force_close k st m)
      else
        let st = set_type k SOCKET_TYPE_CONNECTED st; s = slot st k;
            m = m\<lparr>msg_opaque := opaque s, msg_id := sock_id s, msg_ud := 0\<rparr>;
            st = (if send_buffer_empty s then ep_write (fd s) (Some k) False st else st);
            (p, st) = sys os (Getpeername (fd s)) st in
        if ret p \<noteq> 0
        then let (named, st) = name_peer os (r_addr p) st in
          Some (SOCKET_OPEN, st, if named then m\<lparr>msg_data := Info (buffer st)\<rparr>
                                 else m\<lparr>msg_data := Nullptr\<rparr>)
        else Some (SOCKET_OPEN, st, m\<lparr>msg_data := Nullptr\<rparr>))"

text \<open>The next read size: doubled after a full read, halved after a read of less than half. A
  product beyond \<^verbatim>\<open>int\<close> is undefined.\<close>

definition adapt_size :: "int \<Rightarrow> int \<Rightarrow> int option" where
  "adapt_size sz n =
     (if n = sz then (if sz * 2 > 2147483647 then None else Some (sz * 2))
      else if sz > MIN_READ_BUFFER then
        (if n * 2 > 2147483647 then None
         else if n * 2 < sz then Some (sz div 2) else Some sz)
      else Some sz)"

text \<open>Data to read: a block of the slot's read size is taken from the heap and filled.\<close>

definition forward_message_tcp :: "os \<Rightarrow> nat \<Rightarrow> server \<Rightarrow> message \<Rightarrow> outcome" where
  "forward_message_tcp os k st m =
     (let s = slot st k; sz = rd_size s;
          (p, st) = sys os (Malloc sz) st;
          (r, st) = sys os (Read_heap (fd s) (r_ptr p) sz) st;
          n = ret r in
      if n < 0
      then let st = emit (Free (r_ptr p)) st in
        if errno r = EINTR \<or> errno r = EAGAIN then Some (no_message, st, m)
        else map_option (\<lambda>(st, m). (no_message, st, m)) (force_close k st m)
      else if n = 0 then Some (no_message, emit (Free (r_ptr p)) st, m)
      else if sock_type s = SOCKET_TYPE_HALFCLOSE
      then Some (no_message, emit (Free (r_ptr p)) st, m)
      else
        do {
          sz' \<leftarrow> adapt_size sz n;
          Some (SOCKET_DATA, set_slot k (\<lambda>s. s\<lparr>rd_size := sz'\<rparr>) st,
            m\<lparr>msg_opaque := opaque s, msg_id := sock_id s, msg_ud := n,
              msg_data := Heap (r_ptr p) (r_bytes r)\<rparr>) })"

end
