(* ===== verification/Socket_Poll.thy ===== *)
theory Socket_Poll
  imports Socket_Handlers
begin

text \<open>
  The polling thread of the gate server, \<^verbatim>\<open>gateserver/socket_server.cpp\<close>: starting and releasing
  the server, taking a request from the control pipe, and \<open>poll\<close>, whose endless loop is split into
  its turns.

  Local variables that the code reads without having set them are the argument \<open>stk\<close>: what is on
  the stack, as any function of the calls made so far.
\<close>

section \<open>Start and release\<close>

definition init_slot :: "nat \<Rightarrow> server \<Rightarrow> server" where
  "init_slot i st =
     set_slot i (\<lambda>s. s\<lparr>sock_type := SOCKET_TYPE_INVALID, high := [], low := []\<rparr>) st"

definition initialize :: "os \<Rightarrow> server \<Rightarrow> server option" where
  "initialize os st =
     (let st = ep_create os st in
      if ep_invalid st then Some st
      else let (p, st) = sys os Pipe st in
        if ret p \<noteq> 0 then Some (ep_release st)
        else let (failed, st) = ep_add os (fst (r_fds p)) None st in
          if failed
          then Some (ep_release (emit (Close (snd (r_fds p))) (emit (Close (fst (r_fds p))) st)))
          else
            let st = st\<lparr>recvctrl_fd := fst (r_fds p), sendctrl_fd := snd (r_fds p), checkctrl := True\<rparr>;
                st = fold init_slot [0..<MAX_SOCKET] st;
                st = st\<lparr>alloc_id := 0, event_n := 0, event_index := 0\<rparr>
            in if recvctrl_fd st < FD_SETSIZE then Some st else None)"

primrec release_slots :: "nat list \<Rightarrow> server \<Rightarrow> message \<Rightarrow> (server \<times> message) option" where
  "release_slots [] st dummy = Some (st, dummy)"
| "release_slots (i # is) st dummy =
     (if sock_type (slot st i) \<noteq> SOCKET_TYPE_RESERVE
      then Option.bind (force_close i st dummy) (\<lambda>(st, dummy). release_slots is st dummy)
      else release_slots is st dummy)"

definition release :: "server \<Rightarrow> message \<Rightarrow> server option" where
  "release st dummy = do {
     (st, dummy) \<leftarrow> release_slots [0..<MAX_SOCKET] st dummy;
     Some (ep_release (emit (Close (recvctrl_fd st)) (emit (Close (sendctrl_fd st)) st))) }"

section \<open>The control pipe\<close>

definition has_cmd :: "os \<Rightarrow> server \<Rightarrow> bool \<times> server" where
  "has_cmd os st = (let (r, st) = sys os (Select (recvctrl_fd st)) st in (ret r = 1, st))"

definition stack_bytes :: "nat \<Rightarrow> byte list \<Rightarrow> byte list" where
  "stack_bytes n xs = take n (xs @ replicate n 0)"

text \<open>The switch over the kind of request, on a buffer cast to each structure.\<close>

definition dispatch :: "os \<Rightarrow> byte \<Rightarrow> byte list \<Rightarrow> server \<Rightarrow> message \<Rightarrow> outcome" where
  "dispatch os ty b st m =
     (if ty = of_char (CHR ''S'') then start_socket os (as_start b) st m
      else if ty = of_char (CHR ''B'') then bind_socket os (as_bind b) st m
      else if ty = of_char (CHR ''L'') then listen_socket os (as_listen b) st m
      else if ty = of_char (CHR ''K'') then close_socket os (as_close b) st m
      else if ty = of_char (CHR ''O'') then open_socket os (as_open b) st m
      else if ty = of_char (CHR ''X'')
      then Some (SOCKET_EXIT, st, m\<lparr>msg_opaque := 0, msg_ud := 0, msg_id := 0, msg_data := Nullptr\<rparr>)
      else if ty = of_char (CHR ''D'') then send_socket os (as_send b) st m
      else if ty = of_char (CHR ''T'') then Some (no_message, setopt_socket (as_setopt b) st, m)
      else Some (no_message, st, m))"

definition ctrl_cmd :: "os \<Rightarrow> (call list \<Rightarrow> byte list) \<Rightarrow> server \<Rightarrow> message \<Rightarrow> outcome" where
  "ctrl_cmd os stk st m = do {
     let header = stack_bytes 2 (stk (trace st));
     let buf = stack_bytes 256 (drop 2 (stk (trace st)));
     (header, st) \<leftarrow> block_readpipe os (recvctrl_fd st) header 2 st;
     (buf, st) \<leftarrow> block_readpipe os (recvctrl_fd st) buf (unat (header ! 1)) st;
     dispatch os (header ! 0) buf st m }"

section \<open>Polling\<close>

definition clear_event :: "server \<Rightarrow> u32 \<Rightarrow> event \<Rightarrow> event" where
  "clear_event st i e =
     (case ev_s e of
        None \<Rightarrow> e
      | Some k \<Rightarrow>
          if sock_type (slot st k) = SOCKET_TYPE_INVALID \<and> sock_id (slot st k) = i
          then e\<lparr>ev_s := None\<rparr> else e)"

definition clear_closed_event :: "message \<Rightarrow> int \<Rightarrow> server \<Rightarrow> server" where
  "clear_closed_event m ty st =
     (if ty = SOCKET_CLOSE \<or> ty = SOCKET_ERROR
      then fold (\<lambda>j st. st\<lparr>ev := (ev st)[j := clear_event st (msg_id m) (ev st ! j)]\<rparr>)
             [event_index st..<event_n st] st
      else st)"

text \<open>One turn of the loop either goes on or returns; \<open>mr\<close> is what \<^verbatim>\<open>*more\<close> holds.\<close>

datatype turn = Continue server message int | Return int server message int

definition ctrl_turn ::
  "os \<Rightarrow> (call list \<Rightarrow> byte list) \<Rightarrow> server \<Rightarrow> message \<Rightarrow> int \<Rightarrow> turn option" where
  "ctrl_turn os stk st m mr = do {
     (ty, st, m) \<leftarrow> ctrl_cmd os stk st m;
     if ty \<noteq> no_message then Some (Return ty (clear_closed_event m ty st) m mr)
     else Some (Continue st m mr) }"

definition event_turn :: "os \<Rightarrow> server \<Rightarrow> message \<Rightarrow> int \<Rightarrow> turn option" where
  "event_turn os st m mr =
     (let j = event_index st; e = ev st ! j; st = st\<lparr>event_index := j + 1\<rparr> in
      case ev_s e of
        None \<Rightarrow> Some (Continue st m mr)
      | Some k \<Rightarrow>
          let t = sock_type (slot st k) in
          if t = SOCKET_TYPE_CONNECTING then do {
            (ty, st, m) \<leftarrow> report_connect os k st m;
            Some (Return ty st m mr) }
          else if t = SOCKET_TYPE_LISTEN then do {
            (accepted, st, m) \<leftarrow> report_accept os k st m;
            Some (if accepted then Return SOCKET_ACCEPT st m mr else Continue st m mr) }
          else if t = SOCKET_TYPE_INVALID then Some (Continue st m mr)
          else if ev_read e then do {
            (ty, st, m) \<leftarrow> (if protocol (slot st k) = PROTOCOL_TCP then forward_message_tcp os k st m
                            else Some (no_message, st, m));
            let st = (if ev_write e
                      then st\<lparr>ev := (ev st)[j := e\<lparr>ev_read := False\<rparr>], event_index := j\<rparr> else st);
            if ty = no_message then Some (Continue st m mr)
            else Some (Return ty (clear_closed_event m ty st) m mr) }
          else if ev_write e then do {
            (ty, st, m) \<leftarrow> send_buffer os k st m;
            if ty = no_message then Some (Continue st m mr)
            else Some (Return ty (clear_closed_event m ty st) m mr) }
          else Some (Continue st m mr))"

definition wait_turn :: "os \<Rightarrow> server \<Rightarrow> message \<Rightarrow> int \<Rightarrow> turn option" where
  "wait_turn os st m mr =
     (if event_index st = event_n st
      then let (n, st) = ep_wait os MAX_EVENT st;
               st = st\<lparr>checkctrl := True, event_index := 0\<rparr> in
        if n \<le> 0 then Some (Return (- 1) (st\<lparr>event_n := 0\<rparr>) m 0)
        else event_turn os (st\<lparr>event_n := nat n\<rparr>) m 0
      else event_turn os st m mr)"

definition poll_turn ::
  "os \<Rightarrow> (call list \<Rightarrow> byte list) \<Rightarrow> server \<Rightarrow> message \<Rightarrow> int \<Rightarrow> turn option" where
  "poll_turn os stk st m mr =
     (if checkctrl st
      then let (cmd, st) = has_cmd os st in
        if cmd then ctrl_turn os stk st m mr
        else wait_turn os (st\<lparr>checkctrl := False\<rparr>) m mr
      else wait_turn os st m mr)"

partial_function (option) poll ::
  "os \<Rightarrow> (call list \<Rightarrow> byte list) \<Rightarrow> server \<Rightarrow> message \<Rightarrow> int \<Rightarrow> (int \<times> server \<times> message \<times> int) option"
  where
  "poll os stk st m mr =
     Option.bind (poll_turn os stk st m mr) (\<lambda>t.
       case t of
         Continue st m mr \<Rightarrow> poll os stk st m mr
       | Return ty st m mr \<Rightarrow> Some (ty, st, m, mr))"

end
