(* ===== verification/Socket_Safety.thy ===== *)
theory Socket_Safety
  imports Socket_Poll
begin

text \<open>
  The invariant of the gate server and the life cycle of its sockets. Every operation of the
  server is shown to keep the invariant and to move each slot's type only along the life cycle; the
  operations share that obligation as the locale \<open>handler\<close>.
\<close>

section \<open>The life cycle\<close>

text \<open>The steps of a slot's type, once it has been reserved.\<close>

inductive life_step :: "u16 \<Rightarrow> u16 \<Rightarrow> bool" where
  plisten: "life_step SOCKET_TYPE_RESERVE SOCKET_TYPE_PLISTEN"
| paccept: "life_step SOCKET_TYPE_RESERVE SOCKET_TYPE_PACCEPT"
| bound: "life_step SOCKET_TYPE_RESERVE SOCKET_TYPE_BIND"
| connecting: "life_step SOCKET_TYPE_RESERVE SOCKET_TYPE_CONNECTING"
| opened: "life_step SOCKET_TYPE_RESERVE SOCKET_TYPE_CONNECTED"
| listen: "life_step SOCKET_TYPE_PLISTEN SOCKET_TYPE_LISTEN"
| started: "life_step SOCKET_TYPE_PACCEPT SOCKET_TYPE_CONNECTED"
| connected: "life_step SOCKET_TYPE_CONNECTING SOCKET_TYPE_CONNECTED"
| closed: "t \<noteq> SOCKET_TYPE_INVALID \<Longrightarrow> life_step t SOCKET_TYPE_INVALID"

inductive_cases life_step_freeE [elim!]: "life_step SOCKET_TYPE_INVALID t"

inductive_simps life_step_to_half: "life_step t SOCKET_TYPE_HALFCLOSE"

abbreviation life :: "u16 \<Rightarrow> u16 \<Rightarrow> bool" where
  "life \<equiv> life_step\<^sup>*\<^sup>*"

lemma life_step_life [intro]: "life_step a b \<Longrightarrow> life a b"
  by (rule r_into_rtranclp)

lemma life_closed [simp]: "life t SOCKET_TYPE_INVALID"
  by (cases "t = SOCKET_TYPE_INVALID") (auto intro: life_step.intros)

lemmas life_intros = life_step.intros [THEN life_step_life]

text \<open>The life of a slot in one operation: along the steps, or a free slot is reserved first.\<close>

definition moves :: "u16 \<Rightarrow> u16 \<Rightarrow> bool" where
  "moves t t' \<longleftrightarrow> life t t' \<or> t = SOCKET_TYPE_INVALID \<and> life SOCKET_TYPE_RESERVE t'"

lemma moves_refl [simp]: "moves t t"
  by (simp add: moves_def)

lemma moves_life: "moves t t' \<Longrightarrow> life t' t'' \<Longrightarrow> moves t t''"
  unfolding moves_def by (meson rtranclp_trans)

section \<open>The invariant\<close>

text \<open>
  A slot is fine when its lists of unsent buffers are empty, its type is one of the eight that
  occur (\<^verbatim>\<open>SOCKET_TYPE_HALFCLOSE\<close> does not), and, when in use, its number belongs to it.
\<close>

definition socket_ok :: "nat \<Rightarrow> socket \<Rightarrow> bool" where
  "socket_ok k s \<longleftrightarrow> high s = [] \<and> low s = [] \<and>
     sock_type s \<le> SOCKET_TYPE_BIND \<and> sock_type s \<noteq> SOCKET_TYPE_HALFCLOSE \<and>
     (sock_type s \<noteq> SOCKET_TYPE_INVALID \<longrightarrow> HASH_ID (sock_id s) = k)"

fun pointer_ok :: "call \<Rightarrow> bool" where
  "pointer_ok (Epoll_add e f (Some k) fl) \<longleftrightarrow> k < MAX_SOCKET"
| "pointer_ok (Epoll_mod e f (Some k) fl) \<longleftrightarrow> k < MAX_SOCKET"
| "pointer_ok _ \<longleftrightarrow> True"

definition events_ok :: "server \<Rightarrow> bool" where
  "events_ok st \<longleftrightarrow> event_index st \<le> event_n st \<and> event_n st \<le> MAX_EVENT \<and> length (ev st) = MAX_EVENT \<and>
     (\<forall>j < event_n st. \<forall>k. ev_s (ev st ! j) = Some k \<longrightarrow> k < MAX_SOCKET)"

definition srv_ok :: "server \<Rightarrow> bool" where
  "srv_ok st \<longleftrightarrow> alloc_ok st \<and> (\<forall>k < MAX_SOCKET. socket_ok k (slot st k)) \<and>
     events_ok st \<and> (\<forall>c \<in> set (trace st). pointer_ok c)"

text \<open>What epoll promises: no more events than asked for, each with a pointer that was registered.\<close>

definition epoll_law :: "os \<Rightarrow> bool" where
  "epoll_law os \<longleftrightarrow> (\<forall>tr f m. let r = os tr (Epoll_wait f m) in
     ret r \<le> int m \<and> length (r_events r) = nat (ret r) \<and>
     (\<forall>e k. e \<in> set (r_events r) \<and> data_ptr e = Some k \<longrightarrow>
        (\<exists>f s fl. Epoll_add f s (Some k) fl \<in> set tr \<or> Epoll_mod f s (Some k) fl \<in> set tr)))"

text \<open>\<open>safe st st'\<close>: from \<open>st\<close>, the well-formed state \<open>st'\<close> was reached along the life cycle.\<close>

definition safe :: "server \<Rightarrow> server \<Rightarrow> bool" where
  "safe st st' \<longleftrightarrow> srv_ok st' \<and>
     (\<forall>k < MAX_SOCKET. moves (sock_type (slot st k)) (sock_type (slot st' k)))"

named_theorems safe_intros "rules that carry safe through the state operations"

lemma safe_refl: "srv_ok st \<Longrightarrow> safe st st"
  by (simp add: safe_def)

lemma safe_srv_ok: "safe st st' \<Longrightarrow> srv_ok st'"
  by (simp add: safe_def)

lemma safe_from: "safe b c \<Longrightarrow> slot a = slot b \<Longrightarrow> safe a c"
  by (simp add: safe_def)

lemma safe_emit [safe_intros]: "safe a st \<Longrightarrow> pointer_ok c \<Longrightarrow> safe a (emit c st)"
  by (simp add: safe_def srv_ok_def alloc_ok_def events_ok_def)

lemma safe_set_slot:
  assumes "safe a st" and "k < MAX_SOCKET \<Longrightarrow> socket_ok k (slot st k) \<Longrightarrow> socket_ok k (f (slot st k))"
    and "k < MAX_SOCKET \<Longrightarrow> life (sock_type (slot st k)) (sock_type (f (slot st k)))"
  shows "safe a (set_slot k f st)"
  using assms unfolding safe_def srv_ok_def alloc_ok_def events_ok_def
  by (auto intro: moves_life)

lemma safe_slot_ok: "safe a st \<Longrightarrow> k < MAX_SOCKET \<Longrightarrow> socket_ok k (slot st k)"
  by (simp add: safe_def srv_ok_def)

lemma safe_buffer [safe_intros]: "safe a st \<Longrightarrow> safe a (st\<lparr>buffer := t\<rparr>)"
  by (simp add: safe_def srv_ok_def alloc_ok_def events_ok_def)

lemma safe_ep_write [safe_intros]:
  "safe a st \<Longrightarrow> k < MAX_SOCKET \<Longrightarrow> safe a (ep_write f (Some k) b st)"
  by (simp add: ep_write_def safe_emit)

lemma safe_ep_del [safe_intros]: "safe a st \<Longrightarrow> safe a (ep_del f st)"
  by (simp add: ep_del_def safe_emit)

lemma safe_keepalive [safe_intros]: "safe a st \<Longrightarrow> safe a (keepalive f st)"
  by (simp add: keepalive_def safe_emit)

lemma safe_nonblocking [safe_intros]: "safe a st \<Longrightarrow> safe a (nonblocking os f st)"
  by (simp add: nonblocking_def safe_emit sys_split Let_def)

lemma safe_name_peer [safe_intros]: "safe a st \<Longrightarrow> safe a (snd (name_peer os ad st))"
  by (simp add: name_peer_def safe_emit safe_buffer sys_split Let_def)

lemma safe_ep_add [safe_intros]:
  "safe a st \<Longrightarrow> k < MAX_SOCKET \<Longrightarrow> safe a (snd (ep_add os f (Some k) st))"
  by (simp add: ep_add_def safe_emit sys_split Let_def)

lemma slot_simps [simp]:
  "slot (ep_write f p b st) = slot st" "slot (ep_del f st) = slot st"
  "slot (keepalive f st) = slot st" "slot (nonblocking os f st) = slot st"
  "slot (snd (ep_add os f p st)) = slot st" "slot (snd (name_peer os ad st)) = slot st"
  by (simp_all add: ep_write_def ep_del_def keepalive_def nonblocking_def ep_add_def name_peer_def
      sys_split Let_def)

lemma safe_set_type [safe_intros]:
  assumes "safe a st" and "life (sock_type (slot st k)) ty" and "ty \<le> SOCKET_TYPE_BIND"
    and "ty \<noteq> SOCKET_TYPE_HALFCLOSE" and "ty \<noteq> SOCKET_TYPE_INVALID \<Longrightarrow> sock_type (slot st k) \<noteq> SOCKET_TYPE_INVALID"
  shows "safe a (set_type k ty st)"
  unfolding set_type_def using assms by (intro safe_set_slot) (auto simp: socket_ok_def)

lemma safe_set_opaque [safe_intros]: "safe a st \<Longrightarrow> safe a (set_slot k (\<lambda>s. s\<lparr>opaque := x\<rparr>) st)"
  by (rule safe_set_slot) (simp_all add: socket_ok_def)

lemma safe_reserve:
  assumes "safe a st" and "slot a = slot st"
  shows "safe a (snd (reserve_id st))"
    and "0 \<le> sint (fst (reserve_id st)) \<Longrightarrow>
      sock_type (slot (snd (reserve_id st)) (HASH_ID (fst (reserve_id st)))) = SOCKET_TYPE_RESERVE"
proof -
  have ok: "srv_ok st" using assms by (simp add: safe_def)
  then have al: "alloc_ok st" by (simp add: srv_ok_def)
  from reserve_id_cases [OF al] consider
      "reserve_id st = (- 1, st\<lparr>alloc_id := later_id (alloc_id st) MAX_SOCKET\<rparr>)"
    | i where "reserve_id st = (i, reserved i st)" "free_slot st (HASH_ID i)" "alloc_ok (st\<lparr>alloc_id := i\<rparr>)"
    using later_id_ok by blast
  then have "safe a (snd (reserve_id st)) \<and> (0 \<le> sint (fst (reserve_id st)) \<longrightarrow>
      sock_type (slot (snd (reserve_id st)) (HASH_ID (fst (reserve_id st)))) = SOCKET_TYPE_RESERVE)"
  proof cases
    case 1
    then show ?thesis
      using assms later_id_ok [of "alloc_id st" MAX_SOCKET st]
      by (simp add: safe_def srv_ok_def alloc_ok_def events_ok_def)
  next
    case 2
    have "safe a (reserved i st)"
      using assms 2(2,3) unfolding safe_def srv_ok_def alloc_ok_def events_ok_def
      by (auto simp: reserved_slot socket_ok_def moves_def) (simp_all add: reserved_def)
    with 2(1) show ?thesis by (simp add: reserved_slot)
  qed
  then show "safe a (snd (reserve_id st))"
    and "0 \<le> sint (fst (reserve_id st)) \<Longrightarrow>
      sock_type (slot (snd (reserve_id st)) (HASH_ID (fst (reserve_id st)))) = SOCKET_TYPE_RESERVE"
    by simp_all
qed

section \<open>The contract of a handler\<close>

text \<open>
  \<open>pre\<close> is what the caller has checked before the call.
\<close>

locale handler =
  fixes h :: "server \<Rightarrow> message \<Rightarrow> ('a \<times> server \<times> message) option"
    and pre :: "server \<Rightarrow> bool"
  assumes keeps: "srv_ok st \<Longrightarrow> pre st \<Longrightarrow> h st m = Some (x, st', m') \<Longrightarrow> safe st st'"
begin

lemma keeps_from:
  "srv_ok st \<Longrightarrow> slot a = slot st \<Longrightarrow> pre st \<Longrightarrow> h st m = Some (x, st', m') \<Longrightarrow> safe a st'"
  by (rule safe_from) (auto intro: keeps)

text \<open>Any number of calls in a row, as long as each finds its precondition.\<close>

inductive calls :: "server \<Rightarrow> server \<Rightarrow> bool" where
  none: "calls st st"
| call: "calls st st1 \<Longrightarrow> pre st1 \<Longrightarrow> h st1 m = Some (x, st2, m') \<Longrightarrow> calls st st2"

lemma calls_srv_ok: "calls st st' \<Longrightarrow> srv_ok st \<Longrightarrow> srv_ok st'"
  by (induction rule: calls.induct) (auto intro: safe_srv_ok keeps)

end

section \<open>Every operation is a handler\<close>

lemma new_socket_safe:
  assumes "safe a st" and "new_socket os i f pr opq add st = Some (res, st')"
  shows "safe a st'" and "res = Some k \<Longrightarrow> k = HASH_ID i \<and> sock_type (slot st' k) = SOCKET_TYPE_RESERVE"
proof -
  have set: "safe a (set_slot (HASH_ID i) (\<lambda>s. s\<lparr>sock_id := i, fd := f, protocol := pr, opaque := opq\<rparr>) t)"
    and clear: "safe a (set_slot (HASH_ID i) (\<lambda>s. s\<lparr>sock_type := SOCKET_TYPE_INVALID\<rparr>) t)"
    if "safe a t" for t
    by (rule safe_set_slot [OF that]; simp add: socket_ok_def)+
  show "safe a st'"
    using assms safe_ep_add [OF assms(1), of "HASH_ID i" os f] set clear
    by (cases add) (auto simp: new_socket_def Let_def case_prod_beta split: if_splits)
  show "k = HASH_ID i \<and> sock_type (slot st' k) = SOCKET_TYPE_RESERVE" if "res = Some k"
    using assms that by (auto simp: new_socket_def Let_def case_prod_beta split: if_splits)
qed

lemma force_close_safe:
  assumes "safe a st" and "force_close k st m = Some (st', m')"
  shows "safe a st'"
proof -
  have "safe a (set_slot k (\<lambda>s. s\<lparr>high := [], low := []\<rparr>) st)"
    by (rule safe_set_slot [OF assms(1)]) (simp_all add: socket_ok_def)
  with assms show ?thesis
    by (auto simp: force_close_def Let_def split: if_splits intro!: safe_intros)
qed

interpretation force_close: handler "\<lambda>st m. map_option (\<lambda>(st, m). ((), st, m)) (force_close k st m)" "\<lambda>_. True"
  by unfold_locales (auto intro: force_close_safe safe_refl)

interpretation listen_socket: handler "listen_socket os req" "\<lambda>_. True"
proof unfold_locales
  fix st m x st' m'
  assume ok: "srv_ok st" and run: "listen_socket os req st m = Some (x, st', m')"
  then obtain s st1 where new:
      "new_socket os (l_id req) (l_fd req) PROTOCOL_TCP (l_opaque req) False st = Some (s, st1)"
    by (auto simp: listen_socket_def bind_eq_Some_conv)
  note safe1 = new_socket_safe [OF safe_refl [OF ok] new]
  show "safe st st'"
  proof (cases s)
    case None
    with run new safe1(1) show ?thesis by (auto simp: listen_socket_def intro!: safe_intros)
  next
    case (Some k)
    with run new safe1(1) safe1(2) [OF Some] show ?thesis
      by (auto simp: listen_socket_def intro!: safe_intros intro: life_intros)
  qed
qed

interpretation start_socket: handler "start_socket os req" "\<lambda>_. True"
proof unfold_locales
  fix st m x st' m'
  assume ok: "srv_ok st" and run: "start_socket os req st m = Some (x, st', m')"
  show "safe st st'"
    using run safe_refl [OF ok] safe_ep_add [OF safe_refl [OF ok], of "HASH_ID (s_id req)" os]
    by (auto simp: start_socket_def Let_def case_prod_beta split: if_splits
        intro!: safe_intros intro: life_intros)
qed

interpretation bind_socket: handler "bind_socket os req" "\<lambda>_. True"
proof unfold_locales
  fix st m x st' m'
  assume ok: "srv_ok st" and run: "bind_socket os req st m = Some (x, st', m')"
  then obtain s st1 where new:
      "new_socket os (b_id req) (b_fd req) PROTOCOL_TCP (b_opaque req) True st = Some (s, st1)"
    by (auto simp: bind_socket_def Let_def bind_eq_Some_conv)
  note safe1 = new_socket_safe [OF safe_refl [OF ok] new]
  show "safe st st'"
  proof (cases s)
    case None
    with run new safe1(1) show ?thesis by (auto simp: bind_socket_def Let_def)
  next
    case (Some k)
    with run new safe1(1) safe1(2) [OF Some] show ?thesis
      by (auto simp: bind_socket_def Let_def intro!: safe_intros intro: life_intros)
  qed
qed

lemma connect_loop_safe:
  "connect_loop os ais st = Some (r, st') \<Longrightarrow> safe a st \<Longrightarrow> safe a st'"
proof (induction ais arbitrary: st)
  case (Cons ai rest)
  then show ?case
    by (auto simp: sys_split Let_def split: if_splits intro!: safe_intros elim!: Cons.IH)
qed simp

interpretation open_socket: handler "open_socket os req" "\<lambda>_. True"
proof unfold_locales
  fix st m x st' m'
  assume ok: "srv_ok st" and run: "open_socket os req st m = Some (x, st', m')"
  obtain host where host: "o_host req = Some host" using run by (auto simp: open_socket_def Let_def bind_eq_Some_conv)
  define c where "c = Getaddrinfo host (show_int (o_port req)) 1 6"
  have safe0: "safe st (emit c st)" using ok by (auto simp: c_def intro!: safe_intros safe_refl)
  show "safe st st'"
  proof (cases "ret (os (trace st) c) \<noteq> 0 \<or> r_addrs (os (trace st) c) = []")
    case True
    with run host safe0 show ?thesis
      by (auto simp: open_socket_def Let_def sys_split c_def intro!: safe_intros)
  next
    case False
    with run host obtain sock status ai st1 k st2 where st1:
        "connect_loop os (r_addrs (os (trace st) c)) (emit c st) = Some ((sock, status, ai), st1)"
        "new_socket os (o_id req) sock PROTOCOL_TCP (o_opaque req) True st1 = Some (Some k, st2)"
      by (auto simp: open_socket_def Let_def sys_split c_def bind_eq_Some_conv)
    have "safe st st1" by (rule connect_loop_safe [OF st1(1) safe0])
    note safe2 = new_socket_safe(1) [OF this st1(2)] new_socket_safe(2) [OF this st1(2) refl]
    have "k < MAX_SOCKET" using safe2(2) by simp
    with run host False st1 safe2 show ?thesis
      by (auto simp: open_socket_def Let_def sys_split c_def case_prod_beta split: if_splits
          intro!: safe_intros intro: life_intros)
  qed
qed

text \<open>
  The lists of unsent buffers are empty in every well-formed state: \<open>send_buffer\<close> then only
  switches write events off again.
\<close>

lemma send_buffer_idle:
  assumes "srv_ok st" and "k < MAX_SOCKET"
  shows "send_buffer os k st m = Some (no_message, ep_write (fd (slot st k)) (Some k) False st, m)"
proof -
  have s: "high (slot st k) = []" "low (slot st k) = []" "sock_type (slot st k) \<noteq> SOCKET_TYPE_HALFCLOSE"
    using assms by (auto simp: srv_ok_def socket_ok_def)
  have same: "set_slot k (\<lambda>s. s\<lparr>high := []\<rparr>) st = st"
  proof -
    have "(slot st)(k := (slot st k)\<lparr>high := []\<rparr>) = slot st" using s(1) by (metis (no_types) fun_upd_triv socket.surjective socket.update_convs(2))
    then show ?thesis by (simp add: set_slot_def)
  qed
  show ?thesis
    using s by (simp add: send_buffer_def send_list_def list_uncomplete_def same ep_write_def)
qed

interpretation send_buffer: handler "send_buffer os k" "\<lambda>_. k < MAX_SOCKET"
  by unfold_locales (auto simp: send_buffer_idle intro!: safe_intros safe_refl)

lemma slot_empty:
  assumes "srv_ok st" and "k < MAX_SOCKET"
  shows "send_buffer_empty (slot st k)"
  using assms by (simp add: srv_ok_def socket_ok_def send_buffer_empty_def)

interpretation close_socket: handler "close_socket os req" "\<lambda>_. True"
proof unfold_locales
  fix st m x st' m'
  assume ok: "srv_ok st" and run: "close_socket os req st m = Some (x, st', m')"
  show "safe st st'"
    using run safe_refl [OF ok] slot_empty [OF ok HASH_ID_less]
    by (auto simp: close_socket_def Let_def bind_eq_Some_conv split: if_splits elim!: force_close_safe [rotated])
qed

interpretation send_socket: handler "send_socket os req" "\<lambda>_. True"
proof unfold_locales
  fix st m x st' m'
  assume ok: "srv_ok st" and run: "send_socket os req st m = Some (x, st', m')"
  show "safe st st'"
    using run safe_refl [OF ok]
    by (auto simp: send_socket_def Let_def sys_split split: if_splits
        intro!: safe_intros elim!: force_close_safe [rotated])
qed

interpretation setopt_socket: handler "\<lambda>st m. Some ((), setopt_socket req st, m)" "\<lambda>_. True"
  by unfold_locales (auto simp: setopt_socket_def Let_def intro!: safe_intros safe_refl)

interpretation report_connect: handler "report_connect os k"
    "\<lambda>st. k < MAX_SOCKET \<and> sock_type (slot st k) = SOCKET_TYPE_CONNECTING"
proof unfold_locales
  fix st m x st' m'
  assume ok: "srv_ok st" and run: "report_connect os k st m = Some (x, st', m')"
    and pre: "k < MAX_SOCKET \<and> sock_type (slot st k) = SOCKET_TYPE_CONNECTING"
  show "safe st st'"
    using run pre safe_refl [OF ok]
    by (auto simp: report_connect_def Let_def sys_split case_prod_beta split: if_splits
        intro!: safe_intros intro: life_intros elim!: force_close_safe [rotated])
qed

interpretation forward_message_tcp: handler "forward_message_tcp os k" "\<lambda>_. True"
proof unfold_locales
  fix st m x st' m'
  assume ok: "srv_ok st" and run: "forward_message_tcp os k st m = Some (x, st', m')"
  have set: "safe a (set_slot k (\<lambda>s. s\<lparr>rd_size := n\<rparr>) t)" if "safe a t" for a t n
    by (rule safe_set_slot [OF that]) (simp_all add: socket_ok_def)
  show "safe st st'"
    using run safe_refl [OF ok]
    by (auto simp: forward_message_tcp_def Let_def sys_split bind_eq_Some_conv split: if_splits
        intro!: safe_intros set elim!: force_close_safe [rotated])
qed

lemma name_client_safe: "name_client os ad st m = (b, st', m') \<Longrightarrow> safe a st \<Longrightarrow> safe a st'"
  by (auto simp: name_client_def sys_split Let_def split: if_splits intro!: safe_intros)

lemma accept_client_safe:
  assumes "accept_client os k f ad i st m = Some (x, st', m')" and "safe a st"
  shows "safe a st'"
proof -
  define st1 where "st1 = nonblocking os f (keepalive f st)"
  have safe1: "safe a st1" unfolding st1_def by (intro safe_intros assms(2))
  from assms(1) obtain ns st2 where
    st2: "new_socket os i f PROTOCOL_TCP (opaque (slot st1 k)) False st1 = Some (ns, st2)"
    by (auto simp: accept_client_def bind_eq_Some_conv st1_def)
  note safe2 = new_socket_safe [OF safe1 st2]
  show ?thesis
  proof (cases ns)
    case None
    with assms(1) st2 safe2(1) show ?thesis
      by (auto simp: accept_client_def st1_def intro!: safe_intros)
  next
    case (Some n)
    have "safe a (set_type n SOCKET_TYPE_PACCEPT st2)"
      using safe2(1) safe2(2) [OF Some] by (auto intro!: safe_intros intro: life_intros)
    with assms(1) st2 Some show ?thesis
      by (auto simp: accept_client_def st1_def Let_def elim!: name_client_safe)
  qed
qed

interpretation report_accept: handler "report_accept os k" "\<lambda>_. True"
proof unfold_locales
  fix st m x st' m'
  assume ok: "srv_ok st" and run: "report_accept os k st m = Some (x, st', m')"
  have safe0: "safe st (emit (Accept (fd (slot st k))) st)"
    using ok by (auto intro!: safe_intros safe_refl)
  show "safe st st'"
    using run safe0 safe_reserve(1) [OF safe0]
    by (auto simp: report_accept_def Let_def sys_split case_prod_beta split: if_splits
        intro!: safe_intros elim!: accept_client_safe)
qed

end
