(* ===== verification/Socket_Run.thy ===== *)
theory Socket_Run
  imports Socket_Safety
begin

text \<open>
  Runs of the gate server: the requests of other threads and the turns of the polling thread keep
  the invariant of \<open>Socket_Safety\<close> in every order, from the state \<open>initialize\<close> leaves.
\<close>

section \<open>The control pipe\<close>

lemma send_loop_safe:
  assumes "send_loop os msg st = Some st'" and "safe a st"
  shows "safe a st'"
proof -
  have "safe a st \<longrightarrow> safe a st'"
  proof (rule send_loop.raw_induct [where P = "\<lambda>os msg st st'. safe a st \<longrightarrow> safe a st'", OF _ assms(1)])
    fix f os msg st st'
    assume IH: "\<And>os msg st st'. f os msg st = Some st' \<Longrightarrow> safe a st \<longrightarrow> safe a st'"
      and eq: "(let (r, st) = sys os (Write (sendctrl_fd st) msg) st in
        if ret r < 0 then f os msg st else if ret r = int (length msg) then Some st else None) = Some st'"
    show "safe a st \<longrightarrow> safe a st'"
      using eq IH safe_emit [of a st "Write (sendctrl_fd st) msg"]
      by (auto simp: sys_split Let_def split: if_splits)
  qed
  with assms(2) show ?thesis by blast
qed

lemma send_request_safe: "send_request os pkg ty len st = Some st' \<Longrightarrow> safe a st \<Longrightarrow> safe a st'"
  by (auto simp: send_request_def bind_eq_Some_conv elim!: send_loop_safe)

lemma block_readpipe_safe:
  assumes "block_readpipe os f buf sz st = Some (b, st')" and "safe a st"
  shows "safe a st'"
proof -
  have "safe a st \<longrightarrow> safe a (snd (b, st'))"
  proof (rule block_readpipe.raw_induct
      [where P = "\<lambda>os f buf sz st r. safe a st \<longrightarrow> safe a (snd r)", OF _ assms(1)])
    fix g os f buf sz st res
    assume IH: "\<And>os f buf sz st res. g os f buf sz st = Some res \<Longrightarrow> safe a st \<longrightarrow> safe a (snd res)"
      and eq: "(let (r, st) = sys os (Read f sz) st in
        if ret r < 0 then (if errno r = EINTR then g os f buf sz st else Some (buf, st))
        else if ret r = int sz then map_option (\<lambda>b. (b, st)) (poke buf 0 (take sz (r_bytes r)))
        else None) = Some res"
    show "safe a st \<longrightarrow> safe a (snd res)"
      using eq IH safe_emit [of a st "Read f sz"]
      by (auto simp: sys_split Let_def split: if_splits)
  qed
  with assms(2) show ?thesis by simp
qed

lemma block_readpipe_slot:
  assumes "block_readpipe os f buf sz st = Some (b, st')"
  shows "slot st' = slot st"
proof -
  have "slot (snd (b, st')) = slot st"
  proof (rule block_readpipe.raw_induct
      [where P = "\<lambda>os f buf sz st r. slot (snd r) = slot st", OF _ assms])
    fix g os f buf sz st res
    assume IH: "\<And>os f buf sz st res. g os f buf sz st = Some res \<Longrightarrow> slot (snd res) = slot st"
      and eq: "(let (r, st) = sys os (Read f sz) st in
        if ret r < 0 then (if errno r = EINTR then g os f buf sz st else Some (buf, st))
        else if ret r = int sz then map_option (\<lambda>b. (b, st)) (poke buf 0 (take sz (r_bytes r)))
        else None) = Some res"
    show "slot (snd res) = slot st"
      using eq IH by (auto simp: sys_split Let_def split: if_splits)
  qed
  then show ?thesis by simp
qed

lemma dispatch_safe:
  assumes "dispatch os ty b st m = Some (x, st', m')" and "srv_ok st"
  shows "safe st st'"
  using assms(1) safe_refl [OF assms(2)] setopt_socket.keeps [OF assms(2) TrueI refl]
  unfolding dispatch_def
  by (auto simp del: of_char_of split: if_splits
      dest: start_socket.keeps [OF assms(2) TrueI] bind_socket.keeps [OF assms(2) TrueI]
        listen_socket.keeps [OF assms(2) TrueI] close_socket.keeps [OF assms(2) TrueI]
        open_socket.keeps [OF assms(2) TrueI] send_socket.keeps [OF assms(2) TrueI])

lemma ctrl_cmd_safe:
  assumes "ctrl_cmd os stk st m = Some (x, st', m')" and "srv_ok st"
  shows "safe st st'"
proof -
  obtain h st1 b st2 buf0 h0 where r:
      "block_readpipe os (recvctrl_fd st) h0 2 st = Some (h, st1)"
      "block_readpipe os (recvctrl_fd st1) buf0 (unat (h ! 1)) st1 = Some (b, st2)"
      "dispatch os (h ! 0) b st2 m = Some (x, st', m')"
    using assms(1) by (auto simp: ctrl_cmd_def Let_def bind_eq_Some_conv)
  have "srv_ok st2"
    by (rule safe_srv_ok) (rule block_readpipe_safe [OF r(2)], rule block_readpipe_safe [OF r(1)],
      rule safe_refl [OF assms(2)])
  then show ?thesis
    using dispatch_safe [OF r(3)] block_readpipe_slot [OF r(1)] block_readpipe_slot [OF r(2)]
    by (simp add: safe_from)
qed

section \<open>Events\<close>

lemma safe_events:
  assumes "safe a st" and "event_index st' \<le> event_n st'" and "event_n st' \<le> MAX_EVENT"
    and "length (ev st') = MAX_EVENT"
    and "\<And>j k. j < event_n st' \<Longrightarrow> ev_s (ev st' ! j) = Some k \<Longrightarrow> k < MAX_SOCKET"
    and "slot st' = slot st" and "alloc_id st' = alloc_id st" and "trace st' = trace st"
  shows "safe a st'"
  using assms by (auto simp: safe_def srv_ok_def alloc_ok_def events_ok_def)

lemma clear_event_pointer: "ev_s (clear_event st i e) = Some k \<Longrightarrow> ev_s e = Some k"
  by (auto simp: clear_event_def split: option.splits if_splits)

lemma clear_one_safe:
  assumes "safe a st"
  shows "safe a (st\<lparr>ev := (ev st)[j := clear_event st i (ev st ! j)]\<rparr>)"
proof (rule safe_events [OF assms])
  have ok: "events_ok st" using assms by (simp add: safe_def srv_ok_def)
  fix l k
  assume l: "l < event_n (st\<lparr>ev := (ev st)[j := clear_event st i (ev st ! j)]\<rparr>)"
    and "ev_s (ev (st\<lparr>ev := (ev st)[j := clear_event st i (ev st ! j)]\<rparr>) ! l) = Some k"
  then have "ev_s (ev st ! l) = Some k"
    using ok by (cases "j = l") (auto simp: events_ok_def dest: clear_event_pointer)
  with l ok show "k < MAX_SOCKET" by (simp add: events_ok_def)
qed (use assms in \<open>simp_all add: safe_def srv_ok_def events_ok_def\<close>)

lemma clear_closed_event_safe:
  assumes "safe a st"
  shows "safe a (clear_closed_event m ty st)"
proof -
  have "safe a (fold (\<lambda>j st. st\<lparr>ev := (ev st)[j := clear_event st i (ev st ! j)]\<rparr>) js st)" for i js
    using assms by (induction js arbitrary: st) (simp_all add: clear_one_safe)
  with assms show ?thesis by (simp add: clear_closed_event_def)
qed

fun turn_state :: "turn \<Rightarrow> server" where
  "turn_state (Continue st m mr) = st"
| "turn_state (Return ty st m mr) = st"

lemma ctrl_turn_safe: "ctrl_turn os stk st m mr = Some t \<Longrightarrow> srv_ok st \<Longrightarrow> safe st (turn_state t)"
  by (auto simp: ctrl_turn_def bind_eq_Some_conv split: if_splits
      intro!: clear_closed_event_safe elim!: ctrl_cmd_safe)

text \<open>The handlers do not touch the events.\<close>

definition same_events :: "server \<Rightarrow> server \<Rightarrow> bool" where
  "same_events st st' \<longleftrightarrow> ev st' = ev st \<and> event_n st' = event_n st \<and> event_index st' = event_index st"

lemma force_close_events: "force_close k st m = Some (st', m') \<Longrightarrow> same_events st st'"
  by (auto simp: force_close_def same_events_def Let_def ep_del_def set_type_def split: if_splits)

lemma forward_message_tcp_events: "forward_message_tcp os k st m = Some (ty, st', m') \<Longrightarrow> same_events st st'"
  by (auto simp: forward_message_tcp_def Let_def sys_split bind_eq_Some_conv same_events_def
      split: if_splits dest!: force_close_events)

lemma step_index_safe:
  assumes "safe a st" and "event_index st < event_n st"
  shows "safe a (st\<lparr>event_index := Suc (event_index st)\<rparr>)"
  using assms by (intro safe_events [OF assms(1)]) (auto simp: safe_def srv_ok_def events_ok_def)

lemma read_event_safe:
  assumes "safe a st" and "j < event_n st" and "ev_s e = Some k" and "k < MAX_SOCKET"
  shows "safe a (st\<lparr>ev := (ev st)[j := e\<lparr>ev_read := False\<rparr>], event_index := j\<rparr>)"
  using assms
  by (intro safe_events [OF assms(1)])
     (auto simp: safe_def srv_ok_def events_ok_def nth_list_update split: if_splits)

lemma event_turn_safe:
  assumes run: "event_turn os st m mr = Some t" and ok: "srv_ok st" and more: "event_index st < event_n st"
  shows "safe st (turn_state t)"
proof -
  define j where "j = event_index st"
  define e where "e = ev st ! j"
  define st1 where "st1 = st\<lparr>event_index := Suc j\<rparr>"
  have safe1: "safe st st1" unfolding st1_def j_def by (rule step_index_safe [OF safe_refl [OF ok] more])
  note ok1 = safe_srv_ok [OF safe1]
  have slot1: "slot st = slot st1" by (simp add: st1_def)
  show ?thesis
  proof (cases "ev_s e")
    case None
    with run safe1 show ?thesis by (auto simp: event_turn_def Let_def j_def e_def st1_def)
  next
    case (Some k)
    then have k: "k < MAX_SOCKET"
      using ok more by (auto simp: srv_ok_def events_ok_def e_def j_def)
    define ty where "ty = sock_type (slot st1 k)"
    have ty: "sock_type (slot st k) = ty" by (simp add: ty_def st1_def)
    note unf = event_turn_def Let_def
    consider "ty = SOCKET_TYPE_CONNECTING" | "ty = SOCKET_TYPE_LISTEN" | "ty = SOCKET_TYPE_INVALID"
      | "ty \<notin> {SOCKET_TYPE_CONNECTING, SOCKET_TYPE_LISTEN, SOCKET_TYPE_INVALID}" by blast
    then show ?thesis
    proof cases
      case 1
      with run Some ty obtain x st2 m2 where "report_connect os k st1 m = Some (x, st2, m2)" "turn_state t = st2"
        by (auto simp: unf j_def e_def st1_def bind_eq_Some_conv)
      then show ?thesis using report_connect.keeps_from [OF ok1 slot1, of k] k 1 by (simp add: ty_def)
    next
      case 2
      with run Some ty obtain x st2 m2 where "report_accept os k st1 m = Some (x, st2, m2)" "turn_state t = st2"
        by (auto simp: unf j_def e_def st1_def bind_eq_Some_conv split: if_splits)
      with report_accept.keeps_from [OF ok1 slot1] show ?thesis by blast
    next
      case 3
      with run Some ty safe1 show ?thesis by (auto simp: unf j_def e_def st1_def)
    next
      case 4
      show ?thesis
      proof (cases "ev_read e")
        case True
        with 4 run Some ty obtain x st2 m2 where st2:
            "(if protocol (slot st1 k) = PROTOCOL_TCP then forward_message_tcp os k st1 m
              else Some (no_message, st1, m)) = Some (x, st2, m2)"
            "turn_state t = (let st3 = if ev_write e
                then st2\<lparr>ev := (ev st2)[j := e\<lparr>ev_read := False\<rparr>], event_index := j\<rparr> else st2 in
              if x = no_message then st3 else clear_closed_event m2 x st3)"
          by (auto simp: unf j_def e_def st1_def bind_eq_Some_conv split: if_splits)
        have "safe st st2 \<and> same_events st1 st2"
          using st2(1) safe1 forward_message_tcp.keeps_from [OF ok1 slot1] forward_message_tcp_events
          by (auto simp: same_events_def split: if_splits)
        moreover have "j < event_n st1" using more by (simp add: st1_def j_def)
        ultimately show ?thesis
          unfolding st2(2) Let_def using read_event_safe [of st st2 j e k] Some k
          by (auto simp: same_events_def intro: clear_closed_event_safe)
      next
        case False
        with 4 run Some ty show ?thesis
          using send_buffer_idle [OF ok1 k] safe1 k
          by (auto simp: unf j_def e_def st1_def [symmetric] st1_def bind_eq_Some_conv
              split: if_splits intro!: safe_intros)
      qed
    qed
  qed
qed

lemma registered_ok:
  assumes "srv_ok st" and "epoll_law os" and "e \<in> set (r_events (os (trace st) (Epoll_wait f n)))"
    and "data_ptr e = Some k"
  shows "k < MAX_SOCKET"
  using assms unfolding epoll_law_def srv_ok_def Let_def by (metis pointer_ok.simps(1,2))

lemma ep_wait_safe:
  assumes law: "epoll_law os" and safe: "safe a st" and wait: "ep_wait os MAX_EVENT st = (n, st')"
  shows "safe a (st'\<lparr>checkctrl := True, event_index := 0, event_n := nat n\<rparr>)"
proof -
  define r where "r = os (trace st) (Epoll_wait (event_fd st) MAX_EVENT)"
  have r: "ret r \<le> int MAX_EVENT" "length (r_events r) = nat (ret r)"
    using law by (simp_all add: epoll_law_def r_def Let_def)
  have st': "n = ret r" "st' = emit (Epoll_wait (event_fd st) MAX_EVENT) st
      \<lparr>ev := map to_event (take (nat (ret r)) (r_events r)) @ drop (nat (ret r)) (ev st)\<rparr>"
    using wait by (auto simp: ep_wait_def sys_split Let_def r_def)
  have "safe a (emit (Epoll_wait (event_fd st) MAX_EVENT) st)" using safe by (simp add: safe_emit)
  then show ?thesis
  proof (rule safe_events)
    fix j k
    assume "j < event_n (st'\<lparr>checkctrl := True, event_index := 0, event_n := nat n\<rparr>)"
      and p: "ev_s (ev (st'\<lparr>checkctrl := True, event_index := 0, event_n := nat n\<rparr>) ! j) = Some k"
    then have "j < length (r_events r)" using r by (simp add: st')
    then have "data_ptr (r_events r ! j) = Some k" "r_events r ! j \<in> set (r_events r)"
      using p r by (simp_all add: st' nth_append to_event_def)
    then show "k < MAX_SOCKET"
      using registered_ok [OF safe_srv_ok [OF safe] law] by (simp add: r_def)
  qed (use r safe in \<open>auto simp: st' safe_def srv_ok_def events_ok_def\<close>)
qed

lemma ep_wait_slot: "slot (snd (ep_wait os n st)) = slot st"
  by (simp add: ep_wait_def sys_split Let_def)

lemma wait_turn_safe:
  assumes law: "epoll_law os" and run: "wait_turn os st m mr = Some t" and ok: "srv_ok st"
  shows "safe st (turn_state t)"
proof (cases "event_index st = event_n st")
  case True
  obtain n st' where st': "ep_wait os MAX_EVENT st = (n, st')" by (cases "ep_wait os MAX_EVENT st")
  define st2 where "st2 = st'\<lparr>checkctrl := True, event_index := 0, event_n := nat n\<rparr>"
  have safe': "safe st st2" unfolding st2_def by (rule ep_wait_safe [OF law safe_refl [OF ok] st'])
  have slot: "slot st = slot st2" using ep_wait_slot [of os MAX_EVENT st] st' by (simp add: st2_def)
  show ?thesis
  proof (cases "n \<le> 0")
    case neg: True
    with run True st' have "turn_state t = st2" by (auto simp: wait_turn_def Let_def st2_def)
    with safe' show ?thesis by simp
  next
    case False
    with run True st' have "event_turn os st2 m 0 = Some t"
      by (auto simp: wait_turn_def Let_def st2_def)
    then have "safe st2 (turn_state t)"
      by (rule event_turn_safe [OF _ safe_srv_ok [OF safe']]) (use False in \<open>simp add: st2_def\<close>)
    then show ?thesis using slot by (rule safe_from)
  qed
next
  case False
  with ok have "event_index st < event_n st" by (simp add: srv_ok_def events_ok_def)
  with run False ok show ?thesis by (auto simp: wait_turn_def intro: event_turn_safe)
qed

lemma safe_checkctrl: "safe a st \<Longrightarrow> safe a (st\<lparr>checkctrl := b\<rparr>)"
  by (rule safe_events) (auto simp: safe_def srv_ok_def events_ok_def)

lemma poll_turn_safe:
  assumes law: "epoll_law os" and run: "poll_turn os stk st m mr = Some t" and ok: "srv_ok st"
  shows "safe st (turn_state t)"
proof -
  define st1 where "st1 = emit (Select (recvctrl_fd st)) st"
  have "safe st st1" by (simp add: st1_def safe_emit safe_refl [OF ok])
  then have ok1: "srv_ok st1" "srv_ok (st1\<lparr>checkctrl := False\<rparr>)"
    using safe_checkctrl [of st st1 False] by (auto dest: safe_srv_ok)
  have slots: "slot st = slot st1" "slot st = slot (st1\<lparr>checkctrl := False\<rparr>)" by (simp_all add: st1_def)
  show ?thesis
    using run ctrl_turn_safe [OF _ ok1(1), THEN safe_from, OF _ slots(1)]
      wait_turn_safe [OF law _ ok1(2), THEN safe_from, OF _ slots(2)] wait_turn_safe [OF law _ ok]
    by (auto simp: poll_turn_def has_cmd_def sys_split Let_def st1_def split: if_splits)
qed

lemma poll_srv_ok:
  assumes law: "epoll_law os" and run: "poll os stk st m mr = Some (ty, st', m', mr')" and "srv_ok st"
  shows "srv_ok st'"
proof -
  have "epoll_law os \<longrightarrow> srv_ok st \<longrightarrow> srv_ok (fst (snd (ty, st', m', mr')))"
  proof (rule poll.raw_induct [where P =
        "\<lambda>os stk st m mr r. epoll_law os \<longrightarrow> srv_ok st \<longrightarrow> srv_ok (fst (snd r))", OF _ run])
    fix f os stk st m mr res
    assume IH: "\<And>os stk st m mr res. f os stk st m mr = Some res \<Longrightarrow>
        epoll_law os \<longrightarrow> srv_ok st \<longrightarrow> srv_ok (fst (snd res))"
      and eq: "Option.bind (poll_turn os stk st m mr) (\<lambda>t. case t of
          Continue st m mr \<Rightarrow> f os stk st m mr | Return ty st m mr \<Rightarrow> Some (ty, st, m, mr)) = Some res"
    show "epoll_law os \<longrightarrow> srv_ok st \<longrightarrow> srv_ok (fst (snd res))"
    proof (intro impI)
      assume law: "epoll_law os" and st: "srv_ok st"
      from eq obtain t where t: "poll_turn os stk st m mr = Some t" by (auto simp: bind_eq_Some_conv)
      have "srv_ok (turn_state t)" by (rule safe_srv_ok [OF poll_turn_safe [OF law t st]])
      with eq t law IH show "srv_ok (fst (snd res))" by (cases t) auto
    qed
  qed
  with law assms(3) show ?thesis by simp
qed

section \<open>Requests of other threads\<close>

lemma server_start_safe: "server_start os pkg opq i st = Some st' \<Longrightarrow> safe a st \<Longrightarrow> safe a st'"
  by (auto simp: server_start_def bind_eq_Some_conv elim!: send_request_safe)

lemma server_close_safe: "server_close os pkg opq i st = Some st' \<Longrightarrow> safe a st \<Longrightarrow> safe a st'"
  by (auto simp: server_close_def bind_eq_Some_conv elim!: send_request_safe)

lemma server_exit_safe: "server_exit os pkg st = Some st' \<Longrightarrow> safe a st \<Longrightarrow> safe a st'"
  by (auto simp: server_exit_def elim!: send_request_safe)

lemma server_send_safe: "server_send os pkg i buf sz st = Some (n, st') \<Longrightarrow> safe a st \<Longrightarrow> safe a st'"
  by (auto simp: server_send_def Let_def bind_eq_Some_conv split: if_splits elim!: send_request_safe)

lemma server_bind_safe: "server_bind os pkg opq f st = Some (i, st') \<Longrightarrow> safe st st \<Longrightarrow> safe st st'"
  using safe_reserve(1) [of st st]
  by (auto simp: server_bind_def Let_def case_prod_beta bind_eq_Some_conv split: if_splits
      elim!: send_request_safe)

lemma server_connect_safe:
  assumes "server_connect os pkg opq addr port st = Some (i, st')" and "safe st st"
  shows "safe st st'"
proof -
  obtain req st1 where req: "open_request pkg opq addr port st = Some (req, st1)"
    using assms(1) by (auto simp: server_connect_def bind_eq_Some_conv)
  then have "safe st st1"
    using assms(2) safe_reserve(1) [OF assms(2) refl]
    by (auto simp: open_request_def Let_def case_prod_beta bind_eq_Some_conv split: if_splits)
  with assms(1) req show ?thesis
    by (auto simp: server_connect_def bind_eq_Some_conv split: option.splits elim!: send_request_safe)
qed

lemma do_bind_safe: "do_bind os host port p st = Some (f, st') \<Longrightarrow> safe a st \<Longrightarrow> safe a st'"
  by (auto simp: do_bind_def Let_def sys_split bind_eq_Some_conv split: if_splits list.splits
      intro!: safe_intros)

lemma do_listen_safe: "do_listen os host port b st = Some (f, st') \<Longrightarrow> safe a st \<Longrightarrow> safe a st'"
  by (auto simp: do_listen_def Let_def sys_split bind_eq_Some_conv split: if_splits
      intro!: safe_intros elim!: do_bind_safe)

lemma do_bind_slot: "do_bind os host port p st = Some (f, st') \<Longrightarrow> slot st' = slot st"
  by (auto simp: do_bind_def Let_def sys_split bind_eq_Some_conv split: if_splits list.splits)

lemma do_listen_slot: "do_listen os host port b st = Some (f, st') \<Longrightarrow> slot st' = slot st"
  by (auto simp: do_listen_def Let_def sys_split bind_eq_Some_conv split: if_splits dest!: do_bind_slot)

lemma server_listen_safe:
  assumes "server_listen os pkg opq addr port b st = Some (i, st')" and "safe st st"
  shows "safe st st'"
proof -
  obtain f st1 where st1: "do_listen os addr port b st = Some (f, st1)"
    using assms(1) by (auto simp: server_listen_def bind_eq_Some_conv)
  note safe1 = do_listen_safe [OF st1 assms(2)]
  with assms(1) st1 safe_reserve(1) [OF safe1] do_listen_slot [OF st1] show ?thesis
    by (auto simp: server_listen_def Let_def case_prod_beta bind_eq_Some_conv split: if_splits
        elim!: send_request_safe intro!: safe_intros)
qed

section \<open>Runs\<close>

text \<open>What \<open>initialize\<close> needs to come through.\<close>

definition init_comes_up :: "os \<Rightarrow> server \<Rightarrow> bool" where
  "init_comes_up os st \<longleftrightarrow>
     (let e = os (trace st) Epoll_create;
          p = os (trace st @ [Epoll_create]) Pipe;
          a = os (trace st @ [Epoll_create, Pipe]) (Epoll_add (ret e) (fst (r_fds p)) None EPOLLIN) in
      ret e \<noteq> - 1 \<and> ret p = 0 \<and> ret a \<noteq> - 1 \<and> fst (r_fds p) < FD_SETSIZE)"

lemma init_slots:
  "slot (fold init_slot [0..<n] st) = (\<lambda>k. if k < n
     then (slot st k)\<lparr>sock_type := SOCKET_TYPE_INVALID, high := [], low := []\<rparr> else slot st k)"
  by (induction n arbitrary: st) (auto simp: init_slot_def fun_eq_iff less_Suc_eq)

lemma init_slots_rest:
  "trace (fold init_slot ks st) = trace st" "ev (fold init_slot ks st) = ev st"
  "recvctrl_fd (fold init_slot ks st) = recvctrl_fd st" "sendctrl_fd (fold init_slot ks st) = sendctrl_fd st"
  "checkctrl (fold init_slot ks st) = checkctrl st"
  by (induction ks arbitrary: st) (simp_all add: init_slot_def)

lemma initialize_up:
  assumes up: "init_comes_up os st" and ev: "length (ev st) = MAX_EVENT"
    and tr: "\<forall>c \<in> set (trace st). pointer_ok c"
  shows "\<exists>st'. initialize os st = Some st' \<and> srv_ok st' \<and> checkctrl st' \<and> alloc_id st' = 0 \<and>
    (\<forall>k < MAX_SOCKET. free_slot st' k)"
proof -
  have "\<exists>st'. initialize os st = Some st' \<and>
      (\<forall>k < MAX_SOCKET. slot st' k = (slot st k)\<lparr>sock_type := SOCKET_TYPE_INVALID, high := [], low := []\<rparr>) \<and>
      alloc_id st' = 0 \<and> event_n st' = 0 \<and> event_index st' = 0 \<and> ev st' = ev st \<and> checkctrl st' \<and>
      (\<exists>e f. trace st' = trace st @ [Epoll_create, Pipe, Epoll_add e f None EPOLLIN])"
    using up
    by (simp add: initialize_def init_comes_up_def ep_create_def ep_invalid_def ep_add_def sys_split
        Let_def init_slots init_slots_rest)
  then obtain st' where st': "initialize os st = Some st'"
      "\<forall>k < MAX_SOCKET. slot st' k = (slot st k)\<lparr>sock_type := SOCKET_TYPE_INVALID, high := [], low := []\<rparr>"
      "alloc_id st' = 0" "event_n st' = 0" "event_index st' = 0" "ev st' = ev st" "checkctrl st'"
      "\<exists>e f. trace st' = trace st @ [Epoll_create, Pipe, Epoll_add e f None EPOLLIN]" by blast
  have "\<forall>c \<in> set (trace st'). pointer_ok c" using st'(8) tr by auto
  with st' ev show ?thesis
    by (auto simp: srv_ok_def socket_ok_def alloc_ok_def events_ok_def)
qed

text \<open>
  One step of a run: a turn of the polling thread, or a call of another thread, with any arguments
  and any contents of the stack. The calls are atomic here, as the requests of the code are
  handed over through the pipe.
\<close>

inductive server_step :: "os \<Rightarrow> server \<Rightarrow> server \<Rightarrow> bool" for os where
  turn: "poll_turn os stk st m mr = Some t \<Longrightarrow> server_step os st (turn_state t)"
| listening: "server_listen os pkg opq addr port b st = Some (i, st') \<Longrightarrow> server_step os st st'"
| starting: "server_start os pkg opq i st = Some st' \<Longrightarrow> server_step os st st'"
| binding: "server_bind os pkg opq f st = Some (i, st') \<Longrightarrow> server_step os st st'"
| connects: "server_connect os pkg opq addr port st = Some (i, st') \<Longrightarrow> server_step os st st'"
| sending: "server_send os pkg i buf sz st = Some (n, st') \<Longrightarrow> server_step os st st'"
| closing: "server_close os pkg opq i st = Some st' \<Longrightarrow> server_step os st st'"
| exiting: "server_exit os pkg st = Some st' \<Longrightarrow> server_step os st st'"

inductive_cases server_stepE: "server_step os st st'"

lemma server_step_safe:
  "server_step os st st' \<Longrightarrow> epoll_law os \<Longrightarrow> srv_ok st \<Longrightarrow> safe st st'"
  by (erule server_stepE)
     (auto intro: safe_refl poll_turn_safe server_listen_safe server_start_safe server_bind_safe
       server_connect_safe server_send_safe server_close_safe server_exit_safe)

lemma run_srv_ok:
  "(server_step os)\<^sup>*\<^sup>* st st' \<Longrightarrow> epoll_law os \<Longrightarrow> srv_ok st \<Longrightarrow> srv_ok st'"
  by (induction rule: rtranclp_induct) (auto intro: safe_srv_ok server_step_safe)

end
