(* ===== verification/Socket_Wire.thy ===== *)
theory Socket_Wire
  imports Socket_Poll
begin

text \<open>
  The control pipe end to end: what the requests of other threads write is what the polling
  thread's handlers are called with, in the same order. The pipe is the operating system's; what
  is used of it is \<open>pipe_law\<close>: a write takes all bytes, and a read hands out the oldest ones.
\<close>

section \<open>Bytes\<close>

lemma byte_step:
  fixes w :: "'a::len word"
  shows "push_bit 8 (drop_bit (8 * Suc k) w) OR ucast (ucast (drop_bit (8 * k) w) :: byte) = drop_bit (8 * k) w"
  by (rule bit_word_eqI) (auto simp: bit_simps algebra_simps)

lemma bytes_fold:
  fixes w :: "'a::len word"
  assumes "drop_bit (8 * n) w = 0" and "m \<le> n"
  shows "foldr (\<lambda>k v. push_bit 8 v OR ucast (ucast (drop_bit (8 * k) w) :: byte)) [m..<n] 0 = drop_bit (8 * m) w"
  using assms(2)
proof (induction rule: inc_induct)
  case base
  then show ?case using assms(1) by simp
next
  case (step m)
  then show ?case using byte_step [of m w] by (simp add: upt_conv_Cons)
qed

lemma get32_le32:
  assumes "\<And>k. k < 4 \<Longrightarrow> b ! (p + k) = le32 w ! k"
  shows "get32 b p = w"
proof -
  have b: "b ! p = ucast w" "b ! Suc p = ucast (drop_bit 8 w)" "b ! Suc (Suc p) = ucast (drop_bit 16 w)"
      "b ! (p + 3) = ucast (drop_bit 24 w)"
    using assms [of 0] assms [of 1] assms [of 2] assms [of 3] by (simp_all add: le32_def)
  have "drop_bit (8 * 4) w = 0" by (rule bit_word_eqI) (simp add: bit_simps)
  moreover have "[0..<4] = [0, 1, 2, 3 :: nat]" by (simp add: upt_rec)
  ultimately show ?thesis using bytes_fold [of 4 w 0] by (simp add: get32_def b)
qed

lemma get64_le64:
  assumes "\<And>k. k < 8 \<Longrightarrow> b ! (p + k) = le64 w ! k"
  shows "get64 b p = w"
proof -
  have b: "b ! p = ucast w" "b ! Suc p = ucast (drop_bit 8 w)" "b ! Suc (Suc p) = ucast (drop_bit 16 w)"
      "b ! (p + 3) = ucast (drop_bit 24 w)" "b ! (p + 4) = ucast (drop_bit 32 w)"
      "b ! (p + 5) = ucast (drop_bit 40 w)" "b ! (p + 6) = ucast (drop_bit 48 w)"
      "b ! (p + 7) = ucast (drop_bit 56 w)"
    using assms [of 0] assms [of 1] assms [of 2] assms [of 3] assms [of 4] assms [of 5] assms [of 6]
      assms [of 7] by (simp_all add: le64_def)
  have "drop_bit (8 * 8) w = 0" by (rule bit_word_eqI) (simp add: bit_simps)
  moreover have "[0..<8] = [0, 1, 2, 3, 4, 5, 6, 7 :: nat]" by (simp add: upt_rec)
  ultimately show ?thesis using bytes_fold [of 8 w 0] by (simp add: get64_def b)
qed

lemma poke_nth:
  "poke b p xs = Some b' \<Longrightarrow> i < length b \<Longrightarrow>
   b' ! i = (if p \<le> i \<and> i < p + length xs then xs ! (i - p) else b ! i)"
  by (auto simp: poke_def memcpy_at_nth)

lemma poke_length: "poke b p xs = Some b' \<Longrightarrow> length b' = length b"
  by (simp add: poke_def memcpy_at_length)

lemma poke_in: "p + length xs \<le> length b \<Longrightarrow> \<exists>b'. poke b p xs = Some b'"
  by (simp add: poke_def memcpy_at_ok)

lemma length_le [simp]: "length (le32 w) = 4" "length (le64 v) = 8"
  by (simp_all add: le32_def le64_def)

section \<open>The pipe\<close>

fun pipe_step :: "int \<Rightarrow> int \<Rightarrow> byte list \<Rightarrow> call \<Rightarrow> byte list" where
  "pipe_step w r q (Write f msg) = (if f = w then q @ msg else q)"
| "pipe_step w r q (Read f n) = (if f = r then drop n q else q)"
| "pipe_step w r q _ = q"

definition pipe_bytes :: "int \<Rightarrow> int \<Rightarrow> call list \<Rightarrow> byte list" where
  "pipe_bytes w r tr = foldl (pipe_step w r) [] tr"

definition pipe_law :: "os \<Rightarrow> int \<Rightarrow> int \<Rightarrow> bool" where
  "pipe_law os w r \<longleftrightarrow> (\<forall>tr.
     (\<forall>msg. ret (os tr (Write w msg)) = int (length msg)) \<and>
     (\<forall>n \<le> length (pipe_bytes w r tr). ret (os tr (Read r n)) = int n \<and>
        r_bytes (os tr (Read r n)) = take n (pipe_bytes w r tr)))"

abbreviation waiting_bytes :: "server \<Rightarrow> byte list" where
  "waiting_bytes st \<equiv> pipe_bytes (sendctrl_fd st) (recvctrl_fd st) (trace st)"

abbreviation server_pipe :: "os \<Rightarrow> server \<Rightarrow> bool" where
  "server_pipe os st \<equiv> pipe_law os (sendctrl_fd st) (recvctrl_fd st)"

lemma pipe_bytes_emit [simp]: "pipe_bytes w r (tr @ [c]) = pipe_step w r (pipe_bytes w r tr) c"
  by (simp add: pipe_bytes_def)

lemma send_loop_pipe:
  "server_pipe os st \<Longrightarrow> send_loop os msg st = Some (emit (Write (sendctrl_fd st) msg) st)"
  by (subst send_loop.simps) (simp add: sys_split pipe_law_def)

lemma block_readpipe_pipe:
  assumes "server_pipe os st" and "n \<le> length (waiting_bytes st)" and "n \<le> length buf"
  shows "block_readpipe os (recvctrl_fd st) buf n st =
    Some (take n (waiting_bytes st) @ drop n buf, emit (Read (recvctrl_fd st) n) st)"
proof -
  have r: "ret (os (trace st) (Read (recvctrl_fd st) n)) = int n"
      "r_bytes (os (trace st) (Read (recvctrl_fd st) n)) = take n (waiting_bytes st)"
    using assms by (simp_all add: pipe_law_def)
  have "poke buf 0 (take n (waiting_bytes st)) = Some (take n (waiting_bytes st) @ drop n buf)"
    using assms(2,3) by (simp add: poke_def memcpy_at_def min_absorb2)
  with r show ?thesis by (subst block_readpipe.simps) (simp add: sys_split Let_def)
qed

section \<open>Requests as messages\<close>

datatype request =
    Start_req u64 u32 | Close_req u64 u32 | Exit_req | Send_req u32 u64 int
  | Bind_req u64 u32 int | Listen_req u64 u32 int | Open_req u64 u32 string int

text \<open>The handler that is to be called for each, and with what.\<close>

fun handle :: "os \<Rightarrow> request \<Rightarrow> server \<Rightarrow> message \<Rightarrow> outcome" where
  "handle os (Start_req opq i) st m = start_socket os \<lparr>s_id = i, s_opaque = opq\<rparr> st m"
| "handle os (Close_req opq i) st m = close_socket os \<lparr>k_id = i, k_opaque = opq\<rparr> st m"
| "handle os Exit_req st m =
     Some (SOCKET_EXIT, st, m\<lparr>msg_opaque := 0, msg_ud := 0, msg_id := 0, msg_data := Nullptr\<rparr>)"
| "handle os (Send_req i buf sz) st m = send_socket os \<lparr>d_id = i, d_sz = sz, d_buffer = buf\<rparr> st m"
| "handle os (Bind_req opq i f) st m = bind_socket os \<lparr>b_id = i, b_fd = f, b_opaque = opq\<rparr> st m"
| "handle os (Listen_req opq i f) st m = listen_socket os \<lparr>l_id = i, l_fd = f, l_opaque = opq\<rparr> st m"
| "handle os (Open_req opq i h p) st m =
     open_socket os \<lparr>o_id = i, o_port = p, o_opaque = opq, o_host = Some h\<rparr> st m"

text \<open>
  A frame of a request: a kind, a length byte and a body of that length, whose bytes make the
  switch call the handler of the request whatever the rest of the reader's buffer holds.
\<close>

definition is_frame :: "byte list \<Rightarrow> request \<Rightarrow> bool" where
  "is_frame f req \<longleftrightarrow> (\<exists>ty body. f = ty # word_of_nat (length body) # body \<and> length body < 256 \<and>
     (\<forall>junk. length junk = 256 - length body \<longrightarrow>
        (\<forall>os st m. dispatch os ty (body @ junk) st m = handle os req st m)))"

definition pipe_holds :: "server \<Rightarrow> request list \<Rightarrow> bool" where
  "pipe_holds st reqs \<longleftrightarrow> (\<exists>frames. waiting_bytes st = concat frames \<and> list_all2 is_frame frames reqs)"

lemma pipe_holds_write:
  assumes "pipe_holds st reqs" and "is_frame f req" and "server_pipe os st"
  shows "\<exists>st'. send_loop os f st = Some st' \<and> pipe_holds st' (reqs @ [req]) \<and> slot st' = slot st \<and> trace st' = trace st @ [Write (sendctrl_fd st) f]"
proof -
  obtain frames where fr: "waiting_bytes st = concat frames" "list_all2 is_frame frames reqs"
    using assms(1) by (auto simp: pipe_holds_def)
  have "pipe_holds (emit (Write (sendctrl_fd st) f) st) (reqs @ [req])"
    unfolding pipe_holds_def using fr assms(2)
    by (intro exI [of _ "frames @ [f]"]) (simp add: list_all2_appendI)
  then show ?thesis using send_loop_pipe [OF assms(3)] by simp
qed

lemma pipe_holds_read:
  assumes "pipe_holds st (req # reqs)" and "server_pipe os st"
  shows "\<exists>st' n. ctrl_cmd os stk st m = handle os req st' m \<and> pipe_holds st' reqs \<and>
    st' = st\<lparr>trace := trace st @ [Read (recvctrl_fd st) 2, Read (recvctrl_fd st) n]\<rparr>"
proof -
  obtain f frames where fr: "waiting_bytes st = f @ concat frames" "list_all2 is_frame frames reqs"
      "is_frame f req"
    using assms(1) by (auto simp: pipe_holds_def list_all2_Cons2)
  obtain ty body where f: "f = ty # word_of_nat (length body) # body" "length body < 256"
      and go: "\<And>junk os st m. length junk = 256 - length body \<Longrightarrow>
        dispatch os ty (body @ junk) st m = handle os req st m"
    using fr(3) by (auto simp: is_frame_def)
  define st1 where "st1 = emit (Read (recvctrl_fd st) 2) st"
  define st2 where "st2 = emit (Read (recvctrl_fd st) (length body)) st1"
  have q1: "waiting_bytes st1 = body @ concat frames" by (simp add: st1_def fr(1) f(1))
  have len: "unat (word_of_nat (length body) :: byte) = length body"
    using f(2) by (simp add: unat_of_nat)
  have bl: "length (stack_bytes n xs) = n" for n xs by (simp add: stack_bytes_def)
  have "block_readpipe os (recvctrl_fd st) (stack_bytes 2 (stk (trace st))) 2 st =
      Some ([ty, word_of_nat (length body)], st1)"
    using block_readpipe_pipe [OF assms(2), of 2 "stack_bytes 2 (stk (trace st))"]
    by (simp add: fr(1) f(1) bl st1_def)
  moreover have "block_readpipe os (recvctrl_fd st1) (stack_bytes 256 (drop 2 (stk (trace st)))) (length body) st1 =
      Some (body @ drop (length body) (stack_bytes 256 (drop 2 (stk (trace st)))), st2)"
    using block_readpipe_pipe [of os st1 "length body" "stack_bytes 256 (drop 2 (stk (trace st)))"] assms(2) f(2)
    by (simp add: q1 bl st2_def) (simp add: st1_def)
  ultimately have "ctrl_cmd os stk st m = handle os req st2 m"
    by (simp add: ctrl_cmd_def len go bl)
  moreover have "waiting_bytes st2 = concat frames" using q1 by (simp add: st2_def) (simp add: st1_def)
  then have "pipe_holds st2 reqs" using fr(2) by (auto simp: pipe_holds_def)
  moreover have "st2 = st\<lparr>trace := trace st @ [Read (recvctrl_fd st) 2, Read (recvctrl_fd st) (length body)]\<rparr>"
    by (simp add: st2_def st1_def emit_def)
  ultimately show ?thesis by blast
qed

section \<open>The packages the code builds\<close>

definition int32 :: "int \<Rightarrow> bool" where
  "int32 n \<longleftrightarrow> - (2 ^ 31) \<le> n \<and> n < 2 ^ 31"

lemma sint_int32: "int32 n \<Longrightarrow> sint (word_of_int n :: u32) = n"
  by (simp add: int32_def sint_sbintrunc' signed_take_bit_int_eq_self)

text \<open>The frame \<open>send_request\<close> writes: kind, length, and the first bytes of the union.\<close>

definition package_frame :: "byte list \<Rightarrow> char \<Rightarrow> nat \<Rightarrow> byte list" where
  "package_frame pkg ty len = of_char ty # word_of_nat len # take len (drop 8 pkg)"

lemma send_request_frame:
  assumes "length pkg = 520" and "len \<le> 256"
  shows "send_request os pkg ty len st = send_loop os (package_frame pkg ty len) st"
proof -
  obtain p1 where p1: "poke pkg 6 [of_char ty] = Some p1" using poke_in [of 6 "[of_char ty]" pkg] assms by auto
  obtain p2 where p2: "poke p1 7 [word_of_nat len] = Some p2"
    using poke_in [of 7 "[word_of_nat len]" p1] assms poke_length [OF p1] by auto
  have l: "length p1 = 520" "length p2 = 520" using assms poke_length [OF p1] poke_length [OF p2] by simp_all
  have "take (len + 2) (drop 6 p2) = package_frame pkg ty len"
  proof (rule nth_equalityI)
    show "length (take (len + 2) (drop 6 p2)) = length (package_frame pkg ty len)"
      using assms l by (simp add: package_frame_def)
    fix i assume "i < length (take (len + 2) (drop 6 p2))"
    then have i: "i < len + 2" using assms l by simp
    have nth: "take (len + 2) (drop 6 p2) ! i = p2 ! (6 + i)" using i assms l by simp
    have p2: "p2 ! 6 = of_char ty" "p2 ! 7 = word_of_nat len" "\<And>k. k < len \<Longrightarrow> p2 ! (8 + k) = pkg ! (8 + k)"
      using poke_nth [OF p2] poke_nth [OF p1] assms l by simp_all
    consider "i = 0" | "i = 1" | k where "i = k + 2" "k < len"
      using i by (metis One_nat_def Suc_eq_plus1 add_2_eq_Suc' add_less_cancel_right not0_implies_Suc)
    then show "take (len + 2) (drop 6 p2) ! i = package_frame pkg ty len ! i"
    proof cases
      case (3 k)
      then have "p2 ! (6 + i) = p2 ! (8 + k)" by (simp add: add.commute)
      with 3 assms show ?thesis unfolding nth by (simp add: p2(3) package_frame_def)
    qed (unfold nth, simp_all add: p2 package_frame_def)
  qed
  with p1 p2 show ?thesis by (simp add: send_request_def)
qed

text \<open>What the reader's buffer holds where the package had been written.\<close>

lemma body_nth:
  "length pkg = 520 \<Longrightarrow> len \<le> 256 \<Longrightarrow> k < len \<Longrightarrow> (take len (drop 8 pkg) @ junk) ! k = pkg ! (8 + k)"
  by (simp add: nth_append)

lemma is_frame_package:
  assumes "length pkg = 520" and "len < 256"
    and "\<And>junk os st m. dispatch os (of_char ty) (take len (drop 8 pkg) @ junk) st m = handle os req st m"
  shows "is_frame (package_frame pkg ty len) req"
  unfolding is_frame_def package_frame_def using assms
  by (intro exI [of _ "of_char ty"] exI [of _ "take len (drop 8 pkg)"]) simp

text \<open>Fields read back from the body.\<close>

lemma body_get32:
  assumes "length pkg = 520" and "len \<le> 256" and "p + 4 \<le> len"
    and "\<And>k. k < 4 \<Longrightarrow> pkg ! (8 + p + k) = le32 w ! k"
  shows "get32 (take len (drop 8 pkg) @ junk) p = w"
  using assms by (intro get32_le32) (simp add: body_nth add.assoc [symmetric])

lemma body_get64:
  assumes "length pkg = 520" and "len \<le> 256" and "p + 8 \<le> len"
    and "\<And>k. k < 8 \<Longrightarrow> pkg ! (8 + p + k) = le64 w ! k"
  shows "get64 (take len (drop 8 pkg) @ junk) p = w"
  using assms by (intro get64_le64) (simp add: body_nth add.assoc [symmetric])

lemma dispatch_kinds:
  "dispatch os (of_char (CHR ''S'')) b st m = start_socket os (as_start b) st m"
  "dispatch os (of_char (CHR ''B'')) b st m = bind_socket os (as_bind b) st m"
  "dispatch os (of_char (CHR ''L'')) b st m = listen_socket os (as_listen b) st m"
  "dispatch os (of_char (CHR ''K'')) b st m = close_socket os (as_close b) st m"
  "dispatch os (of_char (CHR ''O'')) b st m = open_socket os (as_open b) st m"
  "dispatch os (of_char (CHR ''D'')) b st m = send_socket os (as_send b) st m"
  "dispatch os (of_char (CHR ''X'')) b st m = handle os Exit_req st m"
  by (simp_all add: dispatch_def)

lemmas dispatch_simps = dispatch_kinds [simplified]

text \<open>Two words: an identifier and the opaque value.\<close>

lemma package_id_opaque:
  assumes "length pkg = 520"
  obtains p1 p2 where "poke pkg 8 (le32 i) = Some p1" and "poke p1 16 (le64 opq) = Some p2"
    and "length p2 = 520" and "\<And>k. k < 4 \<Longrightarrow> p2 ! (8 + k) = le32 i ! k"
    and "\<And>k. k < 8 \<Longrightarrow> p2 ! (16 + k) = le64 opq ! k"
proof -
  obtain p1 where p1: "poke pkg 8 (le32 i) = Some p1" using poke_in [of 8 "le32 i" pkg] assms by auto
  obtain p2 where p2: "poke p1 16 (le64 opq) = Some p2"
    using poke_in [of 16 "le64 opq" p1] assms poke_length [OF p1] by auto
  show thesis
    using that [OF p1 p2] poke_nth [OF p1] poke_nth [OF p2] poke_length [OF p1] poke_length [OF p2] assms
    by simp
qed

lemma server_start_frame:
  assumes "length pkg = 520"
  shows "\<exists>f. server_start os pkg opq i st = send_loop os f st \<and> is_frame f (Start_req opq i)"
proof -
  obtain p1 p2 where p: "poke pkg 8 (le32 i) = Some p1" "poke p1 16 (le64 opq) = Some p2"
      "length p2 = 520" "\<And>k. k < 4 \<Longrightarrow> p2 ! (8 + k) = le32 i ! k"
      "\<And>k. k < 8 \<Longrightarrow> p2 ! (16 + k) = le64 opq ! k" by (rule package_id_opaque [OF assms, of i opq]) blast
  have "is_frame (package_frame p2 (CHR ''S'') 16) (Start_req opq i)"
    using p by (intro is_frame_package) (simp_all add: dispatch_simps as_start_def body_get32 body_get64)
  with p show ?thesis by (auto simp: server_start_def send_request_frame)
qed

lemma server_close_frame:
  assumes "length pkg = 520"
  shows "\<exists>f. server_close os pkg opq i st = send_loop os f st \<and> is_frame f (Close_req opq i)"
proof -
  obtain p1 p2 where p: "poke pkg 8 (le32 i) = Some p1" "poke p1 16 (le64 opq) = Some p2"
      "length p2 = 520" "\<And>k. k < 4 \<Longrightarrow> p2 ! (8 + k) = le32 i ! k"
      "\<And>k. k < 8 \<Longrightarrow> p2 ! (16 + k) = le64 opq ! k" by (rule package_id_opaque [OF assms, of i opq]) blast
  have "is_frame (package_frame p2 (CHR ''K'') 16) (Close_req opq i)"
    using p by (intro is_frame_package) (simp_all add: dispatch_simps as_close_def body_get32 body_get64)
  with p show ?thesis by (auto simp: server_close_def send_request_frame)
qed

lemma server_exit_frame:
  assumes "length pkg = 520"
  shows "\<exists>f. server_exit os pkg st = send_loop os f st \<and> is_frame f Exit_req"
proof -
  have "is_frame (package_frame pkg (CHR ''X'') 0) Exit_req"
    using assms by (intro is_frame_package) (simp_all add: dispatch_simps)
  with assms show ?thesis by (auto simp: server_exit_def send_request_frame)
qed

text \<open>Three fields: an identifier, an integer after it, and a 64-bit value.\<close>

lemma package_three:
  assumes "length pkg = 520" and "int32 n"
  obtains p1 p2 p3 where "poke pkg 16 (le64 v) = Some p1" and "poke p1 8 (le32 i) = Some p2"
    and "put_int p2 12 n = Some p3" and "length p3 = 520"
    and "\<And>k. k < 4 \<Longrightarrow> p3 ! (8 + k) = le32 i ! k"
    and "\<And>k. k < 4 \<Longrightarrow> p3 ! (12 + k) = le32 (word_of_int n) ! k"
    and "\<And>k. k < 8 \<Longrightarrow> p3 ! (16 + k) = le64 v ! k"
proof -
  obtain p1 where p1: "poke pkg 16 (le64 v) = Some p1" using poke_in [of 16 "le64 v" pkg] assms by auto
  obtain p2 where p2: "poke p1 8 (le32 i) = Some p2"
    using poke_in [of 8 "le32 i" p1] assms poke_length [OF p1] by auto
  obtain p3 where p3: "poke p2 12 (le32 (word_of_int n)) = Some p3"
    using poke_in [of 12 "le32 (word_of_int n)" p2] assms poke_length [OF p1] poke_length [OF p2] by auto
  show thesis
    using that [OF p1 p2, of p3] p3 poke_nth [OF p1] poke_nth [OF p2] poke_nth [OF p3]
      poke_length [OF p1] poke_length [OF p2] poke_length [OF p3] assms
    by (simp add: put_int_def)
qed

lemma body_get_int:
  assumes "length pkg = 520" and "len \<le> 256" and "p + 4 \<le> len" and "int32 n"
    and "\<And>k. k < 4 \<Longrightarrow> pkg ! (8 + p + k) = le32 (word_of_int n) ! k"
  shows "get_int (take len (drop 8 pkg) @ junk) p = n"
  using body_get32 [OF assms(1-3,5)] assms(4) by (simp add: get_int_def sint_int32)

lemma server_bind_frame:
  assumes "length pkg = 520" and "int32 f" and "reserve_id st = (i, st1)" and "0 \<le> sint i"
  shows "\<exists>fr. server_bind os pkg opq f st = map_option (\<lambda>st. (i, st)) (send_loop os fr st1) \<and>
    is_frame fr (Bind_req opq i f)"
proof -
  obtain p1 p2 p3 where p: "poke pkg 16 (le64 opq) = Some p1" "poke p1 8 (le32 i) = Some p2"
      "put_int p2 12 f = Some p3" "length p3 = 520" "\<And>k. k < 4 \<Longrightarrow> p3 ! (8 + k) = le32 i ! k"
      "\<And>k. k < 4 \<Longrightarrow> p3 ! (12 + k) = le32 (word_of_int f) ! k"
      "\<And>k. k < 8 \<Longrightarrow> p3 ! (16 + k) = le64 opq ! k"
    by (rule package_three [OF assms(1,2), of opq i]) blast
  have "is_frame (package_frame p3 (CHR ''B'') 16) (Bind_req opq i f)"
    using p assms(2)
    by (intro is_frame_package) (simp_all add: dispatch_simps as_bind_def body_get32 body_get64 body_get_int)
  moreover have "server_bind os pkg opq f st =
      map_option (\<lambda>st. (i, st)) (send_loop os (package_frame p3 (CHR ''B'') 16) st1)"
    using p assms(3,4) by (simp add: server_bind_def send_request_frame map_conv_bind_option o_def)
  ultimately show ?thesis by blast
qed

lemma server_listen_frame:
  assumes "length pkg = 520" and "int32 f" and "do_listen os addr port b st = Some (f, st0)" and "0 \<le> f"
    and "reserve_id st0 = (i, st1)" and "0 \<le> sint i"
  shows "\<exists>fr. server_listen os pkg opq addr port b st = map_option (\<lambda>st. (i, st)) (send_loop os fr st1) \<and>
    is_frame fr (Listen_req opq i f)"
proof -
  obtain p1 p2 p3 where p: "poke pkg 16 (le64 opq) = Some p1" "poke p1 8 (le32 i) = Some p2"
      "put_int p2 12 f = Some p3" "length p3 = 520" "\<And>k. k < 4 \<Longrightarrow> p3 ! (8 + k) = le32 i ! k"
      "\<And>k. k < 4 \<Longrightarrow> p3 ! (12 + k) = le32 (word_of_int f) ! k"
      "\<And>k. k < 8 \<Longrightarrow> p3 ! (16 + k) = le64 opq ! k"
    by (rule package_three [OF assms(1,2), of opq i]) blast
  have "is_frame (package_frame p3 (CHR ''L'') 24) (Listen_req opq i f)"
    using p assms(2)
    by (intro is_frame_package) (simp_all add: dispatch_simps as_listen_def body_get32 body_get64 body_get_int)
  moreover have "server_listen os pkg opq addr port b st =
      map_option (\<lambda>st. (i, st)) (send_loop os (package_frame p3 (CHR ''L'') 24) st1)"
    using p assms(3-) by (simp add: server_listen_def send_request_frame map_conv_bind_option o_def)
  ultimately show ?thesis by blast
qed

lemma server_send_frame:
  assumes "length pkg = 520" and "int32 sz" and "sock_id (slot st (HASH_ID i)) = i"
    and "sock_type (slot st (HASH_ID i)) \<noteq> SOCKET_TYPE_INVALID"
  shows "\<exists>fr. server_send os pkg i buf sz st =
      map_option (\<lambda>st. (wb_size (slot st (HASH_ID i)), st)) (send_loop os fr st) \<and>
    is_frame fr (Send_req i buf sz)"
proof -
  obtain p1 where p1: "poke pkg 8 (le32 i) = Some p1" using poke_in [of 8 "le32 i" pkg] assms by auto
  obtain p2 where p2: "poke p1 12 (le32 (word_of_int sz)) = Some p2"
    using poke_in [of 12 "le32 (word_of_int sz)" p1] assms poke_length [OF p1] by auto
  obtain p3 where p3: "poke p2 16 (le64 buf) = Some p3"
    using poke_in [of 16 "le64 buf" p2] assms poke_length [OF p1] poke_length [OF p2] by auto
  have p: "length p3 = 520" "\<And>k. k < 4 \<Longrightarrow> p3 ! (8 + k) = le32 i ! k"
      "\<And>k. k < 4 \<Longrightarrow> p3 ! (12 + k) = le32 (word_of_int sz) ! k" "\<And>k. k < 8 \<Longrightarrow> p3 ! (16 + k) = le64 buf ! k"
    using poke_nth [OF p1] poke_nth [OF p2] poke_nth [OF p3] poke_length [OF p1] poke_length [OF p2]
      poke_length [OF p3] assms(1) by simp_all
  have "is_frame (package_frame p3 (CHR ''D'') 16) (Send_req i buf sz)"
    using p assms(2)
    by (intro is_frame_package) (simp_all add: dispatch_simps as_send_def body_get32 body_get64 body_get_int)
  moreover have "server_send os pkg i buf sz st =
      map_option (\<lambda>st. (wb_size (slot st (HASH_ID i)), st)) (send_loop os (package_frame p3 (CHR ''D'') 16) st)"
    using p1 p2 p3 p(1) assms(3,4)
    by (simp add: server_send_def Let_def put_int_def send_request_frame map_conv_bind_option o_def)
  ultimately show ?thesis by blast
qed

text \<open>A host name in the package: its bytes and the final zero.\<close>

definition c_text :: "string \<Rightarrow> bool" where
  "c_text t \<longleftrightarrow> CHR 0x00 \<notin> set t"

lemma c_string_text:
  assumes "c_text t" and "drop p b = text_bytes t @ 0 # rest"
  shows "c_string b p = Some t"
proof -
  have inv: "char_of (unat (of_char c :: byte)) = c" for c
  proof -
    have "unat (of_char c :: byte) = take_bit 8 (of_char c)"
      by (simp only: of_nat_of_char [of c, where 'a = byte, symmetric] unsigned_of_nat) simp
    then show ?thesis by (simp add: char_of_take_bit_eq)
  qed
  have zero: "(of_char c :: byte) \<noteq> 0" if "c \<in> set t" for c
  proof
    assume "(of_char c :: byte) = 0"
    then have "c = CHR 0x00" using inv [of c] by (simp add: char_of_def)
    with that assms(1) show False by (simp add: c_text_def)
  qed
  have "takeWhile (\<lambda>x. x \<noteq> 0) (text_bytes t @ 0 # rest) = text_bytes t"
    using zero by (subst takeWhile_append2) (auto simp: text_bytes_def)
  then show ?thesis using assms(2) inv by (simp add: c_string_def text_bytes_def o_def)
qed

lemma drop_eq_append:
  assumes "p + length xs \<le> length b" and "\<And>k. k < length xs \<Longrightarrow> b ! (p + k) = xs ! k"
  shows "drop p b = xs @ drop (p + length xs) b"
proof (rule nth_equalityI)
  fix k assume "k < length (drop p b)"
  then show "drop p b ! k = (xs @ drop (p + length xs) b) ! k"
    using assms by (cases "k < length xs") (simp_all add: nth_append)
qed (use assms(1) in simp)

lemma server_connect_frame:
  assumes "length pkg = 520" and "int32 port" and "c_text addr" and "length addr \<le> 232"
    and "reserve_id st = (i, st1)" and "0 \<le> sint i"
  shows "\<exists>p. server_connect os pkg opq addr port st =
      map_option (\<lambda>st. (i, st)) (send_loop os (package_frame p (CHR ''O'') (24 + length addr)) st1) \<and>
    length p = 520 \<and>
    (length addr < 232 \<longrightarrow> is_frame (package_frame p (CHR ''O'') (24 + length addr)) (Open_req opq i addr port))"
proof -
  let ?n = "24 + length addr"
  obtain p1 p2 p3 where p: "poke pkg 16 (le64 opq) = Some p1" "poke p1 8 (le32 i) = Some p2"
      "put_int p2 12 port = Some p3" "length p3 = 520" "\<And>k. k < 4 \<Longrightarrow> p3 ! (8 + k) = le32 i ! k"
      "\<And>k. k < 4 \<Longrightarrow> p3 ! (12 + k) = le32 (word_of_int port) ! k"
      "\<And>k. k < 8 \<Longrightarrow> p3 ! (16 + k) = le64 opq ! k"
    by (rule package_three [OF assms(1,2), of opq i]) blast
  have hl: "length (text_bytes addr) = length addr" by (simp add: text_bytes_def)
  obtain p4 where p4: "poke p3 24 (text_bytes addr) = Some p4"
    using poke_in [of 24 "text_bytes addr" p3] assms(4) hl p(4) by auto
  obtain p5 where p5: "poke p4 ?n [0] = Some p5"
    using poke_in [of ?n "[0]" p4] assms(4) poke_length [OF p4] p(4) by auto
  have l: "length p4 = 520" "length p5 = 520" using poke_length [OF p4] poke_length [OF p5] p(4) by simp_all
  have low: "p5 ! k = p3 ! k" if "k < 24" for k
    using that poke_nth [OF p4, of k] poke_nth [OF p5, of k] l p(4) by simp
  have fields: "p5 ! (8 + k) = le32 i ! k" "p5 ! (12 + k) = le32 (word_of_int port) ! k" if "k < 4" for k
    using that low [of "8 + k"] low [of "12 + k"] p(5,6) by simp_all
  have field64: "p5 ! (16 + k) = le64 opq ! k" if "k < 8" for k
    using that low [of "16 + k"] p(7) by simp
  have frame: "is_frame (package_frame p5 (CHR ''O'') ?n) (Open_req opq i addr port)"
    if short: "length addr < 232"
  proof (rule is_frame_package)
    fix junk os st m
    let ?b = "take ?n (drop 8 p5) @ junk"
    have host: "p5 ! (24 + k) = (text_bytes addr @ [0]) ! k" if "k \<le> length addr" for k
      using that poke_nth [OF p4, of "24 + k"] poke_nth [OF p5, of "24 + k"] l p(4) assms(4) hl
      by (simp add: nth_append)
    have "?b ! (16 + k) = (text_bytes addr @ [0]) ! k" if "k \<le> length addr" for k
      using that host [of k] body_nth [of p5 ?n "16 + k" junk] l short by simp
    then have "drop 16 ?b = (text_bytes addr @ [0]) @ drop (16 + length (text_bytes addr @ [0])) ?b"
      using l short hl by (intro drop_eq_append) simp_all
    then have "c_string ?b 16 = Some addr" using assms(3) by (intro c_string_text) simp_all
    then have "as_open ?b = \<lparr>o_id = i, o_port = port, o_opaque = opq, o_host = Some addr\<rparr>"
      using l short fields field64 assms(2) by (simp add: as_open_def body_get32 body_get64 body_get_int)
    then show "dispatch os (of_char (CHR ''O'')) (take ?n (drop 8 p5) @ junk) st m = handle os (Open_req opq i addr port) st m"
      by (simp add: dispatch_simps)
  qed (use l short in simp_all)
  have "server_connect os pkg opq addr port st =
      map_option (\<lambda>st. (i, st)) (send_loop os (package_frame p5 (CHR ''O'') ?n) st1)"
    using p p4 p5 l assms(4-)
    by (simp add: server_connect_def open_request_def Let_def send_request_frame map_conv_bind_option o_def)
  with frame l show ?thesis by blast
qed

lemma reserve_id_same:
  "trace (snd (reserve_id st)) = trace st \<and> sendctrl_fd (snd (reserve_id st)) = sendctrl_fd st \<and>
   recvctrl_fd (snd (reserve_id st)) = recvctrl_fd st"
proof -
  have "trace (snd (reserve_loop n st)) = trace st \<and> sendctrl_fd (snd (reserve_loop n st)) = sendctrl_fd st \<and>
      recvctrl_fd (snd (reserve_loop n st)) = recvctrl_fd st" for n
    by (induction n arbitrary: st) (simp_all add: draw_id_def Let_def case_prod_beta)
  then show ?thesis by (simp add: reserve_id_def)
qed

section \<open>A pipe for concrete runs\<close>

text \<open>An operating system whose control pipe works; every other call does nothing and returns 0.\<close>

definition null_reply :: reply where
  "null_reply = \<lparr>ret = 0, errno = 0, r_bytes = [], r_ptr = 0, r_fds = (4, 5), r_value = 0, r_text = [],
     r_addr = \<lparr>sa_family = 2, sa_addr = [127, 0, 0, 1], sa_port = 8888\<rparr>, r_addrs = [], r_events = []\<rparr>"

fun pipe_os :: os where
  "pipe_os tr (Write f msg) = null_reply\<lparr>ret := int (length msg)\<rparr>"
| "pipe_os tr (Read f n) = (let q = pipe_bytes 5 4 tr in
     null_reply\<lparr>ret := int (length (take n q)), r_bytes := take n q\<rparr>)"
| "pipe_os tr (Select f) = null_reply\<lparr>ret := (if pipe_bytes 5 4 tr = [] then 0 else 1)\<rparr>"
| "pipe_os tr _ = null_reply"

lemma pipe_os_law: "pipe_law pipe_os 5 4"
  by (simp add: pipe_law_def null_reply_def min_absorb2)

lemma pipe_os_server: "server_pipe pipe_os blank_server"
  using pipe_os_law by (simp add: blank_server_def)

lemma blank_pipe: "pipe_holds blank_server []"
  by (simp add: pipe_holds_def blank_server_def pipe_bytes_def)

section \<open>Properties\<close>

text \<open>
  C28: requests on sockets that exist. With the pipe holding some requests, \<open>server_start\<close>,
  \<open>server_close\<close> and \<open>server_exit\<close>, and \<open>server_send\<close> on a socket in use, return, append exactly one
  request to the pipe, the one with their own arguments, whatever was on the stack, and change no
  slot; \<open>server_send\<close> reports the number of waiting bytes.
\<close>

theorem requests_posted:
  assumes "server_pipe os st" and "pipe_holds st reqs" and "length pkg = 520"
  shows "(\<exists>st'. server_start os pkg opq i st = Some st' \<and>
      pipe_holds st' (reqs @ [Start_req opq i]) \<and> slot st' = slot st) \<and>
    (\<exists>st'. server_close os pkg opq i st = Some st' \<and>
      pipe_holds st' (reqs @ [Close_req opq i]) \<and> slot st' = slot st) \<and>
    (\<exists>st'. server_exit os pkg st = Some st' \<and>
      pipe_holds st' (reqs @ [Exit_req]) \<and> slot st' = slot st) \<and>
    (int32 sz \<and> sock_id (slot st (HASH_ID i)) = i \<and>
      sock_type (slot st (HASH_ID i)) \<noteq> SOCKET_TYPE_INVALID \<longrightarrow>
      (\<exists>st'. server_send os pkg i buf sz st = Some (wb_size (slot st (HASH_ID i)), st') \<and>
        pipe_holds st' (reqs @ [Send_req i buf sz]) \<and> slot st' = slot st))"
proof -
  note post = pipe_holds_write [OF assms(2) _ assms(1)]
  from server_start_frame [OF assms(3), of os opq i st] post
  have a: "\<exists>st'. server_start os pkg opq i st = Some st' \<and>
      pipe_holds st' (reqs @ [Start_req opq i]) \<and> slot st' = slot st" by fastforce
  from server_close_frame [OF assms(3), of os opq i st] post
  have b: "\<exists>st'. server_close os pkg opq i st = Some st' \<and>
      pipe_holds st' (reqs @ [Close_req opq i]) \<and> slot st' = slot st" by fastforce
  from server_exit_frame [OF assms(3), of os st] post
  have c: "\<exists>st'. server_exit os pkg st = Some st' \<and>
      pipe_holds st' (reqs @ [Exit_req]) \<and> slot st' = slot st" by fastforce
  have "\<exists>st'. server_send os pkg i buf sz st = Some (wb_size (slot st (HASH_ID i)), st') \<and>
        pipe_holds st' (reqs @ [Send_req i buf sz]) \<and> slot st' = slot st"
    if "int32 sz" "sock_id (slot st (HASH_ID i)) = i" "sock_type (slot st (HASH_ID i)) \<noteq> SOCKET_TYPE_INVALID"
    using server_send_frame [OF assms(3) that, of os buf] post by fastforce
  with a b c show ?thesis by blast
qed

theorem requests_posted_witness:
  "\<exists>st'. server_close pipe_os (replicate 520 7) 100 3 blank_server = Some st' \<and>
     pipe_holds st' [Close_req 100 3]"
  using requests_posted [OF pipe_os_server blank_pipe, of "replicate 520 7" 100 3] by auto

text \<open>
  Requests that make a new socket. When a number \<open>i\<close> can be reserved, \<open>server_bind\<close>,
  \<open>server_connect\<close> with a host name of fewer than 232 characters, and \<open>server_listen\<close> after its
  socket is listening return \<open>i\<close> and append the request with their arguments and \<open>i\<close> to the
  pipe; the slots are those after the reservation.
\<close>

theorem reserving_requests_posted:
  assumes "server_pipe os st" and "pipe_holds st reqs" and "length pkg = 520"
    and "reserve_id st = (i, st1)" and "0 \<le> sint i"
  shows "(int32 f \<longrightarrow> (\<exists>st'. server_bind os pkg opq f st = Some (i, st') \<and>
      pipe_holds st' (reqs @ [Bind_req opq i f]) \<and> slot st' = slot st1)) \<and>
    (int32 port \<and> c_text addr \<and> length addr < 232 \<longrightarrow>
      (\<exists>st'. server_connect os pkg opq addr port st = Some (i, st') \<and>
        pipe_holds st' (reqs @ [Open_req opq i addr port]) \<and> slot st' = slot st1)) \<and>
    (int32 f \<and> 0 \<le> f \<and> do_listen os host port backlog st0 = Some (f, st) \<longrightarrow>
      (\<exists>st'. server_listen os pkg opq host port backlog st0 = Some (i, st') \<and>
        pipe_holds st' (reqs @ [Listen_req opq i f]) \<and> slot st' = slot st1))"
proof -
  have same: "trace st1 = trace st \<and> sendctrl_fd st1 = sendctrl_fd st \<and> recvctrl_fd st1 = recvctrl_fd st"
    using reserve_id_same [of st] assms(4) by simp
  have holds: "pipe_holds st1 reqs" using assms(2) same by (simp add: pipe_holds_def)
  have pipe: "server_pipe os st1" using assms(1) same by simp
  note post = pipe_holds_write [OF holds _ pipe]
  have a: "\<exists>st'. server_bind os pkg opq f st = Some (i, st') \<and>
      pipe_holds st' (reqs @ [Bind_req opq i f]) \<and> slot st' = slot st1" if "int32 f"
    using server_bind_frame [OF assms(3) that assms(4,5), of os opq] post by fastforce
  have b: "\<exists>st'. server_connect os pkg opq addr port st = Some (i, st') \<and>
      pipe_holds st' (reqs @ [Open_req opq i addr port]) \<and> slot st' = slot st1"
    if "int32 port" "c_text addr" "length addr < 232"
    using server_connect_frame [OF assms(3) that(1,2) _ assms(4,5), of os opq] that(3) post by fastforce
  have "\<exists>st'. server_listen os pkg opq host port backlog st0 = Some (i, st') \<and>
      pipe_holds st' (reqs @ [Listen_req opq i f]) \<and> slot st' = slot st1"
    if "int32 f" "0 \<le> f" "do_listen os host port backlog st0 = Some (f, st)"
    using server_listen_frame [OF assms(3) that(1,3,2) assms(4,5), of opq] post by fastforce
  with a b show ?thesis by blast
qed

lemma blank_reserve:
  obtains i st1 where "reserve_id blank_server = (i, st1)" and "0 \<le> sint i"
proof -
  have "alloc_ok blank_server" using blank_table_ok by (simp add: table_ok_def)
  from reserve_id_cases [OF this] obtain k where
    "reserve_id blank_server = (later_id (alloc_id blank_server) k, reserved (later_id (alloc_id blank_server) k) blank_server)"
    using blank_free by (metis MAX_SOCKET_def zero_less_numeral zero_less_power)
  then show thesis using later_id_sint that by blast
qed

theorem reserving_requests_posted_witness:
  "\<exists>i st'. server_connect pipe_os (replicate 520 7) 400 ''127.0.0.1'' 8888 blank_server = Some (i, st') \<and>
     pipe_holds st' [Open_req 400 i ''127.0.0.1'' 8888]"
proof -
  obtain i st1 where i: "reserve_id blank_server = (i, st1)" "0 \<le> sint i" by (rule blank_reserve)
  show ?thesis
    using reserving_requests_posted [OF pipe_os_server blank_pipe _ i, where pkg = "replicate 520 7"
        and opq = 400 and addr = "''127.0.0.1''" and port = 8888 and f = 0 and host = None
        and backlog = 0 and ?st0.0 = blank_server]
    by (auto simp: int32_def c_text_def)
qed


definition blank_message :: message where
  "blank_message = \<lparr>msg_id = 0, msg_opaque = 0, msg_ud = 0, msg_data = Nullptr\<rparr>"


text \<open>
  A host name of exactly 232 characters passes the length check, but the package has 256
  bytes and its length byte is 0. \<open>server_connect\<close> returns the number as if all was well. The
  polling thread reads the two header bytes only, calls \<open>open_socket\<close> on whatever was on its own
  stack, and leaves the 256 bytes in the pipe, where the next request should start.
\<close>

theorem connect_length_wraps:
  assumes "server_pipe os st" and "waiting_bytes st = []" and "length pkg = 520"
    and "int32 port" and "c_text addr" and "length addr = 232"
    and "reserve_id st = (i, st1)" and "0 \<le> sint i"
  shows "\<exists>st' st2. server_connect os pkg opq addr port st = Some (i, st') \<and>
    ctrl_cmd os stk st' m = open_socket os (as_open (stack_bytes 256 (drop 2 (stk (trace st'))))) st2 m \<and>
    length (waiting_bytes st2) = 256"
proof -
  obtain p where p: "server_connect os pkg opq addr port st =
      map_option (\<lambda>st. (i, st)) (send_loop os (package_frame p (CHR ''O'') 256) st1)" "length p = 520"
    using server_connect_frame [OF assms(3-5) _ assms(7,8), of os opq] assms(6) by auto
  define st' where "st' = emit (Write (sendctrl_fd st1) (package_frame p (CHR ''O'') 256)) st1"
  have same: "trace st1 = trace st" "sendctrl_fd st1 = sendctrl_fd st" "recvctrl_fd st1 = recvctrl_fd st"
    using reserve_id_same [of st] assms(7) by simp_all
  have pipe: "server_pipe os st1" "server_pipe os st'" using assms(1) same by (simp_all add: st'_def)
  have q: "waiting_bytes st' = [of_char (CHR ''O''), 0] @ take 256 (drop 8 p)"
    using assms(2) same by (simp add: st'_def package_frame_def)
  define st3 where "st3 = emit (Read (recvctrl_fd st') 2) st'"
  define st2 where "st2 = emit (Read (recvctrl_fd st') 0) st3"
  let ?buf = "stack_bytes 256 (drop 2 (stk (trace st')))"
  have bl: "length (stack_bytes n xs) = n" for n xs by (simp add: stack_bytes_def)
  have "block_readpipe os (recvctrl_fd st') (stack_bytes 2 (stk (trace st'))) 2 st' =
      Some ([of_char (CHR ''O''), 0], st3)"
    using block_readpipe_pipe [OF pipe(2), of 2 "stack_bytes 2 (stk (trace st'))"]
    by (simp add: q bl st3_def)
  moreover have "block_readpipe os (recvctrl_fd st3) ?buf 0 st3 = Some (?buf, st2)"
    using block_readpipe_pipe [of os st3 0 ?buf] pipe(2) by (simp add: st3_def st2_def)
  ultimately have "ctrl_cmd os stk st' m = open_socket os (as_open ?buf) st2 m"
    by (simp add: ctrl_cmd_def dispatch_simps)
  moreover have "waiting_bytes st3 = take 256 (drop 8 p)" using q by (simp add: st3_def)
  then have "length (waiting_bytes st2) = 256" using p(2) unfolding st2_def by simp
  moreover have "server_connect os pkg opq addr port st = Some (i, st')"
    using p(1) send_loop_pipe [OF pipe(1)] by (simp add: st'_def)
  ultimately show ?thesis by blast
qed

theorem connect_length_wraps_witness:
  "\<exists>i st' st2. server_connect pipe_os (replicate 520 7) 400 (replicate 232 (CHR ''a'')) 80 blank_server = Some (i, st') \<and>
     ctrl_cmd pipe_os (\<lambda>_. [1, 2, 3]) st' blank_message =
       open_socket pipe_os (as_open (3 # replicate 255 0)) st2 blank_message"
proof -
  obtain i st1 where i: "reserve_id blank_server = (i, st1)" "0 \<le> sint i" by (rule blank_reserve)
  have q: "waiting_bytes blank_server = []" by (simp add: blank_server_def pipe_bytes_def)
  have b: "stack_bytes 256 [3] = 3 # replicate 255 0"
    by (simp add: stack_bytes_def take_Cons' del: replicate.simps)
  show ?thesis
    using connect_length_wraps [OF pipe_os_server q _ _ _ _ i, where pkg = "replicate 520 7" and opq = 400
        and addr = "replicate 232 (CHR ''a'')" and port = 80 and stk = "\<lambda>_. [1, 2, 3]" and m = blank_message]
    by (auto simp: int32_def c_text_def b)
qed

text \<open>
  Writing to the control pipe retries after every error, not only after an interrupt: if the
  pipe keeps failing, whatever the error, a request never returns.
\<close>

theorem send_request_hangs:
  assumes "\<And>tr msg. ret (os tr (Write (sendctrl_fd st) msg)) < 0"
  shows "send_request os pkg ty len st = None"
proof -
  have "False" if "send_loop os msg st' = Some t" "sendctrl_fd st' = sendctrl_fd st" for msg st' t
  proof -
    have "(\<forall>tr msg. ret (os tr (Write (sendctrl_fd st') msg)) < 0) \<longrightarrow> False"
    proof (rule send_loop.raw_induct [where P =
          "\<lambda>os msg s t. (\<forall>tr msg. ret (os tr (Write (sendctrl_fd s) msg)) < 0) \<longrightarrow> False", OF _ that(1)])
      fix f os msg s t
      assume IH: "\<And>os msg s t. f os msg s = Some t \<Longrightarrow>
          (\<forall>tr msg. ret (os tr (Write (sendctrl_fd s) msg)) < 0) \<longrightarrow> False"
        and eq: "(let (r, st) = sys os (Write (sendctrl_fd s) msg) s in
          if ret r < 0 then f os msg st else if ret r = int (length msg) then Some st else None) = Some t"
      show "(\<forall>tr msg. ret (os tr (Write (sendctrl_fd s) msg)) < 0) \<longrightarrow> False"
      proof
        assume bad: "\<forall>tr msg. ret (os tr (Write (sendctrl_fd s) msg)) < 0"
        with eq have "f os msg (emit (Write (sendctrl_fd s) msg) s) = Some t"
          by (simp add: sys_split Let_def)
        from IH [OF this] bad show False by simp
      qed
    qed
    with assms that(2) show False by simp
  qed
  then show ?thesis
    by (cases "send_request os pkg ty len st") (auto simp: send_request_def bind_eq_Some_conv)
qed

text \<open>An operating system that answers every call with the same error number.\<close>

definition failing_os :: "int \<Rightarrow> os" where
  "failing_os e tr c = null_reply\<lparr>ret := - 1, errno := e\<rparr>"

theorem send_request_hangs_witness:
  "server_exit (failing_os 9) (replicate 520 0) blank_server = None"
  unfolding server_exit_def
  by (rule send_request_hangs) (simp add: failing_os_def)

end
