(* ===== verification/Socket_Theorems.thy ===== *)
theory Socket_Theorems
  imports Socket_Run Socket_Wire
begin

text \<open>
  Properties of the gate server: what holds in every run, and what each handler does. They rest on
  the invariant of \<open>Socket_Safety\<close> and \<open>Socket_Run\<close>.
\<close>

lemma pipe_os_epoll: "epoll_law pipe_os"
  by (simp add: epoll_law_def null_reply_def)

lemma pipe_os_up: "init_comes_up pipe_os blank_server"
  by (simp add: init_comes_up_def null_reply_def blank_server_def FD_SETSIZE_def)

lemma blank_events: "length (ev blank_server) = MAX_EVENT" "trace blank_server = []"
  by (simp_all add: blank_server_def)

lemma blank_srv_ok: "srv_ok blank_server"
  by (simp add: srv_ok_def socket_ok_def alloc_ok_def events_ok_def blank_server_def blank_socket_def
      MAX_EVENT_def)

section \<open>Runs\<close>

text \<open>
  C1: the invariant. In every state a run reaches from \<open>initialize\<close>, by any turns of the polling
  thread and any requests of other threads in any order, with any behaviour of the operating
  system that keeps epoll's promise: no socket ever has unsent buffers queued, none is ever half
  closed, every socket in use sits in the slot of its number, so that numbers in use are distinct,
  and the event window stays within the event array and points to slots.
\<close>

theorem run_invariant:
  assumes "epoll_law os" and "init_comes_up os st0" and "length (ev st0) = MAX_EVENT"
    and "trace st0 = []" and "initialize os st0 = Some st" and "(server_step os)\<^sup>*\<^sup>* st st'"
  shows "(\<forall>k < MAX_SOCKET. send_buffer_empty (slot st' k) \<and>
      sock_type (slot st' k) \<noteq> SOCKET_TYPE_HALFCLOSE \<and> sock_type (slot st' k) \<le> SOCKET_TYPE_BIND) \<and>
    table_ok st' \<and>
    event_index st' \<le> event_n st' \<and> event_n st' \<le> MAX_EVENT \<and> length (ev st') = MAX_EVENT \<and>
    (\<forall>j < event_n st'. \<forall>k. ev_s (ev st' ! j) = Some k \<longrightarrow> k < MAX_SOCKET)"
proof -
  have "srv_ok st" using initialize_up [OF assms(2,3)] assms(4,5) by auto
  then have "srv_ok st'" by (rule run_srv_ok [OF assms(6,1)])
  then show ?thesis
    by (auto simp: srv_ok_def socket_ok_def send_buffer_empty_def table_ok_def events_ok_def)
qed

lemma pipe_os_initialized:
  obtains st where "initialize pipe_os blank_server = Some st" and "srv_ok st" and "\<forall>k < MAX_SOCKET. free_slot st k"
  using initialize_up [OF pipe_os_up blank_events(1)] blank_events(2) by auto

theorem run_invariant_witness:
  "\<exists>st st'. initialize pipe_os blank_server = Some st \<and> (server_step pipe_os)\<^sup>*\<^sup>* st st' \<and> table_ok st'"
proof -
  obtain st where st: "initialize pipe_os blank_server = Some st" by (rule pipe_os_initialized)
  from run_invariant [OF pipe_os_epoll pipe_os_up blank_events st rtranclp.rtrancl_refl]
  show ?thesis using st by blast
qed

lemma life_end:
  assumes "life t t'" and "t \<in> {SOCKET_TYPE_LISTEN, SOCKET_TYPE_CONNECTED, SOCKET_TYPE_BIND, SOCKET_TYPE_INVALID}"
  shows "t' = t \<or> t' = SOCKET_TYPE_INVALID"
  using assms by (induction rule: rtranclp_induct) (auto elim: life_step.cases)

lemma life_pending:
  assumes "life t t'" and "t \<in> {SOCKET_TYPE_PACCEPT, SOCKET_TYPE_CONNECTING}"
  shows "t' = t \<or> t' = SOCKET_TYPE_CONNECTED \<or> t' = SOCKET_TYPE_INVALID"
  using assms by (induction rule: rtranclp_induct) (auto elim: life_step.cases)

lemma life_plisten:
  assumes "life SOCKET_TYPE_PLISTEN t'"
  shows "t' \<in> {SOCKET_TYPE_PLISTEN, SOCKET_TYPE_LISTEN, SOCKET_TYPE_INVALID}"
  using assms by (induction rule: rtranclp_induct) (auto elim: life_step.cases)



section \<open>Opening a listener\<close>

lemma pipe_holds_cong:
  "trace st' = trace st \<Longrightarrow> sendctrl_fd st' = sendctrl_fd st \<Longrightarrow> recvctrl_fd st' = recvctrl_fd st \<Longrightarrow>
   pipe_holds st' reqs = pipe_holds st reqs"
  by (simp add: pipe_holds_def)

lemma set_type_simps [simp]:
  "trace (set_type k t st) = trace st" "sendctrl_fd (set_type k t st) = sendctrl_fd st"
  "recvctrl_fd (set_type k t st) = recvctrl_fd st"
  "slot (set_type k t st) = (slot st)(k := (slot st k)\<lparr>sock_type := t\<rparr>)"
  by (simp_all add: set_type_def)

lemma listen_handled:
  assumes "sock_type (slot st (HASH_ID i)) = SOCKET_TYPE_RESERVE"
  shows "\<exists>st'. handle os (Listen_req opq i f) st m = Some (no_message, st', m) \<and>
    trace st' = trace st \<and> sendctrl_fd st' = sendctrl_fd st \<and> recvctrl_fd st' = recvctrl_fd st \<and>
    slot st' = (slot st)(HASH_ID i := (slot st (HASH_ID i))\<lparr>sock_id := i, fd := f,
      protocol := PROTOCOL_TCP, opaque := opq, sock_type := SOCKET_TYPE_PLISTEN\<rparr>)"
  using assms by (simp add: listen_socket_def new_socket_def Let_def)

lemma start_handled:
  assumes "sock_type (slot st (HASH_ID i)) = SOCKET_TYPE_PLISTEN" and "sock_id (slot st (HASH_ID i)) = i"
    and "\<forall>tr e f p fl. ret (os tr (Epoll_add e f p fl)) \<noteq> - 1"
  shows "\<exists>st'. handle os (Start_req opq i) st m = Some (SOCKET_OPEN, st',
      m\<lparr>msg_id := i, msg_opaque := opq, msg_ud := 0, msg_data := Literal ''start''\<rparr>) \<and>
    slot st' = (slot st)(HASH_ID i := (slot st (HASH_ID i))\<lparr>sock_type := SOCKET_TYPE_LISTEN, opaque := opq\<rparr>) \<and>
    trace st' = trace st @ [Epoll_add (event_fd st) (fd (slot st (HASH_ID i))) (Some (HASH_ID i)) EPOLLIN]"
  using assms by (simp add: start_socket_def ep_add_def sys_split Let_def)

text \<open>The two requests reach the pipe one after the other, with the slot reserved.\<close>

lemma listen_start_posted:
  assumes "server_pipe os st" and "pipe_holds st []" and "do_listen os host port backlog st0 = Some (f, st)"
    and "0 \<le> f" and "int32 f" and "reserve_id st = (i, st1)" and "0 \<le> sint i" and "table_ok st"
    and "length pkg = 520" and "length pkg' = 520"
  shows "\<exists>sta stb. server_listen os pkg opq host port backlog st0 = Some (i, sta) \<and>
    server_start os pkg' opq' i sta = Some stb \<and>
    pipe_holds stb [Listen_req opq i f, Start_req opq' i] \<and> server_pipe os stb \<and>
    slot stb = (slot st)(HASH_ID i := (slot st (HASH_ID i))
      \<lparr>sock_type := SOCKET_TYPE_RESERVE, sock_id := i, fd := - 1\<rparr>)"
proof -
  have same: "trace st1 = trace st" "sendctrl_fd st1 = sendctrl_fd st" "recvctrl_fd st1 = recvctrl_fd st"
    using reserve_id_same [of st] assms(6) by simp_all
  have pipe1: "server_pipe os st1" "pipe_holds st1 []"
    using assms(1,2) same pipe_holds_cong [of st1 st] by simp_all
  have "alloc_ok st" using assms(8) by (simp add: table_ok_def)
  from reserve_id_cases [OF this] have "st1 = reserved i st"
    using assms(6,7) by auto
  then have slot1: "slot st1 = (slot st)(HASH_ID i := (slot st (HASH_ID i))
      \<lparr>sock_type := SOCKET_TYPE_RESERVE, sock_id := i, fd := - 1\<rparr>)" by (simp add: reserved_slot)
  obtain fr where fr: "server_listen os pkg opq host port backlog st0 =
      map_option (\<lambda>st. (i, st)) (send_loop os fr st1)" "is_frame fr (Listen_req opq i f)"
    using server_listen_frame [OF assms(9,5,3,4,6,7)] by blast
  define sta where "sta = emit (Write (sendctrl_fd st1) fr) st1"
  have a: "server_listen os pkg opq host port backlog st0 = Some (i, sta)"
    using fr(1) send_loop_pipe [OF pipe1(1)] by (simp add: sta_def)
  have holdsa: "pipe_holds sta [Listen_req opq i f]"
    using pipe_holds_write [OF pipe1(2) fr(2) pipe1(1)] send_loop_pipe [OF pipe1(1)] by (simp add: sta_def)
  have pipea: "server_pipe os sta" using pipe1(1) by (simp add: sta_def)
  obtain fs where fs: "server_start os pkg' opq' i sta = send_loop os fs sta" "is_frame fs (Start_req opq' i)"
    using server_start_frame [OF assms(10)] by blast
  define stb where "stb = emit (Write (sendctrl_fd sta) fs) sta"
  have b: "server_start os pkg' opq' i sta = Some stb"
    using fs(1) send_loop_pipe [OF pipea] by (simp add: stb_def)
  have holdsb: "pipe_holds stb [Listen_req opq i f, Start_req opq' i]"
    using pipe_holds_write [OF holdsa fs(2) pipea] send_loop_pipe [OF pipea] by (simp add: stb_def)
  have pipeb: "server_pipe os stb" using pipea by (simp add: stb_def)
  have "slot stb = slot st1" by (simp add: stb_def sta_def)
  with a b holdsb pipeb slot1 show ?thesis by metis
qed

text \<open>
  C29: opening a listener, end to end. A thread calls \<open>server_listen\<close>, which binds a socket \<open>f\<close> and
  reserves the number \<open>i\<close>, and then \<open>server_start\<close> with \<open>i\<close>. When the polling thread has served the two
  requests, it has reported nothing for the first and \<^verbatim>\<open>SOCKET_OPEN\<close> with \<open>i\<close> and the second
  owner for the second; the slot of \<open>i\<close> is a listener on \<open>f\<close> owned by that owner, the socket was
  registered with epoll under that slot, and every other slot is untouched.
\<close>

theorem listen_then_start:
  assumes "server_pipe os st" and "pipe_holds st []" and "do_listen os host port backlog st0 = Some (f, st)"
    and "0 \<le> f" and "int32 f" and "reserve_id st = (i, st1)" and "0 \<le> sint i" and "table_ok st"
    and "length pkg = 520" and "length pkg' = 520"
    and epoll: "\<forall>tr e f p fl. ret (os tr (Epoll_add e f p fl)) \<noteq> - 1"
  shows "\<exists>sta stb stc std.
    server_listen os pkg opq host port backlog st0 = Some (i, sta) \<and>
    server_start os pkg' opq' i sta = Some stb \<and>
    ctrl_cmd os stk stb m = Some (no_message, stc, m) \<and>
    ctrl_cmd os stk stc m = Some (SOCKET_OPEN, std,
      m\<lparr>msg_id := i, msg_opaque := opq', msg_ud := 0, msg_data := Literal ''start''\<rparr>) \<and>
    slot std = (slot st)(HASH_ID i := (slot st (HASH_ID i))\<lparr>sock_id := i, fd := f,
      protocol := PROTOCOL_TCP, sock_type := SOCKET_TYPE_LISTEN, opaque := opq'\<rparr>) \<and>
    (\<exists>e. Epoll_add e f (Some (HASH_ID i)) EPOLLIN \<in> set (trace std))"
proof -
  from listen_start_posted [OF assms(1-10), of opq opq'] obtain sta stb where
      a: "server_listen os pkg opq host port backlog st0 = Some (i, sta)"
      and b: "server_start os pkg' opq' i sta = Some stb"
      and holdsb: "pipe_holds stb [Listen_req opq i f, Start_req opq' i]" and pipeb: "server_pipe os stb"
      and slot1: "slot stb = (slot st)(HASH_ID i := (slot st (HASH_ID i))
        \<lparr>sock_type := SOCKET_TYPE_RESERVE, sock_id := i, fd := - 1\<rparr>)" by blast
  obtain st2 n where st2: "ctrl_cmd os stk stb m = handle os (Listen_req opq i f) st2 m"
      "pipe_holds st2 [Start_req opq' i]"
      "st2 = stb\<lparr>trace := trace stb @ [Read (recvctrl_fd stb) 2, Read (recvctrl_fd stb) n]\<rparr>"
    using pipe_holds_read [OF holdsb pipeb] by blast
  have slot2: "slot st2 = slot stb" by (simp add: st2(3))
  have "sock_type (slot st2 (HASH_ID i)) = SOCKET_TYPE_RESERVE" by (simp add: slot2 slot1)
  from listen_handled [OF this] obtain stc where stc:
      "handle os (Listen_req opq i f) st2 m = Some (no_message, stc, m)"
      "trace stc = trace st2" "sendctrl_fd stc = sendctrl_fd st2" "recvctrl_fd stc = recvctrl_fd st2"
      "slot stc = (slot st2)(HASH_ID i := (slot st2 (HASH_ID i))\<lparr>sock_id := i, fd := f,
        protocol := PROTOCOL_TCP, opaque := opq, sock_type := SOCKET_TYPE_PLISTEN\<rparr>)" by blast
  have holdsc: "pipe_holds stc [Start_req opq' i]" using st2(2) stc(2-4) pipe_holds_cong by blast
  have pipec: "server_pipe os stc" using pipeb stc(3,4) by (simp add: st2(3))
  obtain st4 n' where st4: "ctrl_cmd os stk stc m = handle os (Start_req opq' i) st4 m"
      "st4 = stc\<lparr>trace := trace stc @ [Read (recvctrl_fd stc) 2, Read (recvctrl_fd stc) n']\<rparr>"
    using pipe_holds_read [OF holdsc pipec] by blast
  have slot4: "slot st4 = slot stc" by (simp add: st4(2))
  have "sock_type (slot st4 (HASH_ID i)) = SOCKET_TYPE_PLISTEN" "sock_id (slot st4 (HASH_ID i)) = i"
    by (simp_all add: slot4 stc(5))
  from start_handled [OF this epoll] obtain std where std:
      "handle os (Start_req opq' i) st4 m = Some (SOCKET_OPEN, std,
        m\<lparr>msg_id := i, msg_opaque := opq', msg_ud := 0, msg_data := Literal ''start''\<rparr>)"
      "slot std = (slot st4)(HASH_ID i := (slot st4 (HASH_ID i))\<lparr>sock_type := SOCKET_TYPE_LISTEN, opaque := opq'\<rparr>)"
      "trace std = trace st4 @ [Epoll_add (event_fd st4) (fd (slot st4 (HASH_ID i))) (Some (HASH_ID i)) EPOLLIN]"
    by blast
  have "slot std = (slot st)(HASH_ID i := (slot st (HASH_ID i))\<lparr>sock_id := i, fd := f,
      protocol := PROTOCOL_TCP, sock_type := SOCKET_TYPE_LISTEN, opaque := opq'\<rparr>)"
    by (simp add: std(2) slot4 stc(5) slot2 slot1)
  moreover have "Epoll_add (event_fd st4) f (Some (HASH_ID i)) EPOLLIN \<in> set (trace std)"
    by (simp add: std(3) slot4 stc(5))
  ultimately show ?thesis using a b st2(1) stc(1) st4(1) std(1) by fastforce
qed

text \<open>An operating system with one address per host, on which every call but a peek succeeds.\<close>

definition home :: addrinfo where
  "home = \<lparr>ai_family = 2, ai_socktype = 1, ai_protocol = 6,
     ai_addr = \<lparr>sa_family = 2, sa_addr = [127, 0, 0, 1], sa_port = 8888\<rparr>\<rparr>"

definition kind_os :: os where
  "kind_os tr c = (case c of
     Getaddrinfo h p t pr \<Rightarrow> null_reply\<lparr>r_addrs := [home]\<rparr>
   | Socket fa ty pr \<Rightarrow> null_reply\<lparr>ret := 7\<rparr>
   | _ \<Rightarrow> pipe_os tr c)"

lemma kind_os_pipe: "pipe_law kind_os 5 4"
  using pipe_os_law by (simp add: pipe_law_def kind_os_def)

theorem listen_then_start_witness:
  "\<exists>i sta stb stc std m. server_listen kind_os (replicate 520 7) 100 None 8888 32 blank_server = Some (i, sta) \<and>
     server_start kind_os (replicate 520 9) 101 i sta = Some stb \<and>
     ctrl_cmd kind_os (\<lambda>_. []) stb blank_message = Some (no_message, stc, blank_message) \<and>
     ctrl_cmd kind_os (\<lambda>_. []) stc blank_message = Some (SOCKET_OPEN, std, m) \<and>
     sock_type (slot std (HASH_ID i)) = SOCKET_TYPE_LISTEN \<and> fd (slot std (HASH_ID i)) = 7"
proof -
  obtain st where st: "do_listen kind_os None 8888 32 blank_server = Some (7, st)"
      "slot st = slot blank_server" "alloc_id st = 0" "waiting_bytes st = []"
      "sendctrl_fd st = 5" "recvctrl_fd st = 4"
    by (simp add: do_listen_def do_bind_def sys_split Let_def kind_os_def null_reply_def blank_server_def
        pipe_bytes_def)
  have table: "table_ok st" using blank_table_ok st(2,3) by (simp add: table_ok_def alloc_ok_def)
  have al: "alloc_ok st" using table by (simp add: table_ok_def)
  have "\<not> (\<forall>k < MAX_SOCKET. \<not> free_slot st k)"
    using st(2) by (auto simp: MAX_SOCKET_def intro!: exI [of _ 0])
  with reserve_id_cases [OF al] obtain i st1 where i: "reserve_id st = (i, st1)" "0 \<le> sint i"
    using later_id_sint by blast
  have "server_pipe kind_os st" "pipe_holds st []"
    using kind_os_pipe st(4-6) by (simp_all add: pipe_holds_def)
  note start0 = this st(1)
  have rest: "(0 :: int) \<le> 7" "int32 7" "length (replicate 520 x) = 520" for x :: byte
    by (simp_all add: int32_def)
  have epoll: "\<forall>tr e f p fl. ret (kind_os tr (Epoll_add e f p fl)) \<noteq> - 1"
    by (simp add: kind_os_def null_reply_def)
  obtain sta stb stc std where run:
      "server_listen kind_os (replicate 520 7) 100 None 8888 32 blank_server = Some (i, sta)"
      "server_start kind_os (replicate 520 9) 101 i sta = Some stb"
      "ctrl_cmd kind_os (\<lambda>_. []) stb blank_message = Some (no_message, stc, blank_message)"
      "ctrl_cmd kind_os (\<lambda>_. []) stc blank_message = Some (SOCKET_OPEN, std, blank_message
        \<lparr>msg_id := i, msg_opaque := 101, msg_ud := 0, msg_data := Literal ''start''\<rparr>)"
      "slot std = (slot st)(HASH_ID i := (slot st (HASH_ID i))\<lparr>sock_id := i, fd := 7,
        protocol := PROTOCOL_TCP, sock_type := SOCKET_TYPE_LISTEN, opaque := 101\<rparr>)"
    using listen_then_start [OF start0 rest(1,2) i table rest(3) rest(3) epoll,
        where stk = "\<lambda>_. []" and m = blank_message and opq = 100 and opq' = 101] by blast
  have "sock_type (slot std (HASH_ID i)) = SOCKET_TYPE_LISTEN \<and> fd (slot std (HASH_ID i)) = 7"
    by (simp add: run(5))
  with run(1-4) show ?thesis by blast
qed

section \<open>Closing and sending\<close>

lemma slot_of: "srv_ok st \<Longrightarrow> k < MAX_SOCKET \<Longrightarrow> socket_ok k (slot st k)"
  by (simp add: srv_ok_def)

text \<open>The calls a close makes: off epoll if the socket was on it, and closed unless it was bound
  from outside.\<close>

definition close_calls :: "server \<Rightarrow> socket \<Rightarrow> call list" where
  "close_calls st s =
     (if sock_type s = SOCKET_TYPE_PACCEPT \<or> sock_type s = SOCKET_TYPE_PLISTEN then []
      else [Epoll_del (event_fd st) (fd s)]) @
     (if sock_type s = SOCKET_TYPE_BIND then [] else [Close (fd s)])"

lemma force_close_calls:
  assumes "sock_type (slot st k) \<noteq> SOCKET_TYPE_INVALID" and "sock_type (slot st k) \<noteq> SOCKET_TYPE_RESERVE"
    and "high (slot st k) = []" and "low (slot st k) = []"
  shows "\<exists>st'. force_close k st m = Some (st', m\<lparr>msg_id := sock_id (slot st k), msg_ud := 0,
      msg_data := Nullptr, msg_opaque := opaque (slot st k)\<rparr>) \<and>
    slot st' = (slot st)(k := (slot st k)\<lparr>sock_type := SOCKET_TYPE_INVALID\<rparr>) \<and>
    trace st' = trace st @ close_calls st (slot st k)"
proof -
  have "(slot st k)\<lparr>high := [], low := [], sock_type := SOCKET_TYPE_INVALID\<rparr> =
      (slot st k)\<lparr>sock_type := SOCKET_TYPE_INVALID\<rparr>"
    using assms(3,4) by (cases "slot st k") simp
  then show ?thesis
    using assms by (auto simp: force_close_def Let_def close_calls_def ep_del_def)
qed

lemma close_handled:
  assumes "srv_ok st" and "sock_id (slot st (HASH_ID i)) = i"
    and "sock_type (slot st (HASH_ID i)) \<notin> {SOCKET_TYPE_INVALID, SOCKET_TYPE_RESERVE}"
  shows "\<exists>st'. close_socket os \<lparr>k_id = i, k_opaque = opq\<rparr> st m =
      Some (SOCKET_CLOSE, st', m\<lparr>msg_id := i, msg_opaque := opq, msg_ud := 0, msg_data := Nullptr\<rparr>) \<and>
    slot st' = (slot st)(HASH_ID i := (slot st (HASH_ID i))\<lparr>sock_type := SOCKET_TYPE_INVALID\<rparr>) \<and>
    trace st' = trace st @ close_calls st (slot st (HASH_ID i))"
proof -
  have e: "high (slot st (HASH_ID i)) = []" "low (slot st (HASH_ID i)) = []"
    using slot_of [OF assms(1) HASH_ID_less] by (simp_all add: socket_ok_def)
  from assms(3) force_close_calls [OF _ _ e, of m] obtain st' where
    "force_close (HASH_ID i) st m = Some (st', m\<lparr>msg_id := i, msg_ud := 0,
      msg_data := Nullptr, msg_opaque := opaque (slot st (HASH_ID i))\<rparr>)"
    "slot st' = (slot st)(HASH_ID i := (slot st (HASH_ID i))\<lparr>sock_type := SOCKET_TYPE_INVALID\<rparr>)"
    "trace st' = trace st @ close_calls st (slot st (HASH_ID i))" using assms(2) by auto
  with assms e show ?thesis by (auto simp: close_socket_def Let_def send_buffer_empty_def)
qed


text \<open>A server with one socket, number 3, of a given type.\<close>

definition one_socket :: "u16 \<Rightarrow> server" where
  "one_socket t = blank_server\<lparr>slot := (\<lambda>_. blank_socket)(3 := blank_socket\<lparr>sock_id := 3, fd := 9,
     opaque := 70, sock_type := t\<rparr>)\<rparr>"

lemma HASH_3: "HASH_ID 3 = 3"
  by (simp add: HASH_ID_def MAX_SOCKET_def)

lemma one_socket_slot [simp]:
  "slot (one_socket t) 3 = blank_socket\<lparr>sock_id := 3, fd := 9, opaque := 70, sock_type := t\<rparr>"
  by (simp add: one_socket_def)

lemma one_socket_ok: "t \<le> SOCKET_TYPE_BIND \<Longrightarrow> t \<noteq> SOCKET_TYPE_HALFCLOSE \<Longrightarrow> srv_ok (one_socket t)"
  by (auto simp: one_socket_def srv_ok_def socket_ok_def alloc_ok_def events_ok_def blank_server_def
      blank_socket_def MAX_EVENT_def HASH_3)


text \<open>
  Sending keeps nothing back. A send request on a connected socket is one write; when the
  operating system takes \<open>n\<close> bytes, fewer than asked for, or asks to try again, no message is
  reported, only write events are switched on, and no slot changes: the rest of the data is not
  kept. When the write event comes, in any well-formed state, nothing is written either; write
  events are switched off again.
\<close>

theorem short_send_drops_rest:
  assumes "srv_ok st" and "sock_id (slot st (HASH_ID i)) = i"
    and "sock_type (slot st (HASH_ID i)) = SOCKET_TYPE_CONNECTED"
    and "protocol (slot st (HASH_ID i)) = PROTOCOL_TCP" and "0 < sz"
    and "c = Write_mem (fd (slot st (HASH_ID i))) b sz" and "ret (os (trace st) c) < sz"
    and "ret (os (trace st) c) < 0 \<Longrightarrow> errno (os (trace st) c) = EINTR \<or> errno (os (trace st) c) = EAGAIN"
  shows "(\<exists>st'. send_socket os \<lparr>d_id = i, d_sz = sz, d_buffer = b\<rparr> st m = Some (no_message, st', m) \<and>
      slot st' = slot st \<and> trace st' = trace st @ [c, Epoll_mod (event_fd st)
        (fd (slot st (HASH_ID i))) (Some (HASH_ID i)) (EPOLLIN OR EPOLLOUT)]) \<and>
    (\<forall>sta m. srv_ok sta \<longrightarrow> (\<exists>stb. send_buffer os (HASH_ID i) sta m = Some (no_message, stb, m) \<and>
      slot stb = slot sta \<and> trace stb = trace sta @ [Epoll_mod (event_fd sta)
        (fd (slot sta (HASH_ID i))) (Some (HASH_ID i)) EPOLLIN]))"
proof (intro conjI allI impI)
  have e: "send_buffer_empty (slot st (HASH_ID i))" by (rule slot_empty [OF assms(1) HASH_ID_less])
  show "\<exists>st'. send_socket os \<lparr>d_id = i, d_sz = sz, d_buffer = b\<rparr> st m = Some (no_message, st', m) \<and>
      slot st' = slot st \<and> trace st' = trace st @ [c, Epoll_mod (event_fd st)
        (fd (slot st (HASH_ID i))) (Some (HASH_ID i)) (EPOLLIN OR EPOLLOUT)]"
    using assms e by (auto simp: send_socket_def Let_def sys_split ep_write_def)
  fix sta m assume "srv_ok sta"
  then show "\<exists>stb. send_buffer os (HASH_ID i) sta m = Some (no_message, stb, m) \<and>
      slot stb = slot sta \<and> trace stb = trace sta @ [Epoll_mod (event_fd sta)
        (fd (slot sta (HASH_ID i))) (Some (HASH_ID i)) EPOLLIN]"
    by (simp add: send_buffer_idle) (simp add: ep_write_def)
qed

text \<open>An operating system that answers one kind of call with \<open>n\<close>.\<close>

definition short_os :: "int \<Rightarrow> os" where
  "short_os n tr c = (case c of
     Write_mem f b sz \<Rightarrow> null_reply\<lparr>ret := n\<rparr>
   | Read_heap f p sz \<Rightarrow> null_reply\<lparr>ret := (if sz \<le> 0 then 0 else n), r_ptr := 96,
       r_bytes := (if sz \<le> 0 then [] else replicate (nat n) 65)\<rparr>
   | Accept f \<Rightarrow> null_reply\<lparr>ret := n\<rparr>
   | _ \<Rightarrow> pipe_os tr c)"

theorem short_send_drops_rest_witness:
  "\<exists>st'. send_socket (short_os 3) \<lparr>d_id = 3, d_sz = 11, d_buffer = 4096\<rparr>
     (one_socket SOCKET_TYPE_CONNECTED) blank_message = Some (no_message, st', blank_message) \<and>
     slot st' = slot (one_socket SOCKET_TYPE_CONNECTED)"
proof -
  have "srv_ok (one_socket SOCKET_TYPE_CONNECTED)" by (rule one_socket_ok) simp_all
  from short_send_drops_rest [OF this, of 3 11 _ 4096 "short_os 3" blank_message] show ?thesis
    by (simp add: HASH_3 blank_socket_def short_os_def null_reply_def) blast
qed

section \<open>Receiving\<close>

text \<open>The event being looked at is a read event on the connected socket \<open>k\<close>.\<close>

definition at_read_event :: "server \<Rightarrow> nat \<Rightarrow> bool" where
  "at_read_event st k \<longleftrightarrow> event_index st < event_n st \<and>
     ev_s (ev st ! event_index st) = Some k \<and> ev_read (ev st ! event_index st) \<and>
     \<not> ev_write (ev st ! event_index st) \<and> k < MAX_SOCKET \<and>
     sock_type (slot st k) = SOCKET_TYPE_CONNECTED \<and> protocol (slot st k) = PROTOCOL_TCP"

text \<open>The reply to the read that \<open>forward_message_tcp\<close> makes.\<close>

definition read_reply :: "os \<Rightarrow> server \<Rightarrow> nat \<Rightarrow> reply" where
  "read_reply os st k =
     (let c = Malloc (rd_size (slot st k)) in
      os (trace st @ [c]) (Read_heap (fd (slot st k)) (r_ptr (os (trace st) c)) (rd_size (slot st k))))"

lemma event_turn_read:
  assumes "at_read_event st k"
  shows "event_turn os st m mr = Option.bind
    (forward_message_tcp os k (st\<lparr>event_index := Suc (event_index st)\<rparr>) m) (\<lambda>(ty, st, m).
      Some (if ty = no_message then Continue st m mr else Return ty (clear_closed_event m ty st) m mr))"
proof -
  have eq: "Option.bind x (\<lambda>(ty, st, m). if ty = no_message then Some (Continue st m mr)
        else Some (Return ty (clear_closed_event m ty st) m mr)) =
      Option.bind x (\<lambda>(ty, st, m). Some (if ty = no_message then Continue st m mr
        else Return ty (clear_closed_event m ty st) m mr))" for x
    by (cases x) auto
  show ?thesis using assms eq by (simp add: at_read_event_def event_turn_def Let_def)
qed

text \<open>
  C31: data is delivered. When the read for an event on a connected socket returns \<open>n > 0\<close> bytes,
  \<open>poll\<close> returns \<^verbatim>\<open>SOCKET_DATA\<close> with the socket's number, owner, \<open>n\<close> and the block read into, and
  nothing changes in the slots but the socket's next read size.
\<close>

theorem data_delivered:
  assumes "at_read_event st k" and "0 < ret (read_reply os st k)"
    and "adapt_size (rd_size (slot st k)) (ret (read_reply os st k)) = Some sz"
  shows "\<exists>st' p. event_turn os st m mr = Some (Return SOCKET_DATA st'
      (m\<lparr>msg_opaque := opaque (slot st k), msg_id := sock_id (slot st k),
         msg_ud := ret (read_reply os st k), msg_data := Heap p (r_bytes (read_reply os st k))\<rparr>) mr) \<and>
    slot st' = (slot st)(k := (slot st k)\<lparr>rd_size := sz\<rparr>)"
proof -
  define st1 where "st1 = st\<lparr>event_index := Suc (event_index st)\<rparr>"
  have st1: "slot st1 = slot st" "trace st1 = trace st" by (simp_all add: st1_def)
  define p where "p = r_ptr (os (trace st) (Malloc (rd_size (slot st k))))"
  define c where "c = Read_heap (fd (slot st k)) p (rd_size (slot st k))"
  have r: "read_reply os st k = os (trace st @ [Malloc (rd_size (slot st k))]) c"
    by (simp add: read_reply_def c_def p_def Let_def)
  have ty: "sock_type (slot st k) = SOCKET_TYPE_CONNECTED" using assms(1) by (simp add: at_read_event_def)
  have "\<exists>st'. forward_message_tcp os k st1 m = Some (SOCKET_DATA, st',
      m\<lparr>msg_opaque := opaque (slot st k), msg_id := sock_id (slot st k),
        msg_ud := ret (read_reply os st k), msg_data := Heap p (r_bytes (read_reply os st k))\<rparr>) \<and>
      slot st' = (slot st)(k := (slot st k)\<lparr>rd_size := sz\<rparr>)"
    using assms(2,3) ty
    by (simp add: forward_message_tcp_def Let_def sys_split st1 r c_def [symmetric] p_def [symmetric])
  then show ?thesis
    unfolding event_turn_read [OF assms(1)] st1_def [symmetric]
    by (auto simp: clear_closed_event_def)
qed

text \<open>A server that has just been told of a readable socket.\<close>

definition reading_server :: server where
  "reading_server = (one_socket SOCKET_TYPE_CONNECTED)
     \<lparr>event_n := 1, ev := replicate MAX_EVENT \<lparr>ev_s = Some 3, ev_read = True, ev_write = False\<rparr>\<rparr>"

lemma reading_server_slot: "slot reading_server 3 = blank_socket\<lparr>sock_id := 3, fd := 9, opaque := 70,
    sock_type := SOCKET_TYPE_CONNECTED\<rparr>"
  by (simp add: reading_server_def)

lemma reading_server_event: "at_read_event reading_server 3"
  by (simp add: at_read_event_def reading_server_slot)
     (simp add: reading_server_def one_socket_def blank_server_def blank_socket_def MAX_EVENT_def MAX_SOCKET_def)

lemma reading_server_reply: "read_reply (short_os n) reading_server 3 =
    null_reply\<lparr>ret := n, r_ptr := 96, r_bytes := replicate (nat n) 65\<rparr>"
  by (simp add: read_reply_def reading_server_slot blank_socket_def short_os_def)

lemma reading_server_ok: "srv_ok reading_server"
proof -
  have "event_index (one_socket SOCKET_TYPE_CONNECTED) = 0" by (simp add: one_socket_def blank_server_def)
  then show ?thesis
    using one_socket_ok [of SOCKET_TYPE_CONNECTED]
    by (simp add: reading_server_def srv_ok_def alloc_ok_def events_ok_def MAX_EVENT_def MAX_SOCKET_def)
qed

theorem data_delivered_witness:
  "\<exists>st' m. event_turn (short_os 11) reading_server blank_message 1 = Some (Return SOCKET_DATA st' m 1) \<and>
     msg_ud m = 11 \<and> msg_id m = 3"
proof -
  have "adapt_size (rd_size (slot reading_server 3)) (ret (read_reply (short_os 11) reading_server 3)) = Some 64"
    by (simp add: adapt_size_def reading_server_reply reading_server_slot blank_socket_def MIN_READ_BUFFER_def)
  from data_delivered [OF reading_server_event _ this, of blank_message 1] show ?thesis
    by (auto simp: reading_server_reply reading_server_slot blank_socket_def)
qed

text \<open>
  What is not reported. When that read finds the end of the stream, \<open>poll\<close> goes on with the
  message untouched and no slot changed, so a client that has gone stays connected; and when it
  fails for good, the socket is closed and its slot freed, but again \<open>poll\<close> goes on and no message
  tells the owner.
\<close>

theorem peer_loss_unreported:
  assumes "at_read_event st k" and "srv_ok st"
  shows "(ret (read_reply os st k) = 0 \<longrightarrow>
      (\<exists>st'. event_turn os st m mr = Some (Continue st' m mr) \<and> slot st' = slot st)) \<and>
    (ret (read_reply os st k) < 0 \<and> errno (read_reply os st k) \<noteq> EINTR \<and> errno (read_reply os st k) \<noteq> EAGAIN \<longrightarrow>
      (\<exists>st' m'. event_turn os st m mr = Some (Continue st' m' mr) \<and>
        slot st' = (slot st)(k := (slot st k)\<lparr>sock_type := SOCKET_TYPE_INVALID\<rparr>) \<and>
        Close (fd (slot st k)) \<in> set (trace st')))"
proof -
  define st1 where "st1 = st\<lparr>event_index := Suc (event_index st)\<rparr>"
  have st1: "slot st1 = slot st" "trace st1 = trace st" by (simp_all add: st1_def)
  define p where "p = r_ptr (os (trace st) (Malloc (rd_size (slot st k))))"
  define c where "c = Read_heap (fd (slot st k)) p (rd_size (slot st k))"
  have r: "read_reply os st k = os (trace st @ [Malloc (rd_size (slot st k))]) c"
    by (simp add: read_reply_def c_def p_def Let_def)
  have k: "k < MAX_SOCKET" "sock_type (slot st k) = SOCKET_TYPE_CONNECTED"
    using assms(1) by (simp_all add: at_read_event_def)
  have e: "high (slot st k) = []" "low (slot st k) = []"
    using slot_of [OF assms(2) k(1)] by (simp_all add: socket_ok_def)
  define st2 where "st2 = emit (Free p) (emit c (emit (Malloc (rd_size (slot st k))) st1))"
  have slot2: "slot st2 = slot st" by (simp add: st2_def st1)
  obtain st3 where st3: "force_close k st2 m = Some (st3, m\<lparr>msg_id := sock_id (slot st k), msg_ud := 0,
      msg_data := Nullptr, msg_opaque := opaque (slot st k)\<rparr>)"
      "slot st3 = (slot st)(k := (slot st k)\<lparr>sock_type := SOCKET_TYPE_INVALID\<rparr>)"
      "trace st3 = trace st2 @ close_calls st2 (slot st k)"
    using force_close_calls [of st2 k m] k e by (auto simp: slot2)
  note fwd = forward_message_tcp_def Let_def sys_split st1 r c_def [symmetric] p_def [symmetric]
  have "forward_message_tcp os k st1 m = Some (no_message, st2, m)" if "ret (read_reply os st k) = 0"
    using that by (simp add: fwd st2_def)
  moreover have "forward_message_tcp os k st1 m = Some (no_message, st3, m\<lparr>msg_id := sock_id (slot st k),
      msg_ud := 0, msg_data := Nullptr, msg_opaque := opaque (slot st k)\<rparr>)"
    if "ret (read_reply os st k) < 0" "errno (read_reply os st k) \<noteq> EINTR" "errno (read_reply os st k) \<noteq> EAGAIN"
    using that st3(1) by (simp add: fwd st2_def)
  moreover have "Close (fd (slot st k)) \<in> set (trace st3)" using k by (simp add: st3(3) close_calls_def)
  ultimately show ?thesis
    unfolding event_turn_read [OF assms(1)] st1_def [symmetric] using slot2 st3(2) by auto
qed

theorem peer_loss_unreported_witness:
  "\<exists>st'. event_turn (short_os 0) reading_server blank_message 1 = Some (Continue st' blank_message 1) \<and>
     slot st' = slot reading_server"
  using peer_loss_unreported [OF reading_server_event reading_server_ok, of "short_os 0" blank_message 1]
  by (simp add: reading_server_reply)

text \<open>
  The read size. Starting from a power of two not below 64, every adaptation the code makes
  yields the same size, its double or its half, again a power of two not below
  \<^verbatim>\<open>MIN_READ_BUFFER\<close>, and is defined while the size stays below \<^verbatim>\<open>2^30\<close>; it doubles exactly when the read
  filled the block, and a half-sized block would still have held the data when it halves.
\<close>

theorem read_size_bounds:
  assumes "sz = 2 ^ e" and "6 \<le> e" and "e < 30" and "0 < n" and "n \<le> sz"
  shows "\<exists>sz'. adapt_size sz n = Some sz' \<and> MIN_READ_BUFFER \<le> sz' \<and>
    (\<exists>e'. sz' = 2 ^ e' \<and> 6 \<le> e' \<and> e' \<le> 30) \<and> sz' \<in> {sz, 2 * sz, sz div 2} \<and>
    (sz' = 2 * sz \<longleftrightarrow> n = sz) \<and> (sz' = sz div 2 \<longrightarrow> n < sz')"
proof -
  have big: "(64 :: int) \<le> 2 ^ a" if "6 \<le> a" for a :: nat
    using power_increasing [OF that, of "2 :: int"] by simp
  have max: "sz * 2 \<le> 2 ^ 30"
    using power_increasing [of "Suc e" 30 "2 :: int"] assms(1,3) by (simp add: mult.commute)
  consider "n = sz" | "n \<noteq> sz" "64 < sz" "n * 2 < sz" | "n \<noteq> sz" "\<not> (64 < sz \<and> n * 2 < sz)" by blast
  then show ?thesis
  proof cases
    case 1
    then have "adapt_size sz n = Some (2 ^ Suc e)" using max assms(1) by (simp add: adapt_size_def)
    with 1 assms big [of "Suc e"] show ?thesis
      by (intro exI [of _ "2 ^ Suc e"] conjI exI [of _ "Suc e"]) (auto simp: MIN_READ_BUFFER_def)
  next
    case 2
    then obtain e' where e': "e = Suc e'" using assms(1,2) by (cases e) auto
    have "6 \<le> e'"
    proof (rule ccontr)
      assume "\<not> 6 \<le> e'"
      then have "e = 6" using e' assms(2) by simp
      with 2(2) assms(1) show False by simp
    qed
    moreover have "adapt_size sz n = Some (2 ^ e')"
      using 2 max assms(1) e' by (simp add: adapt_size_def MIN_READ_BUFFER_def)
    ultimately show ?thesis
      using 2 assms e' big [of e'] by (intro exI [of _ "2 ^ e'"] conjI exI [of _ e']) (auto simp: MIN_READ_BUFFER_def)
  next
    case 3
    then have "adapt_size sz n = Some sz" using max assms(5) by (auto simp: adapt_size_def MIN_READ_BUFFER_def)
    with 3 assms big [of e] show ?thesis
      by (intro exI [of _ sz] conjI exI [of _ e]) (auto simp: MIN_READ_BUFFER_def)
  qed
qed

theorem read_size_bounds_witness: "\<exists>sz'. adapt_size 128 11 = Some sz' \<and> sz' \<in> {128, 256, 64}"
  using read_size_bounds [of 128 7 11] by auto

lemma new_socket_keeps_size:
  "new_socket os i f pr opq add st = Some (r, st') \<Longrightarrow> rd_size (slot st' k) = rd_size (slot st k)"
  by (auto simp: new_socket_def Let_def case_prod_beta split: if_splits)

text \<open>
  The read size is never set. A new socket keeps the size its slot had before; when that is
  0, as in memory that was zero, the read asks for nothing, gets nothing, and every read event of
  the socket is passed over, with the size still 0: the socket's data is never delivered.
\<close>

theorem zero_size_starves:
  assumes "at_read_event st k" and "rd_size (slot st k) = 0"
    and "\<And>tr f p. ret (os tr (Read_heap f p 0)) = 0"
  shows "(\<exists>st'. event_turn os st m mr = Some (Continue st' m mr) \<and> slot st' = slot st) \<and>
    (\<forall>i f pr opq add sta r stb j. new_socket os i f pr opq add sta = Some (r, stb) \<longrightarrow>
      rd_size (slot stb j) = rd_size (slot sta j))"
proof -
  have "\<exists>st'. forward_message_tcp os k (st\<lparr>event_index := Suc (event_index st)\<rparr>) m = Some (no_message, st', m) \<and>
      slot st' = slot st"
    using assms(2,3) by (simp add: forward_message_tcp_def Let_def sys_split)
  then show ?thesis
    unfolding event_turn_read [OF assms(1)] by (auto intro: new_socket_keeps_size)
qed

theorem zero_size_starves_witness:
  "\<exists>st'. event_turn (short_os 11) (set_slot 3 (\<lambda>s. s\<lparr>rd_size := 0\<rparr>) reading_server) blank_message 1 =
     Some (Continue st' blank_message 1)"
proof -
  let ?st = "set_slot 3 (\<lambda>s. s\<lparr>rd_size := 0\<rparr>) reading_server"
  have "at_read_event ?st 3" "rd_size (slot ?st 3) = 0"
    using reading_server_event by (simp_all add: at_read_event_def)
  from zero_size_starves [OF this, of "short_os 11" blank_message 1] show ?thesis
    by (auto simp: short_os_def null_reply_def)
qed

section \<open>Accepting and connecting\<close>

text \<open>The event being looked at is on slot \<open>k\<close>, which is a listener.\<close>

definition at_accept_event :: "server \<Rightarrow> nat \<Rightarrow> bool" where
  "at_accept_event st k \<longleftrightarrow> event_index st < event_n st \<and> ev_s (ev st ! event_index st) = Some k \<and>
     k < MAX_SOCKET \<and> sock_type (slot st k) = SOCKET_TYPE_LISTEN"

lemma name_client_same: "name_client os a st m = (b, st', m') \<Longrightarrow>
  b \<and> slot st' = slot st \<and> msg_id m' = msg_id m \<and> msg_opaque m' = msg_opaque m \<and> msg_ud m' = msg_ud m"
  by (auto simp: name_client_def sys_split Let_def split: if_splits)

lemma accept_handled:
  assumes "sock_type (slot st (HASH_ID i)) = SOCKET_TYPE_RESERVE" and "HASH_ID i \<noteq> k"
  shows "\<exists>st' m'. accept_client os k f a i st m = Some (True, st', m') \<and> msg_id m' = sock_id (slot st k) \<and>
    msg_opaque m' = opaque (slot st k) \<and> msg_ud m' = sint i \<and>
    slot st' = (slot st)(HASH_ID i := (slot st (HASH_ID i))\<lparr>sock_id := i, fd := f,
      protocol := PROTOCOL_TCP, opaque := opaque (slot st k), sock_type := SOCKET_TYPE_PACCEPT\<rparr>)"
proof -
  define st1 where "st1 = nonblocking os f (keepalive f st)"
  define st2 where "st2 = set_type (HASH_ID i) SOCKET_TYPE_PACCEPT (set_slot (HASH_ID i)
    (\<lambda>s. s\<lparr>sock_id := i, fd := f, protocol := PROTOCOL_TCP, opaque := opaque (slot st k)\<rparr>) st1)"
  define m2 where "m2 = m\<lparr>msg_opaque := opaque (slot st k), msg_id := sock_id (slot st k), msg_ud := sint i,
    msg_data := Nullptr\<rparr>"
  have "accept_client os k f a i st m = Some (name_client os a st2 m2)"
    using assms by (simp add: accept_client_def new_socket_def Let_def st2_def st1_def m2_def)
  moreover obtain b st' m' where nc: "name_client os a st2 m2 = (b, st', m')"
    by (cases "name_client os a st2 m2")
  moreover have "b" "slot st' = slot st2" "msg_id m' = sock_id (slot st k)"
      "msg_opaque m' = opaque (slot st k)" "msg_ud m' = sint i"
    using name_client_same [OF nc] by (simp_all add: m2_def)
  moreover have "slot st2 = (slot st)(HASH_ID i := (slot st (HASH_ID i))\<lparr>sock_id := i, fd := f,
      protocol := PROTOCOL_TCP, opaque := opaque (slot st k), sock_type := SOCKET_TYPE_PACCEPT\<rparr>)"
    by (simp add: st2_def st1_def)
  ultimately show ?thesis by auto
qed

text \<open>
  C18: accepting a client. When the accept for an event on a listener returns a descriptor \<open>f\<close>
  and a slot is free, \<open>poll\<close> returns \<^verbatim>\<open>SOCKET_ACCEPT\<close> with the listener's number and owner and a
  new number, not in use before; the slot of that number, which is not the listener's, holds \<open>f\<close>,
  waiting to be started, for the same owner, and no other slot changes. When every slot is in
  use, \<open>f\<close> is closed again, no slot changes, and \<open>poll\<close> goes on.
\<close>

theorem client_accepted:
  assumes "at_accept_event st k" and "table_ok st"
    and "f = ret (os (trace st) (Accept (fd (slot st k))))" and "0 \<le> f"
  shows "if \<forall>j < MAX_SOCKET. \<not> free_slot st j
    then \<exists>st'. event_turn os st m mr = Some (Continue st' m mr) \<and> slot st' = slot st \<and>
      trace st' = trace st @ [Accept (fd (slot st k)), Close f]
    else \<exists>i st' m'. event_turn os st m mr = Some (Return SOCKET_ACCEPT st' m' mr) \<and>
      0 \<le> sint i \<and> msg_ud m' = sint i \<and> msg_id m' = sock_id (slot st k) \<and>
      msg_opaque m' = opaque (slot st k) \<and> i \<notin> live_ids st \<and> free_slot st (HASH_ID i) \<and>
      slot st' = (slot st)(HASH_ID i := (slot st (HASH_ID i))\<lparr>sock_id := i, fd := f,
        protocol := PROTOCOL_TCP, opaque := opaque (slot st k), sock_type := SOCKET_TYPE_PACCEPT\<rparr>)"
proof -
  define c where "c = Accept (fd (slot st k))"
  define ad where "ad = r_addr (os (trace st) c)"
  define st1 where "st1 = emit c (st\<lparr>event_index := Suc (event_index st)\<rparr>)"
  have st1: "slot st1 = slot st" "alloc_id st1 = alloc_id st" "trace st1 = trace st @ [c]"
    by (simp_all add: st1_def)
  have table: "table_ok st1" using assms(2) st1 by (simp add: table_ok_def alloc_ok_def)
  then have al: "alloc_ok st1" by (simp add: table_ok_def)
  have k: "k < MAX_SOCKET" "sock_type (slot st k) = SOCKET_TYPE_LISTEN" using assms(1) by (simp_all add: at_accept_event_def)
  have turn: "event_turn os st m mr = Option.bind (report_accept os k (st\<lparr>event_index := Suc (event_index st)\<rparr>) m)
      (\<lambda>(b, st, m). Some (if b then Return SOCKET_ACCEPT st m mr else Continue st m mr))"
    using assms(1) by (simp add: at_accept_event_def event_turn_def Let_def)
  have rep: "report_accept os k (st\<lparr>event_index := Suc (event_index st)\<rparr>) m =
      (let (i, st) = reserve_id st1 in if sint i < 0 then Some (False, emit (Close f) st, m)
       else accept_client os k f ad i st m)"
    using assms(4) unfolding assms(3) ad_def c_def st1_def
    by (simp add: report_accept_def sys_split Let_def)
  show ?thesis
  proof (cases "\<forall>j < MAX_SOCKET. \<not> free_slot st j")
    case True
    then have "reserve_id st1 = (- 1, st1\<lparr>alloc_id := later_id (alloc_id st1) MAX_SOCKET\<rparr>)"
      using reserve_id_cases [OF al] st1(1) HASH_ID_less by auto
    with True show ?thesis by (simp add: turn rep st1 c_def)
  next
    case False
    then obtain j where j: "j < MAX_SOCKET" "free_slot st1 j" using st1(1) by auto
    with reserve_id_cases [OF al] obtain i where i: "reserve_id st1 = (i, reserved i st1)" "free_slot st (HASH_ID i)"
        "0 \<le> sint i"
      using later_id_sint by (metis st1(1))
    have ne: "HASH_ID i \<noteq> k" using i(2) k(2) by auto
    have "sock_type (slot (reserved i st1) (HASH_ID i)) = SOCKET_TYPE_RESERVE" by (simp add: reserved_slot)
    from accept_handled [OF this ne, of os f ad m] obtain st' m' where acc:
        "accept_client os k f ad i (reserved i st1) m = Some (True, st', m')"
        "msg_id m' = sock_id (slot st k)" "msg_opaque m' = opaque (slot st k)" "msg_ud m' = sint i"
        "slot st' = (slot st)(HASH_ID i := (slot st (HASH_ID i))\<lparr>sock_id := i, fd := f,
          protocol := PROTOCOL_TCP, opaque := opaque (slot st k), sock_type := SOCKET_TYPE_PACCEPT\<rparr>)"
      using ne by (auto simp: reserved_slot st1)
    have "event_turn os st m mr = Some (Return SOCKET_ACCEPT st' m' mr)"
      using i acc(1) by (simp add: turn rep)
    moreover have "i \<notin> live_ids st" by (rule reserved_live(2) [OF assms(2) i(2)])
    ultimately show ?thesis unfolding if_not_P [OF False] using acc(2-) i by blast
  qed
qed

definition listening_server :: server where
  "listening_server = (one_socket SOCKET_TYPE_LISTEN)
     \<lparr>event_n := 1, ev := replicate MAX_EVENT \<lparr>ev_s = Some 3, ev_read = True, ev_write = False\<rparr>\<rparr>"

theorem client_accepted_witness:
  "\<exists>i st' m'. event_turn (short_os 12) listening_server blank_message 1 = Some (Return SOCKET_ACCEPT st' m' 1) \<and>
     msg_id m' = 3 \<and> fd (slot st' (HASH_ID i)) = 12"
proof -
  have s: "slot listening_server = slot (one_socket SOCKET_TYPE_LISTEN)" by (simp add: listening_server_def)
  have ev: "at_accept_event listening_server 3"
    by (simp add: at_accept_event_def s)
       (simp add: listening_server_def one_socket_def blank_server_def MAX_EVENT_def MAX_SOCKET_def)
  have "table_ok listening_server"
    by (auto simp: table_ok_def alloc_ok_def listening_server_def one_socket_def blank_server_def
        blank_socket_def HASH_3)
  moreover have free: "\<not> (\<forall>j < MAX_SOCKET. \<not> free_slot listening_server j)"
    by (auto simp: s one_socket_def MAX_SOCKET_def blank_socket_def intro: exI [of _ 0])
  ultimately show ?thesis
    using client_accepted [OF ev, of 12 "short_os 12" blank_message 1]
    unfolding if_not_P [OF free]
    by (auto simp: short_os_def null_reply_def s blank_socket_def)
qed

text \<open>
  Connecting when no address works. \<open>open_socket\<close> was to report \<^verbatim>\<open>SOCKET_ERROR\<close> and free the
  slot, as it does when the host cannot be resolved; but its loop tests the wrong pointer: when
  the host has addresses and none gives a socket, the null pointer after the last one is used.
\<close>

theorem connect_runs_off_list:
  assumes "o_host req = Some host"
    and "\<And>tr. ret (os tr (Getaddrinfo host (show_int (o_port req)) 1 6)) = 0 \<and>
      r_addrs (os tr (Getaddrinfo host (show_int (o_port req)) 1 6)) \<noteq> []"
    and "\<And>tr a b c. ret (os tr (Socket a b c)) < 0"
  shows "open_socket os req st m = None"
proof -
  have "connect_loop os ais st = None" for ais st
    using assms(3) by (induction ais arbitrary: st) (simp_all add: sys_split Let_def)
  then show ?thesis using assms(1,2) by (simp add: open_socket_def Let_def sys_split)
qed

theorem connect_runs_off_list_witness:
  "open_socket (\<lambda>tr c. case c of Getaddrinfo h p t pr \<Rightarrow> null_reply\<lparr>r_addrs := [home]\<rparr>
      | _ \<Rightarrow> null_reply\<lparr>ret := - 1, errno := 24\<rparr>)
    \<lparr>o_id = 3, o_port = 80, o_opaque = 1, o_host = Some ''localhost''\<rparr> blank_server blank_message = None"
  by (rule connect_runs_off_list [where host = "''localhost''"]) (simp_all add: null_reply_def)

text \<open>
  Connecting at once. When the host has an address to which the connect succeeds at the first
  attempt and epoll takes the socket, the request reports \<^verbatim>\<open>SOCKET_OPEN\<close> with the number and its
  owner and makes the reserved slot a connected socket on the new descriptor; when the connect is
  under way, nothing is reported, the slot is connecting, and write events are switched on, which
  announce the end of the connect.
\<close>

theorem connect_first_address:
  assumes "o_host req = Some host" and "sock_type (slot st (HASH_ID (o_id req))) = SOCKET_TYPE_RESERVE"
    and "\<And>tr. ret (os tr (Getaddrinfo host (show_int (o_port req)) 1 6)) = 0 \<and>
      r_addrs (os tr (Getaddrinfo host (show_int (o_port req)) 1 6)) = ai # ais"
    and "\<And>tr a b c. ret (os tr (Socket a b c)) = f" and "0 \<le> f"
    and "\<And>tr e f p fl. ret (os tr (Epoll_add e f p fl)) \<noteq> - 1"
    and "\<And>tr. ret (os tr (Connect f (ai_addr ai))) = r \<and> errno (os tr (Connect f (ai_addr ai))) = e"
    and "r = 0 \<or> e = EINPROGRESS"
  shows "\<exists>st' m'. open_socket os req st m = Some (if r = 0 then SOCKET_OPEN else no_message, st', m') \<and>
    msg_id m' = o_id req \<and> msg_opaque m' = o_opaque req \<and>
    slot st' = (slot st)(HASH_ID (o_id req) := (slot st (HASH_ID (o_id req)))\<lparr>sock_id := o_id req, fd := f,
      protocol := PROTOCOL_TCP, opaque := o_opaque req,
      sock_type := (if r = 0 then SOCKET_TYPE_CONNECTED else SOCKET_TYPE_CONNECTING)\<rparr>) \<and>
    (r \<noteq> 0 \<longrightarrow> (\<exists>ef. Epoll_mod ef f (Some (HASH_ID (o_id req))) (EPOLLIN OR EPOLLOUT) \<in> set (trace st')))"
proof -
  have loop: "\<exists>st'. connect_loop os (ai # ais) st = Some ((f, r, ai), st') \<and> slot st' = slot st" for st
    using assms(4,5,7,8) by (auto simp: sys_split Let_def)
  define st1 where "st1 = emit (Getaddrinfo host (show_int (o_port req)) 1 6) st"
  obtain st2 where st2: "connect_loop os (ai # ais) st1 = Some ((f, r, ai), st2)" "slot st2 = slot st"
    using loop [of st1] by (auto simp: st1_def)
  have new: "\<exists>st3. new_socket os (o_id req) f PROTOCOL_TCP (o_opaque req) True st2 = Some (Some (HASH_ID (o_id req)), st3) \<and>
      slot st3 = (slot st)(HASH_ID (o_id req) := (slot st (HASH_ID (o_id req)))\<lparr>sock_id := o_id req, fd := f,
        protocol := PROTOCOL_TCP, opaque := o_opaque req\<rparr>)"
    using assms(2,6) st2(2) by (simp add: new_socket_def Let_def ep_add_def sys_split)
  then obtain st3 where st3: "new_socket os (o_id req) f PROTOCOL_TCP (o_opaque req) True st2 = Some (Some (HASH_ID (o_id req)), st3)"
      "slot st3 = (slot st)(HASH_ID (o_id req) := (slot st (HASH_ID (o_id req)))\<lparr>sock_id := o_id req, fd := f,
        protocol := PROTOCOL_TCP, opaque := o_opaque req\<rparr>)" by blast
  have g: "ret (os (trace st) (Getaddrinfo host (show_int (o_port req)) 1 6)) = 0"
      "r_addrs (os (trace st) (Getaddrinfo host (show_int (o_port req)) 1 6)) = ai # ais"
    using assms(3) by simp_all
  note unf = open_socket_def Let_def sys_split assms(1) g st1_def [symmetric]
  show ?thesis
    using st2 st3
    by (cases "r = 0") (simp_all add: unf case_prod_beta st3(2) ep_write_def del: connect_loop.simps, blast)
qed

definition connect_os :: "int \<Rightarrow> os" where
  "connect_os r tr c = (case c of
     Getaddrinfo h p t pr \<Rightarrow> null_reply\<lparr>r_addrs := [home]\<rparr>
   | Socket fa ty pr \<Rightarrow> null_reply\<lparr>ret := 7\<rparr>
   | Connect f a \<Rightarrow> null_reply\<lparr>ret := r, errno := EINPROGRESS\<rparr>
   | _ \<Rightarrow> null_reply)"

theorem connect_first_address_witness:
  "\<exists>st' m'. open_socket (connect_os (- 1)) \<lparr>o_id = 3, o_port = 80, o_opaque = 1, o_host = Some ''localhost''\<rparr>
       (one_socket SOCKET_TYPE_RESERVE) blank_message = Some (no_message, st', m') \<and>
     sock_type (slot st' 3) = SOCKET_TYPE_CONNECTING \<and> fd (slot st' 3) = 7"
proof -
  have "sock_type (slot (one_socket SOCKET_TYPE_RESERVE) (HASH_ID 3)) = SOCKET_TYPE_RESERVE"
    by (simp add: HASH_3)
  then have "\<exists>st' m'. open_socket (connect_os (- 1)) \<lparr>o_id = 3, o_port = 80, o_opaque = 1, o_host = Some ''localhost''\<rparr>
       (one_socket SOCKET_TYPE_RESERVE) blank_message =
       Some (if (- 1 :: int) = 0 then SOCKET_OPEN else no_message, st', m') \<and>
     slot st' = (slot (one_socket SOCKET_TYPE_RESERVE))(HASH_ID 3 := (slot (one_socket SOCKET_TYPE_RESERVE) (HASH_ID 3))
       \<lparr>sock_id := 3, fd := 7, protocol := PROTOCOL_TCP, opaque := 1,
        sock_type := (if (- 1 :: int) = 0 then SOCKET_TYPE_CONNECTED else SOCKET_TYPE_CONNECTING)\<rparr>)"
    using connect_first_address [where os = "connect_os (- 1)" and ai = home and ais = "[]" and f = 7 and r = "- 1"
        and e = EINPROGRESS and host = "''localhost''" and st = "one_socket SOCKET_TYPE_RESERVE" and m = blank_message
        and req = "\<lparr>o_id = 3, o_port = 80, o_opaque = 1, o_host = Some ''localhost''\<rparr>"]
    by (simp add: connect_os_def null_reply_def) blast
  then show ?thesis by (auto simp: HASH_3)
qed

section \<open>Polling\<close>

lemma clear_event_cong: "slot s = slot s' \<Longrightarrow> clear_event s i = clear_event s' i"
  by (rule ext) (simp only: clear_event_def)

lemma clear_fold:
  assumes "b \<le> length (ev st)"
  shows "fold (\<lambda>j st. st\<lparr>ev := (ev st)[j := clear_event st i (ev st ! j)]\<rparr>) [a..<b] st =
    st\<lparr>ev := map (\<lambda>j. if a \<le> j \<and> j < b then clear_event st i (ev st ! j) else ev st ! j) [0..<length (ev st)]\<rparr>"
  using assms
proof (induction b)
  case 0
  then show ?case by (simp add: map_nth)
next
  case (Suc b)
  show ?case
  proof (cases "a \<le> b")
    case True
    let ?st = "fold (\<lambda>j st. st\<lparr>ev := (ev st)[j := clear_event st i (ev st ! j)]\<rparr>) [a..<b] st"
    have st: "?st = st\<lparr>ev := map (\<lambda>j. if a \<le> j \<and> j < b then clear_event st i (ev st ! j) else ev st ! j)
        [0..<length (ev st)]\<rparr>" using Suc by simp
    have cl: "clear_event ?st i = clear_event st i" by (rule clear_event_cong) (subst st, simp)
    have "(ev ?st)[b := clear_event ?st i (ev ?st ! b)] =
        map (\<lambda>j. if a \<le> j \<and> j < Suc b then clear_event st i (ev st ! j) else ev st ! j) [0..<length (ev st)]"
      unfolding cl using Suc.prems True
      by (intro nth_equalityI) (auto simp: st nth_list_update less_Suc_eq)
    then show ?thesis using True by (simp add: st)
  next
    case False
    then have "(\<lambda>j. if a \<le> j \<and> j < Suc b then clear_event st i (ev st ! j) else ev st ! j) = (\<lambda>j. ev st ! j)"
      by (intro ext) auto
    with False show ?thesis by (simp add: map_nth)
  qed
qed

text \<open>
  No stale events. After a message that closes or fails a socket, every event still to be
  looked at that points to a free slot with the message's number has its pointer cleared, so that
  the next turns pass it over; all other events, those already looked at and those of other
  sockets, are as they were, and so is everything else. Other messages change nothing.
\<close>

theorem stale_events_cleared:
  assumes "srv_ok st" and "j < MAX_EVENT"
  shows "ev (clear_closed_event m ty st) ! j =
      (if (ty = SOCKET_CLOSE \<or> ty = SOCKET_ERROR) \<and> event_index st \<le> j \<and> j < event_n st \<and>
          (\<exists>k. ev_s (ev st ! j) = Some k \<and> free_slot st k \<and> sock_id (slot st k) = msg_id m)
       then (ev st ! j)\<lparr>ev_s := None\<rparr> else ev st ! j) \<and>
    slot (clear_closed_event m ty st) = slot st \<and> trace (clear_closed_event m ty st) = trace st \<and>
    length (ev (clear_closed_event m ty st)) = length (ev st)"
proof -
  have e: "event_n st \<le> length (ev st)" "length (ev st) = MAX_EVENT"
    using assms(1) by (simp_all add: srv_ok_def events_ok_def)
  have "clear_event st i x = (if \<exists>k. ev_s x = Some k \<and> free_slot st k \<and> sock_id (slot st k) = i
      then x\<lparr>ev_s := None\<rparr> else x)" for i x
    by (auto simp: clear_event_def split: option.splits)
  then show ?thesis using assms(2) e by (auto simp: clear_closed_event_def clear_fold [OF e(1)])
qed

theorem stale_events_cleared_witness:
  "ev_s (ev (clear_closed_event (blank_message\<lparr>msg_id := 3\<rparr>) SOCKET_CLOSE
     (set_slot 3 (\<lambda>s. s\<lparr>sock_type := SOCKET_TYPE_INVALID\<rparr>) reading_server)) ! 0) = None"
proof -
  let ?st = "set_slot 3 (\<lambda>s. s\<lparr>sock_type := SOCKET_TYPE_INVALID\<rparr>) reading_server"
  have "safe reading_server ?st"
    by (rule safe_set_slot [OF safe_refl [OF reading_server_ok]]) (simp_all add: socket_ok_def)
  then have ok: "srv_ok ?st" by (rule safe_srv_ok)
  have "event_index ?st = 0" "event_n ?st = 1" "ev_s (ev ?st ! 0) = Some 3"
    by (simp_all add: reading_server_def one_socket_def blank_server_def MAX_EVENT_def)
  then show ?thesis
    using stale_events_cleared [OF ok, of 0 "blank_message\<lparr>msg_id := 3\<rparr>" SOCKET_CLOSE]
    by (simp add: MAX_EVENT_def reading_server_slot)
qed

text \<open>
  C30: \<open>poll\<close> answers. When the control pipe holds requests and is checked, \<open>poll\<close> serves the oldest
  one first, before any event, and returns its message if it has one. When the pipe is empty, no
  event is left and waiting brings none, \<open>poll\<close> returns \<open>-1\<close> with \<^verbatim>\<open>*more\<close> set to 0, the
  message and the slots untouched, and the pipe is checked again next time.
\<close>

theorem poll_answers:
  shows "(checkctrl st \<and> server_pipe os st \<and> pipe_holds st (req # reqs) \<and>
      ret (os (trace st) (Select (recvctrl_fd st))) = 1 \<longrightarrow>
      (\<exists>st1. slot st1 = slot st \<and> pipe_holds st1 reqs \<and>
        (\<forall>ty st' m'. handle os req st1 m = Some (ty, st', m') \<and> ty \<noteq> no_message \<longrightarrow>
          poll os stk st m mr = Some (ty, clear_closed_event m' ty st', m', mr)))) \<and>
    (checkctrl st \<and> ret (os (trace st) (Select (recvctrl_fd st))) = 0 \<and> event_index st = event_n st \<and>
      (\<forall>tr. ret (os tr (Epoll_wait (event_fd st) MAX_EVENT)) \<le> 0) \<longrightarrow>
      (\<exists>st'. poll os stk st m mr = Some (- 1, st', m, 0) \<and> slot st' = slot st \<and> checkctrl st' \<and>
        event_n st' = 0 \<and> event_index st' = 0))"
proof (intro conjI impI)
  assume a: "checkctrl st \<and> server_pipe os st \<and> pipe_holds st (req # reqs) \<and>
      ret (os (trace st) (Select (recvctrl_fd st))) = 1"
  define st0 where "st0 = emit (Select (recvctrl_fd st)) st"
  have "pipe_holds st0 (req # reqs)" "server_pipe os st0" using a by (simp_all add: st0_def pipe_holds_def)
  from pipe_holds_read [OF this, of stk m] obtain st1 where st1: "ctrl_cmd os stk st0 m = handle os req st1 m"
      "pipe_holds st1 reqs" "slot st1 = slot st" by (auto simp: st0_def)
  have "poll os stk st m mr = Some (ty, clear_closed_event m' ty st', m', mr)"
    if "handle os req st1 m = Some (ty, st', m')" "ty \<noteq> no_message" for ty st' m'
    using a that st1(1) by (subst poll.simps) (simp add: poll_turn_def has_cmd_def sys_split ctrl_turn_def st0_def)
  with st1 show "\<exists>st1. slot st1 = slot st \<and> pipe_holds st1 reqs \<and>
        (\<forall>ty st' m'. handle os req st1 m = Some (ty, st', m') \<and> ty \<noteq> no_message \<longrightarrow>
          poll os stk st m mr = Some (ty, clear_closed_event m' ty st', m', mr))" by blast
next
  assume "checkctrl st \<and> ret (os (trace st) (Select (recvctrl_fd st))) = 0 \<and> event_index st = event_n st \<and>
      (\<forall>tr. ret (os tr (Epoll_wait (event_fd st) MAX_EVENT)) \<le> 0)"
  then show "\<exists>st'. poll os stk st m mr = Some (- 1, st', m, 0) \<and> slot st' = slot st \<and> checkctrl st' \<and>
        event_n st' = 0 \<and> event_index st' = 0"
    by (subst poll.simps) (simp add: poll_turn_def has_cmd_def sys_split wait_turn_def ep_wait_def Let_def)
qed

theorem poll_answers_witness:
  "\<exists>st'. poll pipe_os (\<lambda>_. []) blank_server blank_message 1 = Some (- 1, st', blank_message, 0)"
proof -
  have "checkctrl blank_server \<and> ret (pipe_os (trace blank_server) (Select (recvctrl_fd blank_server))) = 0 \<and>
      event_index blank_server = event_n blank_server \<and>
      (\<forall>tr. ret (pipe_os tr (Epoll_wait (event_fd blank_server) MAX_EVENT)) \<le> 0)"
    by (simp add: blank_server_def null_reply_def pipe_bytes_def)
  then show ?thesis using poll_answers [where st = blank_server and os = pipe_os and stk = "\<lambda>_. []" and m = blank_message and mr = 1]
    by blast
qed

section \<open>Starting the server\<close>

text \<open>
  Starting. When epoll, the pipe and the registration of its reading end succeed,
  \<open>initialize\<close> leaves a well-formed server with no socket in use that checks the pipe first. When
  epoll fails, nothing else is tried; when a later step fails, exactly the descriptors opened so
  far are closed again; no slot changes in either case. A pipe end too large for
  \<^verbatim>\<open>select\<close> stops the program.
\<close>

theorem initialize_outcomes:
  fixes os :: os
  assumes "length (ev st) = MAX_EVENT" and "trace st = []"
  defines "e \<equiv> ret (os [] Epoll_create)" and "p \<equiv> os [Epoll_create] Pipe"
  defines "a \<equiv> ret (os [Epoll_create, Pipe] (Epoll_add e (fst (r_fds p)) None EPOLLIN))"
  shows "if e = - 1 then \<exists>st'. initialize os st = Some st' \<and> slot st' = slot st \<and> trace st' = [Epoll_create]
    else if ret p \<noteq> 0 then \<exists>st'. initialize os st = Some st' \<and> slot st' = slot st \<and>
      trace st' = [Epoll_create, Pipe, Close e]
    else if a = - 1 then \<exists>st'. initialize os st = Some st' \<and> slot st' = slot st \<and>
      trace st' = [Epoll_create, Pipe, Epoll_add e (fst (r_fds p)) None EPOLLIN,
        Close (fst (r_fds p)), Close (snd (r_fds p)), Close e]
    else if FD_SETSIZE \<le> fst (r_fds p) then initialize os st = None
    else \<exists>st'. initialize os st = Some st' \<and> srv_ok st' \<and> live_ids st' = {} \<and> checkctrl st' \<and>
      alloc_id st' = 0"
proof -
  consider "e = - 1" | "e \<noteq> - 1" "ret p \<noteq> 0" | "e \<noteq> - 1" "ret p = 0" "a = - 1"
    | "e \<noteq> - 1" "ret p = 0" "a \<noteq> - 1" "FD_SETSIZE \<le> fst (r_fds p)" | "init_comes_up os st"
    unfolding init_comes_up_def assms(2) e_def p_def a_def Let_def by force
  then show ?thesis
  proof cases
    case 5
    have "\<exists>st'. initialize os st = Some st' \<and> srv_ok st' \<and> live_ids st' = {} \<and> checkctrl st' \<and> alloc_id st' = 0"
      using initialize_up [OF 5 assms(1)] assms(2) by (auto simp: live_ids_def)
    moreover have "\<not> e = - 1" "\<not> ret p \<noteq> 0" "\<not> a = - 1" "\<not> FD_SETSIZE \<le> fst (r_fds p)"
      using 5 by (simp_all add: init_comes_up_def assms(2) e_def p_def a_def Let_def)
    ultimately show ?thesis by simp
  qed (simp_all add: initialize_def ep_create_def ep_invalid_def ep_add_def ep_release_def sys_split Let_def
      assms(2) e_def p_def a_def init_slots_rest)
qed

theorem initialize_outcomes_witness:
  "\<exists>st'. initialize pipe_os blank_server = Some st' \<and> live_ids st' = {}"
  using initialize_outcomes [OF blank_events, of pipe_os] by (simp add: null_reply_def FD_SETSIZE_def) blast

end
