(* ===== verification/Core_Random.thy ===== *)
theory Core_Random
  imports Prelude
begin

text \<open>
  The pseudo-random generator of \<^verbatim>\<open>core/canna_random.h\<close>: a linear congruential generator on 32-bit
  words, three steps of which make one number of 31 bits. Its seed sequence is shown to have the
  full period, by the divisibility of a geometric sum.
\<close>

section \<open>The code\<close>

record CaRandom =
  m_seed :: u32

definition new_CaRandom :: CaRandom where
  "new_CaRandom = \<lparr>m_seed = 0\<rparr>"

definition SetSeed :: "u32 \<Rightarrow> CaRandom \<Rightarrow> CaRandom" where
  "SetSeed seed g = g\<lparr>m_seed := seed\<rparr>"

definition Random :: "CaRandom \<Rightarrow> u32 \<times> CaRandom" where
  "Random g =
     (let nxt = m_seed g;
          nxt = nxt * 1103515245;
          nxt = nxt + 12345;
          result = drop_bit 16 nxt mod 2048;
          nxt = nxt * 1103515245;
          nxt = nxt + 12345;
          result = push_bit 10 result;
          result = result XOR (drop_bit 16 nxt mod 1024);
          nxt = nxt * 1103515245;
          nxt = nxt + 12345;
          result = push_bit 10 result;
          result = result XOR (drop_bit 16 nxt mod 1024)
      in (result, g\<lparr>m_seed := nxt\<rparr>))"

definition Random_range :: "u32 \<Rightarrow> CaRandom \<Rightarrow> u32 \<times> CaRandom" where
  "Random_range rng g =
     (if rng = 0 then (0, g) else let (r, g) = Random g in (r mod rng, g))"

definition Random_between :: "u32 \<Rightarrow> u32 \<Rightarrow> CaRandom \<Rightarrow> u32 \<times> CaRandom" where
  "Random_between lo hi g =
     (if lo = hi then (hi, g) else let (r, g) = Random_range (hi - lo) g in (r + lo, g))"

text \<open>The seed after \<open>n\<close> calls.\<close>

definition seed_after :: "nat \<Rightarrow> u32 \<Rightarrow> u32" where
  "seed_after n seed = m_seed (((\<lambda>g. snd (Random g)) ^^ n) (SetSeed seed new_CaRandom))"

section \<open>Periods of affine steps\<close>

text \<open>The sum of the first \<open>n\<close> powers, and its divisibility by powers of two.\<close>

definition powers :: "int \<Rightarrow> nat \<Rightarrow> int" where
  "powers a n = (\<Sum>l<n. a ^ l)"

lemma powers_add: "powers a (h + k) = powers a h + a ^ h * powers a k"
  by (induction k) (simp_all add: powers_def power_add algebra_simps)

lemma powers_minus: "(a - 1) * powers a n = a ^ n - 1"
  by (induction n) (simp_all add: powers_def algebra_simps)

lemma even_powers: "odd a \<Longrightarrow> even (powers a n) \<longleftrightarrow> even n"
  by (induction n) (simp_all add: powers_def)

lemma four_mod: "(x :: int) mod 4 = 2 \<Longrightarrow> \<exists>u. x = 2 * u \<and> odd u"
  by presburger

lemma two_power_dvd_powers:
  assumes a: "a mod 4 = (1 :: int)"
  shows "2 ^ n dvd powers a j \<longleftrightarrow> 2 ^ n dvd j"
proof (induction j arbitrary: n rule: less_induct)
  case (less j)
  have odd_a: "odd a" using a by presburger
  show ?case
  proof (cases "odd j")
    case True
    then have "odd (powers a j)" by (simp add: even_powers odd_a)
    with True show ?thesis by (cases n) auto
  next
    case False
    then obtain h where j: "j = h + h" by (metis evenE mult_2)
    have "a ^ h mod 4 = 1" using power_mod [of a 4 h] by (simp add: a)
    then have "(1 + a ^ h) mod 4 = 2" by presburger
    then obtain u where u: "1 + a ^ h = 2 * u" "odd u" using four_mod by blast
    have split: "powers a j = 2 * (powers a h * u)"
    proof -
      have "powers a j = powers a h * (1 + a ^ h)" by (simp add: j powers_add algebra_simps)
      then show ?thesis by (simp add: u)
    qed
    show ?thesis
    proof (cases n)
      case 0
      then show ?thesis by simp
    next
      case (Suc m)
      have cop: "coprime (2 ^ m) u" using u(2) by simp
      have "2 ^ n dvd powers a j \<longleftrightarrow> 2 ^ m dvd powers a h * u"
        unfolding split Suc power_Suc by (simp only: dvd_mult_cancel_left) simp
      also have "\<dots> \<longleftrightarrow> 2 ^ m dvd powers a h" using cop by (simp add: coprime_dvd_mult_left_iff)
      also have "\<dots> \<longleftrightarrow> 2 ^ m dvd h"
      proof (cases "h = 0")
        case True
        then show ?thesis by (simp add: powers_def)
      next
        case False
        then show ?thesis by (intro less) (simp add: j)
      qed
      also have "\<dots> \<longleftrightarrow> 2 ^ n dvd j"
        unfolding j Suc power_Suc mult_2 [symmetric] by simp
      finally show ?thesis .
    qed
  qed
qed

fun affine :: "int \<Rightarrow> int \<Rightarrow> nat \<Rightarrow> int \<Rightarrow> int" where
  "affine a c 0 x = x"
| "affine a c (Suc n) x = a * affine a c n x + c"

lemma affine_closed: "affine a c n x = a ^ n * x + c * powers a n"
  by (induction n) (simp_all add: powers_def algebra_simps sum_distrib_left
     sum.lessThan_Suc_shift del: sum.lessThan_Suc)

lemma affine_add: "affine a c (m + n) x = affine a c m (affine a c n x)"
  by (induction m) simp_all

lemma affine_diff: "affine a c n x - x = powers a n * ((a - 1) * x + c)"
proof -
  have "affine a c n x - x = (a ^ n - 1) * x + c * powers a n"
    by (simp add: affine_closed algebra_simps)
  also have "\<dots> = powers a n * ((a - 1) * x + c)"
    by (simp add: powers_minus [symmetric] algebra_simps)
  finally show ?thesis .
qed

text \<open>An affine step with multiplier 1 modulo 4 and odd increment has period \<open>2 ^ k\<close> modulo \<open>2 ^ k\<close>.\<close>

lemma affine_period:
  assumes a: "a mod 4 = 1" and c: "odd c"
  shows "2 ^ k dvd affine a c n x - x \<longleftrightarrow> 2 ^ k dvd n"
proof -
  have "odd ((a - 1) * x + c)" using a c by (simp add: algebra_simps) presburger
  then have "coprime (2 ^ k) ((a - 1) * x + c)" by simp
  then show ?thesis
    unfolding affine_diff by (simp add: coprime_dvd_mult_left_iff two_power_dvd_powers [OF a])
qed

section \<open>The seed sequence\<close>

text \<open>Three steps of the generator are one affine step on the seed.\<close>

abbreviation (input) seed_mult :: int where "seed_mult \<equiv> 1103515245 ^ 3"
abbreviation (input) seed_add :: int where "seed_add \<equiv> 12345 * (1103515245 ^ 2 + 1103515245 + 1)"

lemma Random_seed: "m_seed (snd (Random g)) = word_of_int (seed_mult * uint (m_seed g) + seed_add)"
proof -
  have "m_seed (snd (Random g)) = ((m_seed g * 1103515245 + 12345) * 1103515245 + 12345) * 1103515245 + 12345"
    by (cases g) (simp only: Random_def Let_def snd_conv CaRandom.simps)
  also have "\<dots> = word_of_int (((uint (m_seed g) * 1103515245 + 12345) * 1103515245 + 12345) * 1103515245 + 12345)"
    by (simp only: word_of_int_uint of_int_add of_int_mult of_int_numeral)
  also have "((uint (m_seed g) * 1103515245 + 12345) * 1103515245 + 12345) * 1103515245 + 12345
      = seed_mult * uint (m_seed g) + seed_add" by (simp add: algebra_simps)
  finally show ?thesis .
qed

lemma word_of_int_affine: "word_of_int (a * uint (word_of_int x :: u32) + c) = (word_of_int (a * x + c) :: u32)"
  by (simp only: of_int_add of_int_mult word_of_int_uint)

lemma seed_after_affine: "seed_after n s = word_of_int (affine seed_mult seed_add n (uint s))"
  unfolding seed_after_def
proof (induction n)
  case 0
  then show ?case by (simp add: SetSeed_def)
next
  case (Suc n)
  then show ?case
    by (simp only: funpow.simps comp_apply Random_seed Suc.IH word_of_int_affine affine.simps)
qed

lemma seed_after_eq_iff: "seed_after (m + n) s = seed_after m s \<longleftrightarrow> 2 ^ 32 dvd n"
proof -
  let ?x = "affine seed_mult seed_add m (uint s)"
  have "seed_after (m + n) s = seed_after m s
      \<longleftrightarrow> affine seed_mult seed_add n ?x mod 2 ^ 32 = ?x mod 2 ^ 32"
    by (simp only: seed_after_affine add.commute [of m n] affine_add word_of_int_eq_iff take_bit_eq_mod len_num1 len_num0 len_bit0 len_bit1) simp
  also have "\<dots> \<longleftrightarrow> 2 ^ 32 dvd affine seed_mult seed_add n ?x - ?x" by (rule mod_eq_dvd_iff)
  also have "\<dots> \<longleftrightarrow> 2 ^ 32 dvd n" by (rule affine_period) simp_all
  finally show ?thesis .
qed

text \<open>
  C37: the generator has the full period. Whatever seed it starts from, the first \<open>2 ^ 32\<close>
  calls pass through every 32-bit seed exactly once, and the next call is back at the first seed.
\<close>

theorem Random_full_period:
  "bij_betw (\<lambda>n. seed_after n s) {..<2 ^ 32} UNIV \<and> seed_after (2 ^ 32) s = s"
proof
  have inj: "inj_on (\<lambda>n. seed_after n s) {..<2 ^ 32}"
  proof (rule linorder_inj_onI')
    fix m n :: nat
    assume "n \<in> {..<2 ^ 32}" and "m < n"
    then have "\<not> 2 ^ 32 dvd n - m" by (auto dest: dvd_imp_le)
    then have "seed_after (m + (n - m)) s \<noteq> seed_after m s"
      by (simp only: seed_after_eq_iff not_False_eq_True)
    with \<open>m < n\<close> show "seed_after m s \<noteq> seed_after n s" by simp
  qed
  have "card ((\<lambda>n. seed_after n s) ` {..<2 ^ 32}) = card (UNIV :: u32 set)"
    unfolding card_image [OF inj] by (simp add: card_word)
  then have "(\<lambda>n. seed_after n s) ` {..<2 ^ 32} = UNIV"
    by (intro card_subset_eq) simp_all
  with inj show "bij_betw (\<lambda>n. seed_after n s) {..<2 ^ 32} UNIV" by (simp only: bij_betw_def)
  have "seed_after (0 + 2 ^ 32) s = seed_after 0 s" by (simp only: seed_after_eq_iff) simp
  then show "seed_after (2 ^ 32) s = s" by (simp add: seed_after_def [of 0] SetSeed_def)
qed

section \<open>Ranges\<close>

lemma xor_less_two_power:
  assumes "unat (a :: u32) < 2 ^ n" and "unat b < 2 ^ n"
  shows "unat (a XOR b) < 2 ^ n"
proof -
  have "take_bit n (unat (a XOR b)) = take_bit n (unat a) XOR take_bit n (unat b)"
    by (simp only: unsigned_xor_eq take_bit_xor)
  also have "\<dots> = unat (a XOR b)"
    using assms by (simp only: take_bit_nat_eq_self unsigned_xor_eq)
  finally show ?thesis by (simp only: take_bit_nat_eq_self_iff)
qed

lemma push_bit_less: "unat (a :: u32) < 2 ^ m \<Longrightarrow> unat (push_bit n a) < 2 ^ (m + n)"
proof -
  assume "unat a < 2 ^ m"
  have "unat (push_bit n a) \<le> unat a * 2 ^ n"
    by (simp only: unsigned_push_bit_eq) (simp only: push_bit_eq_mult take_bit_nat_less_eq_self)
  also have "\<dots> < 2 ^ m * 2 ^ n" using \<open>unat a < 2 ^ m\<close> by simp
  finally show ?thesis by (simp only: power_add)
qed

lemma Random_below: "unat (fst (Random g)) < 2 ^ 31"
  unfolding Random_def Let_def fst_conv
proof (intro xor_less_two_power)
  have small: "unat (x mod 1024 :: u32) < 2 ^ 10" "unat (x mod 2048 :: u32) < 2 ^ 11" for x
    by (simp_all add: unat_mod)
  show "unat (x mod 1024 :: u32) < 2 ^ 31" for x
    by (rule order_less_le_trans [OF small(1)]) simp
  show "unat (push_bit 10 (push_bit 10 (x mod 2048 :: u32) XOR y mod 1024)) < 2 ^ 31" for x y
    using push_bit_less [OF xor_less_two_power [OF push_bit_less [OF small(2) [of x], of 10], of "y mod 1024"], of 10]
      order_less_le_trans [OF small(1) [of y], of "2 ^ 21"] by simp
qed

lemma Random_range_below: "rng \<noteq> 0 \<Longrightarrow> fst (Random_range rng g) < rng"
  by (simp add: Random_range_def Let_def case_prod_beta word_less_nat_alt unat_mod unat_gt_0)


lemma shift_into:
  assumes "r < hi - lo" and "lo < (hi :: u32)"
  shows "lo \<le> r + lo \<and> r + lo < hi"
  using assms by unat_arith

lemma shift_out:
  assumes "r < hi - lo" and "hi < (lo :: u32)"
  shows "lo \<le> r + lo \<or> r + lo < hi"
  using assms by unat_arith

lemma Random_between_interval:
  "fst (Random_between lo hi g) \<in>
     (if lo < hi then {lo..<hi} else if lo = hi then {hi} else - {hi..<lo})"
proof (cases "lo = hi")
  case True
  then show ?thesis by (simp add: Random_between_def)
next
  case False
  then have r: "fst (Random_range (hi - lo) g) < hi - lo" by (intro Random_range_below) simp
  have v: "fst (Random_between lo hi g) = fst (Random_range (hi - lo) g) + lo"
    using False by (simp add: Random_between_def case_prod_beta)
  show ?thesis
  proof (cases "lo < hi")
    case True
    with shift_into [OF r] show ?thesis by (simp add: v)
  next
    case False
    with \<open>lo \<noteq> hi\<close> have "hi < lo" by simp
    with shift_out [OF r] False \<open>lo \<noteq> hi\<close> show ?thesis by (auto simp: v not_le)
  qed
qed

text \<open>
  The numbers drawn. A plain draw is below \<open>2 ^ 31\<close>; a draw with a range is below it, and 0 for
  the range 0; a draw between two bounds is in the half-open interval, is the upper bound itself
  when the interval is empty, and wraps around outside the interval when the bounds are swapped.
\<close>

theorem Random_intervals:
  "unat (fst (Random g)) < 2 ^ 31 \<and>
   fst (Random_range rng g) \<in> (if rng = 0 then {0} else {..<rng}) \<and>
   fst (Random_between lo hi g) \<in>
     (if lo < hi then {lo..<hi} else if lo = hi then {hi} else - {hi..<lo})"
  using Random_below [of g] Random_range_below [of rng g] Random_between_interval [of lo hi g]
  by (simp add: Random_range_def)

end
