(* ===== verification/Thread_Safe_Queue.thy ===== *)
theory Thread_Safe_Queue
  imports Prelude
begin

text \<open>
  The blocking queue of \<^verbatim>\<open>core/thread_safe_queue.h\<close>. Every operation runs under the mutex, so an
  operation is one atomic step; only the wait on the condition variable gives the mutex up. The
  state holds the queue and, for the condition variable, the threads asleep in it and the threads
  that were woken and have not looked at the queue again. Which sleeper a notification wakes is
  an argument of \<open>push\<close>, and spurious wake-ups are steps of their own.
\<close>

section \<open>The code\<close>

record 'a tsq =
  m_queue :: "'a list"
  asleep :: "nat set"
  woken :: "nat set"

definition new_queue :: "'a tsq" where
  "new_queue = \<lparr>m_queue = [], asleep = {}, woken = {}\<rparr>"

text \<open>\<^verbatim>\<open>notify_one\<close>: thread \<open>t\<close> leaves the condition variable; nobody does if nobody is asleep.\<close>

definition notify_one :: "nat \<Rightarrow> 'a tsq \<Rightarrow> 'a tsq" where
  "notify_one t q =
     (if t \<in> asleep q then q\<lparr>asleep := asleep q - {t}, woken := insert t (woken q)\<rparr> else q)"

definition push :: "nat \<Rightarrow> 'a \<Rightarrow> 'a tsq \<Rightarrow> 'a tsq" where
  "push t v q = notify_one t (q\<lparr>m_queue := m_queue q @ [v]\<rparr>)"

text \<open>
  Thread \<open>t\<close> evaluates the predicate of the wait with the mutex held, on entering
  \<^verbatim>\<open>wait_and_pop\<close> and after every wake-up: on an empty queue it goes (back) to sleep, otherwise the
  wait is over and the front of the queue is its result.
\<close>

definition wait_and_pop :: "nat \<Rightarrow> 'a tsq \<Rightarrow> 'a option \<times> 'a tsq" where
  "wait_and_pop t q =
     (case m_queue q of
        [] \<Rightarrow> (None, q\<lparr>asleep := insert t (asleep q), woken := woken q - {t}\<rparr>)
      | v # rest \<Rightarrow> (Some v, q\<lparr>m_queue := rest, woken := woken q - {t}\<rparr>))"

text \<open>The overload with a reference keeps the caller's value when there is nothing to pop.\<close>

definition try_pop_into :: "'a \<Rightarrow> 'a tsq \<Rightarrow> bool \<times> 'a \<times> 'a tsq" where
  "try_pop_into v q =
     (case m_queue q of
        [] \<Rightarrow> (False, v, q)
      | x # rest \<Rightarrow> (True, x, q\<lparr>m_queue := rest\<rparr>))"

definition try_pop :: "'a tsq \<Rightarrow> 'a option \<times> 'a tsq" where
  "try_pop q =
     (case m_queue q of
        [] \<Rightarrow> (None, q)
      | x # rest \<Rightarrow> (Some x, q\<lparr>m_queue := rest\<rparr>))"

section \<open>Runs\<close>

text \<open>
  A run keeps beside the queue what was pushed and what was handed out. A thread calls
  \<^verbatim>\<open>wait_and_pop\<close> only when it is not already inside, and looks again only after it was woken; a
  push wakes some sleeper whenever there is one.
\<close>

record 'a queue_run =
  tsq :: "'a tsq"
  pushed :: "'a list"
  popped :: "'a list"

definition new_run :: "'a queue_run" where
  "new_run = \<lparr>tsq = new_queue, pushed = [], popped = []\<rparr>"

definition hand_out :: "'a option \<times> 'a tsq \<Rightarrow> 'a queue_run \<Rightarrow> 'a queue_run" where
  "hand_out res r =
     r\<lparr>tsq := snd res, popped := popped r @ (case fst res of None \<Rightarrow> [] | Some v \<Rightarrow> [v])\<rparr>"

definition do_push :: "nat \<Rightarrow> 'a \<Rightarrow> 'a queue_run \<Rightarrow> 'a queue_run" where
  "do_push t v r = r\<lparr>tsq := push t v (tsq r), pushed := pushed r @ [v]\<rparr>"

definition do_wait :: "nat \<Rightarrow> 'a queue_run \<Rightarrow> 'a queue_run" where
  "do_wait t r = hand_out (wait_and_pop t (tsq r)) r"

inductive queue_step :: "'a queue_run \<Rightarrow> 'a queue_run \<Rightarrow> bool" where
  Push: "(asleep (tsq r) = {} \<or> t \<in> asleep (tsq r)) \<Longrightarrow>
    queue_step r (do_push t v r)"
| Enter: "t \<notin> asleep (tsq r) \<union> woken (tsq r) \<Longrightarrow> queue_step r (do_wait t r)"
| Look: "t \<in> woken (tsq r) \<Longrightarrow> queue_step r (do_wait t r)"
| Spurious: "queue_step r (r\<lparr>tsq := notify_one t (tsq r)\<rparr>)"
| Try: "queue_step r (hand_out (try_pop (tsq r)) r)"

inductive_cases queue_stepE [elim!]: "queue_step r r'"

inductive reachable_run :: "'a queue_run \<Rightarrow> bool" where
  start: "reachable_run new_run"
| step: "reachable_run r \<Longrightarrow> queue_step r r' \<Longrightarrow> reachable_run r'"

section \<open>Invariants\<close>

text \<open>
  The wake-up invariant: as long as somebody sleeps, at least one woken thread is under way for
  every item in the queue.
\<close>

definition wake_ok :: "'a tsq \<Rightarrow> bool" where
  "wake_ok q \<longleftrightarrow> finite (woken q) \<and> finite (asleep q) \<and> asleep q \<inter> woken q = {} \<and>
     (asleep q \<noteq> {} \<longrightarrow> length (m_queue q) \<le> card (woken q))"

definition run_ok :: "'a queue_run \<Rightarrow> bool" where
  "run_ok r \<longleftrightarrow> pushed r = popped r @ m_queue (tsq r) \<and> wake_ok (tsq r)"

lemma wake_ok_new [simp]: "wake_ok new_queue"
  by (simp add: wake_ok_def new_queue_def)

lemma wake_ok_push:
  "wake_ok q \<Longrightarrow> asleep q = {} \<or> t \<in> asleep q \<Longrightarrow> wake_ok (push t v q)"
  by (auto simp: wake_ok_def push_def notify_one_def card_insert_if)

lemma wake_ok_notify: "wake_ok q \<Longrightarrow> wake_ok (notify_one t q)"
  by (auto simp: wake_ok_def notify_one_def card_insert_if)

lemma wake_ok_enter:
  "wake_ok q \<Longrightarrow> t \<notin> asleep q \<union> woken q \<Longrightarrow> wake_ok (snd (wait_and_pop t q))"
  by (auto simp: wake_ok_def wait_and_pop_def split: list.splits)

lemma wake_ok_look: "wake_ok q \<Longrightarrow> t \<in> woken q \<Longrightarrow> wake_ok (snd (wait_and_pop t q))"
  by (cases "m_queue q") (auto simp: wake_ok_def wait_and_pop_def card_gt_0_iff)

lemma wake_ok_try: "wake_ok q \<Longrightarrow> wake_ok (snd (try_pop q))"
  by (auto simp: wake_ok_def try_pop_def split: list.splits)

lemmas wake_ok_steps = wake_ok_push wake_ok_notify wake_ok_enter wake_ok_look wake_ok_try

text \<open>What each operation does to the items.\<close>

lemma m_queue_push [simp]: "m_queue (push t v q) = m_queue q @ [v]"
  by (simp add: push_def notify_one_def)

lemma m_queue_notify [simp]: "m_queue (notify_one t q) = m_queue q"
  by (simp add: notify_one_def)

definition front_rest :: "'a list \<Rightarrow> 'a option \<times> 'a list" where
  "front_rest xs = (case xs of [] \<Rightarrow> (None, []) | x # rest \<Rightarrow> (Some x, rest))"

lemma wait_and_pop_items: "apsnd m_queue (wait_and_pop t q) = front_rest (m_queue q)"
  by (simp add: wait_and_pop_def front_rest_def split: list.split)

lemma try_pop_items: "apsnd m_queue (try_pop q) = front_rest (m_queue q)"
  by (simp add: try_pop_def front_rest_def split: list.split)

lemma hand_out_fifo:
  assumes "apsnd m_queue res = front_rest (m_queue (tsq r))"
  shows "popped (hand_out res r) @ m_queue (snd res) = popped r @ m_queue (tsq r)"
  using assms by (cases res; cases "m_queue (tsq r)"; auto simp: hand_out_def front_rest_def)+

lemma hand_out_simps [simp]: "pushed (hand_out res r) = pushed r" "tsq (hand_out res r) = snd res"
  by (simp_all add: hand_out_def)

lemma run_ok_step: "queue_step r r' \<Longrightarrow> run_ok r \<Longrightarrow> run_ok r'"
  unfolding run_ok_def
  by (elim queue_stepE)
    (auto simp: do_push_def do_wait_def hand_out_fifo wait_and_pop_items try_pop_items intro: wake_ok_steps)

lemma reachable_ok: "reachable_run r \<Longrightarrow> run_ok r"
proof (induction rule: reachable_run.induct)
  case start
  show ?case by (simp add: run_ok_def new_run_def) (simp add: new_queue_def)
qed (rule run_ok_step)

section \<open>The contract a client relies on\<close>

text \<open>A first-in first-out container with a non-blocking removal.\<close>

locale work_queue =
  fixes items :: "'q \<Rightarrow> 'a list" and put :: "'a \<Rightarrow> 'q \<Rightarrow> 'q" and take_front :: "'q \<Rightarrow> 'a option \<times> 'q"
  assumes items_put: "items (put x q) = items q @ [x]"
    and items_take: "apsnd items (take_front q) = front_rest (items q)"
begin

lemma take_some: "take_front q = (Some x, q') \<Longrightarrow> items q = x # items q'"
  using items_take [of q] by (cases "items q") (auto simp: front_rest_def)

lemma take_none: "take_front q = (None, q') \<Longrightarrow> items q = [] \<and> items q' = []"
  using items_take [of q] by (cases "items q") (auto simp: front_rest_def)

lemma take_cons: "items q = x # xs \<Longrightarrow> \<exists>q'. take_front q = (Some x, q') \<and> items q' = xs"
  using items_take [of q] by (cases "take_front q") (auto simp: front_rest_def)

lemma put_all: "items (fold put xs q) = items q @ xs"
  by (induction xs arbitrary: q) (simp_all add: items_put)

end

interpretation shared_queue: work_queue m_queue "push t" try_pop
  by unfold_locales (simp_all add: try_pop_items)

interpretation waiting_queue: work_queue m_queue "push t" "wait_and_pop t"
  by unfold_locales (simp_all add: wait_and_pop_items)

section \<open>Properties\<close>

text \<open>
  C38: in every interleaving of pushes, blocking and non-blocking pops and spurious wake-ups, the
  items handed out, over all consumers together, and then those still queued, are exactly the
  items pushed, in their order: none is lost, doubled or overtaken.
\<close>

theorem queue_is_fifo: "reachable_run r \<Longrightarrow> pushed r = popped r @ m_queue (tsq r)"
  using reachable_ok unfolding run_ok_def by blast

definition sample_run :: "nat queue_run" where
  "sample_run = do_push 2 8 (do_push 1 7 (do_wait 2 (do_wait 1 new_run)))"

lemmas sample_run_simps =
  sample_run_def do_push_def do_wait_def new_run_def new_queue_def wait_and_pop_def hand_out_def
  push_def notify_one_def

lemma sample_run_value:
  "sample_run = \<lparr>tsq = \<lparr>m_queue = [7, 8], asleep = {}, woken = {2, 1}\<rparr>, pushed = [7, 8], popped = []\<rparr>"
  by (simp add: sample_run_simps) auto

lemma sample_run_reachable: "reachable_run sample_run"
proof -
  have "reachable_run (do_wait 1 new_run :: nat queue_run)"
    by (rule reachable_run.step [OF reachable_run.start])
      (rule queue_step.Enter, simp add: new_run_def new_queue_def)
  then have "reachable_run (do_wait 2 (do_wait 1 new_run) :: nat queue_run)"
    by (rule reachable_run.step) (rule queue_step.Enter, simp add: sample_run_simps)
  then have "reachable_run (do_push 1 7 (do_wait 2 (do_wait 1 new_run)) :: nat queue_run)"
    by (rule reachable_run.step) (rule queue_step.Push, simp add: sample_run_simps)
  then show ?thesis unfolding sample_run_def
    by (rule reachable_run.step) (rule queue_step.Push, simp add: sample_run_simps)
qed

theorem queue_is_fifo_witness:
  "pushed (do_wait 2 sample_run) = [7, 8] \<and> popped (do_wait 2 sample_run) = [7] \<and>
   m_queue (tsq (do_wait 2 sample_run)) = [8]"
proof -
  have "reachable_run (do_wait 2 sample_run)"
    by (rule reachable_run.step [OF sample_run_reachable])
      (rule queue_step.Look, simp add: sample_run_value)
  then have "pushed (do_wait 2 sample_run)
      = popped (do_wait 2 sample_run) @ m_queue (tsq (do_wait 2 sample_run))"
    by (rule queue_is_fifo)
  moreover have "popped (do_wait 2 sample_run) = [7]" "m_queue (tsq (do_wait 2 sample_run)) = [8]"
    by (simp_all add: sample_run_value do_wait_def hand_out_def wait_and_pop_def)
  ultimately show ?thesis by simp
qed

lemma do_wait_simps:
  "m_queue (tsq (do_wait t r)) = tl (m_queue (tsq r))"
  "popped (do_wait t r) = popped r @ take 1 (m_queue (tsq r))"
  "m_queue (tsq r) \<noteq> [] \<Longrightarrow> asleep (tsq (do_wait t r)) = asleep (tsq r)"
  by (cases "m_queue (tsq r)"; simp add: do_wait_def hand_out_def wait_and_pop_def)+

text \<open>Letting the woken threads look again, one after the other, drains the queue from its front.\<close>

lemma waits_drain:
  "m_queue (tsq (fold do_wait ts r)) = drop (length ts) (m_queue (tsq r)) \<and>
   popped (fold do_wait ts r) = popped r @ take (length ts) (m_queue (tsq r))"
proof (induction ts arbitrary: r)
  case (Cons t ts)
  show ?case by (cases "m_queue (tsq r)") (simp_all add: Cons do_wait_simps)
qed simp

lemma waits_nobody_asleep:
  "asleep (tsq r) = {} \<Longrightarrow> length ts \<le> length (m_queue (tsq r)) \<Longrightarrow>
   asleep (tsq (fold do_wait ts r)) = {}"
proof (induction ts arbitrary: r)
  case (Cons t ts)
  then obtain v vs where "m_queue (tsq r) = v # vs" by (cases "m_queue (tsq r)") auto
  with Cons show ?case by (simp add: do_wait_simps)
qed simp

text \<open>
  C19: no wake-up is lost. In every reachable state, once every woken thread has looked at the
  queue again, in whatever order, the items at the front have gone to them one each, and either
  nobody sleeps or the queue is empty: no item is left for a thread that nobody wakes.
\<close>

theorem no_lost_wake_up:
  assumes "reachable_run r" and "distinct ts" and "set ts = woken (tsq r)"
  shows "popped (fold do_wait ts r) = popped r @ take (length ts) (m_queue (tsq r)) \<and>
    (asleep (tsq (fold do_wait ts r)) = {} \<or> m_queue (tsq (fold do_wait ts r)) = [])"
proof (cases "length ts \<le> length (m_queue (tsq r)) \<and> asleep (tsq r) = {}")
  case True
  then show ?thesis by (simp add: waits_drain waits_nobody_asleep)
next
  case False
  have "card (woken (tsq r)) = length ts"
    using assms(2,3) by (metis distinct_card)
  with False reachable_ok [OF assms(1)] have "length (m_queue (tsq r)) \<le> length ts"
    by (auto simp: run_ok_def wake_ok_def)
  then show ?thesis by (simp add: waits_drain)
qed

theorem no_lost_wake_up_witness:
  "popped (fold do_wait [2, 1] sample_run) = [7, 8] \<and>
   (asleep (tsq (fold do_wait [2, 1] sample_run)) = {} \<or>
    m_queue (tsq (fold do_wait [2, 1] sample_run)) = [])"
  using no_lost_wake_up [OF sample_run_reachable, of "[2, 1]"] by (simp add: sample_run_value)

end
