(* ===== verification/Thread_Pool.thy ===== *)
theory Thread_Pool
  imports Thread_Safe_Queue
begin

text \<open>
  The thread pool of \<^verbatim>\<open>core/thread_pool.h\<close> on the queue of \<open>Thread_Safe_Queue\<close>. A worker is a
  program counter in the loop of \<^verbatim>\<open>ThreadPool::work\<close>; one step of a worker is one access to shared
  state (the read of \<^verbatim>\<open>m_done\<close>, the \<^verbatim>\<open>try_pop\<close>) or the end of its task. Tasks are opaque values and
  the pool remembers which worker started which task.
\<close>

section \<open>The code\<close>

datatype 'f worker = Check | Pop | Run 'f | Exited

record 'f pool =
  m_done :: bool
  pool_queue :: "'f tsq"
  m_threads :: "'f worker list"
  started :: "(nat \<times> 'f) list"

definition set_worker :: "nat \<Rightarrow> 'f worker \<Rightarrow> 'f pool \<Rightarrow> 'f pool" where
  "set_worker i w p = p\<lparr>m_threads := (m_threads p)[i := w]\<rparr>"

text \<open>One step of worker \<open>i\<close> in the loop of \<^verbatim>\<open>work\<close>.\<close>

definition work :: "nat \<Rightarrow> 'f pool \<Rightarrow> 'f pool" where
  "work i p =
     (if length (m_threads p) \<le> i then p
      else case m_threads p ! i of
        Check \<Rightarrow> set_worker i (if m_done p then Exited else Pop) p
      | Pop \<Rightarrow>
          (case try_pop (pool_queue p) of
             (Some task, q) \<Rightarrow>
               set_worker i (Run task) (p\<lparr>pool_queue := q, started := started p @ [(i, task)]\<rparr>)
           | (None, q) \<Rightarrow> set_worker i Check (p\<lparr>pool_queue := q\<rparr>))
      | Run task \<Rightarrow> set_worker i Check p
      | Exited \<Rightarrow> p)"

text \<open>
  The constructor. \<open>spawn i\<close> says whether the operating system grants thread \<open>i\<close>; a refused thread
  is the exception of \<^verbatim>\<open>std::thread\<close>, on which the flag is set and the exception thrown on (\<open>Inl\<close>).
\<close>

definition thread_count :: "u32 \<Rightarrow> u32" where
  "thread_count hardware = (if hardware < 2 then 2 else hardware)"

fun spawn_threads :: "(nat \<Rightarrow> bool) \<Rightarrow> nat \<Rightarrow> 'f pool \<Rightarrow> 'f pool + 'f pool" where
  "spawn_threads spawn 0 p = Inr p"
| "spawn_threads spawn (Suc n) p =
     (if spawn (length (m_threads p))
      then spawn_threads spawn n (p\<lparr>m_threads := m_threads p @ [Check]\<rparr>)
      else Inl (p\<lparr>m_done := True\<rparr>))"

definition ThreadPool :: "(nat \<Rightarrow> bool) \<Rightarrow> u32 \<Rightarrow> 'f pool + 'f pool" where
  "ThreadPool spawn hardware =
     spawn_threads spawn (unat (thread_count hardware))
       \<lparr>m_done = False, pool_queue = new_queue, m_threads = [], started = []\<rparr>"

definition submit :: "'f \<Rightarrow> 'f pool \<Rightarrow> 'f pool" where
  "submit f p = p\<lparr>pool_queue := push 0 f (pool_queue p)\<rparr>"

text \<open>
  The destructor sets the flag; the joiner destroyed after it waits for each thread, so it returns
  once all of them have left their loop.
\<close>

definition destroy :: "'f pool \<Rightarrow> 'f pool" where
  "destroy p = p\<lparr>m_done := True\<rparr>"

definition joined :: "'f pool \<Rightarrow> bool" where
  "joined p \<longleftrightarrow> (\<forall>w\<in>set (m_threads p). w = Exited)"

section \<open>Runs\<close>

datatype 'f event = Submit 'f | Work nat | Destroy

fun pool_event :: "'f event \<Rightarrow> 'f pool \<Rightarrow> 'f pool" where
  "pool_event (Submit f) p = submit f p"
| "pool_event (Work i) p = work i p"
| "pool_event Destroy p = destroy p"

fun submitted :: "'f event list \<Rightarrow> 'f list" where
  "submitted [] = []"
| "submitted (Submit f # es) = f # submitted es"
| "submitted (_ # es) = submitted es"

text \<open>The tasks in the order they were or will be started.\<close>

definition task_line :: "'f pool \<Rightarrow> 'f list" where
  "task_line p = map snd (started p) @ m_queue (pool_queue p)"

section \<open>Steps\<close>

lemma set_worker_simps [simp]:
  "m_done (set_worker i w p) = m_done p" "pool_queue (set_worker i w p) = pool_queue p"
  "started (set_worker i w p) = started p" "m_threads (set_worker i w p) = (m_threads p)[i := w]"
  by (simp_all add: set_worker_def)

text \<open>The five ways a worker can step.\<close>

lemma work_cases:
  obtains (idle) "work i p = p" "length (m_threads p) \<le> i \<or> m_threads p ! i = Exited"
  | (check) "i < length (m_threads p)" "m_threads p ! i = Check"
      "work i p = set_worker i (if m_done p then Exited else Pop) p"
  | (pop) task q where "i < length (m_threads p)" "m_threads p ! i = Pop"
      "m_queue (pool_queue p) = task # m_queue q"
      "work i p = set_worker i (Run task) (p\<lparr>pool_queue := q, started := started p @ [(i, task)]\<rparr>)"
  | (empty) q where "i < length (m_threads p)" "m_threads p ! i = Pop"
      "m_queue (pool_queue p) = []" "m_queue q = []"
      "work i p = set_worker i Check (p\<lparr>pool_queue := q\<rparr>)"
  | (ran) task where "i < length (m_threads p)" "m_threads p ! i = Run task"
      "work i p = set_worker i Check p"
proof (cases "i < length (m_threads p)")
  case False
  then show thesis by (intro idle) (simp_all add: work_def)
next
  case True
  show thesis
  proof (cases "m_threads p ! i")
    case Check
    with True show thesis by (intro check) (simp_all add: work_def)
  next
    case Pop
    obtain res q where t: "try_pop (pool_queue p) = (res, q)" by fastforce
    show thesis
    proof (cases res)
      case None
      with t shared_queue.take_none [of "pool_queue p" q] True Pop show thesis
        by (intro empty [of q]) (simp_all add: work_def)
    next
      case (Some task)
      with t shared_queue.take_some [of "pool_queue p" task q] True Pop show thesis
        by (intro pop [of task q]) (simp_all add: work_def)
    qed
  next
    case (Run task)
    with True show thesis by (intro ran) (simp_all add: work_def)
  next
    case Exited
    with True show thesis by (intro idle) (simp_all add: work_def)
  qed
qed

lemma work_keeps [simp]:
  "m_done (work i p) = m_done p" "length (m_threads (work i p)) = length (m_threads p)"
  "task_line (work i p) = task_line p"
  by (cases rule: work_cases [where i = i and p = p]; simp add: task_line_def)+

lemma work_other: "j \<noteq> i \<Longrightarrow> m_threads (work i p) ! j = m_threads p ! j"
  by (cases rule: work_cases [where i = i and p = p]) simp_all

lemma works_keep [simp]:
  "m_done (fold work is p) = m_done p" "length (m_threads (fold work is p)) = length (m_threads p)"
  "task_line (fold work is p) = task_line p"
  by (induction "is" arbitrary: p) simp_all


section \<open>Order\<close>

lemma run_task_line: "task_line (fold pool_event es p) = task_line p @ submitted es"
proof (induction es arbitrary: p)
  case (Cons e es)
  then show ?case
    by (cases e) (simp_all add: submit_def destroy_def task_line_def [of "_\<lparr>m_done := _\<rparr>"]
      task_line_def [of "_\<lparr>pool_queue := _\<rparr>"] task_line_def [of p])
qed simp

lemma spawn_threads_granted:
  "\<forall>i<n. spawn (length (m_threads p) + i) \<Longrightarrow>
   spawn_threads spawn n p = Inr (p\<lparr>m_threads := m_threads p @ replicate n Check\<rparr>)"
proof (induction n arbitrary: p)
  case (Suc n)
  from Suc.prems have "spawn (length (m_threads p))" by auto
  moreover from Suc.prems have "\<forall>i<n. spawn (length (m_threads p @ [Check]) + i)" by auto
  ultimately show ?case by (simp add: Suc.IH)
qed simp

lemma spawn_threads_refused:
  "k < n \<Longrightarrow> \<not> spawn (length (m_threads p) + k) \<Longrightarrow> \<forall>i<k. spawn (length (m_threads p) + i) \<Longrightarrow>
   spawn_threads spawn n p =
     Inl (p\<lparr>m_done := True, m_threads := m_threads p @ replicate k Check\<rparr>)"
proof (induction n arbitrary: p k)
  case (Suc n)
  show ?case
  proof (cases k)
    case 0
    with Suc.prems show ?thesis by simp
  next
    case (Suc k')
    with Suc.prems have "spawn (length (m_threads p))" by auto
    moreover have "\<forall>i<k'. spawn (length (m_threads p @ [Check]) + i)"
      using Suc Suc.prems(3) by auto
    ultimately show ?thesis
      using Suc Suc.prems(1,2) by (simp add: Suc.IH [of k'])
  qed
qed simp

section \<open>Shutting down\<close>

text \<open>The steps a worker still needs to leave its loop once the flag is set.\<close>

fun steps_left :: "'f worker \<Rightarrow> nat" where
  "steps_left Exited = 0"
| "steps_left Check = 1"
| "steps_left (Run f) = 2"
| "steps_left Pop = 3"

definition poppers :: "'f pool \<Rightarrow> nat" where
  "poppers p = length (filter (\<lambda>w. w = Pop) (m_threads p))"

lemma steps_left_0 [simp]: "steps_left w = 0 \<longleftrightarrow> w = Exited"
  by (cases w) simp_all

lemma steps_left_work:
  assumes "m_done p" and "i < length (m_threads p)"
  shows "steps_left (m_threads (work i p) ! i) \<le> steps_left (m_threads p ! i) - 1"
  using assms by (cases rule: work_cases [where i = i and p = p]) simp_all

lemma steps_left_works:
  assumes "m_done p" and "i < length (m_threads p)"
  shows "steps_left (m_threads (fold work is p) ! i)
    \<le> steps_left (m_threads p ! i) - count_list is i"
  using assms
proof (induction "is" arbitrary: p)
  case (Cons j js)
  have "steps_left (m_threads (work j p) ! i)
      \<le> steps_left (m_threads p ! i) - (if j = i then 1 else 0)"
    using steps_left_work [OF Cons.prems] by (auto simp: work_other)
  with Cons.IH [of "work j p"] Cons.prems show ?case by (auto split: if_splits)
qed simp

lemma poppers_update:
  "i < length (m_threads p) \<Longrightarrow>
   length (filter (\<lambda>w. w = Pop) ((m_threads p)[i := w])) + (if m_threads p ! i = Pop then 1 else 0)
     = poppers p + (if w = Pop then 1 else 0)"
  unfolding poppers_def
  by (subst (3) id_take_nth_drop [of i "m_threads p"]) (simp_all add: upd_conv_take_nth_drop)

lemma started_work:
  assumes "m_done p"
  shows "length (started (work i p)) + poppers (work i p) \<le> length (started p) + poppers p"
proof (cases rule: work_cases [where i = i and p = p])
  case (empty q)
  with poppers_update [of i p Check] show ?thesis by (simp add: poppers_def)
next
  case (pop task q)
  with poppers_update [of i p "Run task"] show ?thesis by (simp add: poppers_def)
next
  case check
  with assms poppers_update [of i p Exited] show ?thesis by (simp add: poppers_def)
next
  case (ran task)
  with poppers_update [of i p Check] show ?thesis by (simp add: poppers_def)
qed simp

lemma started_works:
  "m_done p \<Longrightarrow>
   length (started (fold work is p)) + poppers (fold work is p) \<le> length (started p) + poppers p"
proof (induction "is" arbitrary: p)
  case (Cons j js)
  have "length (started (work j p)) + poppers (work j p) \<le> length (started p) + poppers p"
    using Cons.prems by (rule started_work)
  with Cons.IH [of "work j p"] Cons.prems show ?case by simp
qed simp

section \<open>Draining\<close>

text \<open>The steps of its own after which worker \<open>i\<close> finds the queue empty.\<close>

fun to_pop :: "'f worker \<Rightarrow> nat" where
  "to_pop Pop = 1"
| "to_pop Check = 2"
| "to_pop (Run f) = 3"
| "to_pop Exited = 0"

definition drain_left :: "nat \<Rightarrow> 'f pool \<Rightarrow> nat" where
  "drain_left i p =
     (case m_queue (pool_queue p) of
        [] \<Rightarrow> 0
      | _ # rest \<Rightarrow> 3 * length rest + to_pop (m_threads p ! i))"

lemma drain_left_work:
  assumes "\<not> m_done p" and "i < length (m_threads p)" and "m_threads p ! i \<noteq> Exited"
  shows "drain_left i (work j p) \<le> drain_left i p - (if j = i then 1 else 0)
    \<and> m_threads (work j p) ! i \<noteq> Exited"
proof (cases "j = i")
  case True
  with assms show ?thesis
    by (cases rule: work_cases [where i = i and p = p])
      (auto simp: drain_left_def split: list.split)
next
  case False
  have "drain_left i (work j p) \<le> drain_left i p"
  proof (cases rule: work_cases [where i = j and p = p])
    case (pop task q)
    with False assms(3) show ?thesis
      by (cases "m_threads p ! i") (auto simp: drain_left_def split: list.split)
  qed (use False in \<open>auto simp: drain_left_def split: list.split\<close>)
  with False assms(3) show ?thesis by (simp add: work_other)
qed

lemma drain_left_works:
  assumes "\<not> m_done p" and "i < length (m_threads p)" and "m_threads p ! i \<noteq> Exited"
  shows "drain_left i (fold work is p) \<le> drain_left i p - count_list is i
    \<and> m_threads (fold work is p) ! i \<noteq> Exited"
  using assms
proof (induction "is" arbitrary: p)
  case (Cons j js)
  from drain_left_work [OF Cons.prems, of j]
  have step: "drain_left i (work j p) \<le> drain_left i p - (if j = i then 1 else 0)"
    and "m_threads (work j p) ! i \<noteq> Exited" by blast+
  with Cons.prems Cons.IH [of "work j p"]
  have "drain_left i (fold work js (work j p)) \<le> drain_left i (work j p) - count_list js i
      \<and> m_threads (fold work js (work j p)) ! i \<noteq> Exited" by simp
  with step show ?case by (auto split: if_splits)
qed simp

lemma drain_left_bound: "drain_left i p \<le> 3 * length (m_queue (pool_queue p))"
  by (cases "m_threads p ! i") (auto simp: drain_left_def split: list.split)

lemma drain_left_0: "m_threads p ! i \<noteq> Exited \<Longrightarrow> drain_left i p = 0 \<Longrightarrow> m_queue (pool_queue p) = []"
  by (cases "m_threads p ! i") (auto simp: drain_left_def split: list.splits)

section \<open>Properties\<close>

lemma spawn_threads_task_line: "spawn_threads spawn n p = Inr p' \<Longrightarrow> task_line p' = task_line p"
  by (induction n arbitrary: p) (auto simp: task_line_def split: if_splits)

lemma new_pool_idle: "ThreadPool spawn hardware = Inr p \<Longrightarrow> task_line p = []"
  unfolding ThreadPool_def
  by (drule spawn_threads_task_line) (simp add: task_line_def new_queue_def)

text \<open>
  The constructor starts as many workers as the hardware has threads, two at least, on an
  empty queue. When the system refuses a thread it throws, and then the flag is set and exactly
  the threads granted before are left to join.
\<close>

theorem ThreadPool_workers:
  "case ThreadPool spawn hardware of
     Inr p \<Rightarrow> \<not> m_done p \<and> task_line p = [] \<and>
       m_threads p = replicate (max 2 (unat hardware)) Check
   | Inl p \<Rightarrow> m_done p \<and> task_line p = [] \<and>
       m_threads p = replicate (LEAST i. \<not> spawn i) Check \<and>
       length (m_threads p) < max 2 (unat hardware)"
proof -
  have count: "unat (thread_count hardware) = max 2 (unat hardware)"
    by (simp add: thread_count_def word_less_nat_alt max_def)
  show ?thesis
  proof (cases "\<forall>i<max 2 (unat hardware). spawn i")
    case True
    then show ?thesis
      by (simp add: ThreadPool_def count spawn_threads_granted task_line_def new_queue_def)
  next
    case False
    define k where "k = (LEAST i. \<not> spawn i)"
    from False obtain j where j: "j < max 2 (unat hardware)" "\<not> spawn j" by blast
    have "\<not> spawn k" unfolding k_def by (rule LeastI) (rule j(2))
    moreover have "k \<le> j" unfolding k_def by (rule Least_le) (rule j(2))
    moreover have "\<forall>i<k. spawn i" unfolding k_def by (auto dest: not_less_Least)
    ultimately show ?thesis
      using j by (simp add: ThreadPool_def count spawn_threads_refused [of k] task_line_def new_queue_def
        flip: k_def)
  qed
qed


text \<open>
  As long as the pool is not being destroyed, any single worker that keeps being scheduled gets the
  queue drained, whatever the others do: three of its own steps per waiting task are enough.
\<close>

theorem pool_drains:
  assumes "\<not> m_done p" and "i < length (m_threads p)" and "m_threads p ! i \<noteq> Exited"
    and "3 * length (m_queue (pool_queue p)) \<le> count_list is i"
  shows "m_queue (pool_queue (fold work is p)) = [] \<and>
    map snd (started (fold work is p)) = map snd (started p) @ m_queue (pool_queue p)"
proof -
  from drain_left_works [OF assms(1-3), of "is"] drain_left_bound [of i p] assms(4)
  have "m_queue (pool_queue (fold work is p)) = []" by (intro drain_left_0 [of _ i]) auto
  moreover have "task_line (fold work is p) = task_line p" by simp
  ultimately show ?thesis by (simp add: task_line_def)
qed

text \<open>
  C21: destroying the pool ends. After the flag is set three steps of every worker are enough for
  the join to return; of the waiting tasks only those popped by workers already past their check
  still start, the front of the queue, and the rest is dropped with it.
\<close>

theorem pool_shuts_down:
  assumes "\<forall>i<length (m_threads p). 3 \<le> count_list is i"
  defines "p' \<equiv> fold work is (destroy p)"
  shows "joined p' \<and> task_line p' = task_line p \<and>
    length (started p') \<le> length (started p) + poppers p"
proof -
  have d: "m_done (destroy p)" "length (m_threads (destroy p)) = length (m_threads p)"
      "started (destroy p) = started p" "poppers (destroy p) = poppers p"
      "task_line (destroy p) = task_line p"
    by (simp_all add: destroy_def poppers_def task_line_def)
  have "m_threads p' ! i = Exited" if "i < length (m_threads p)" for i
  proof -
    have "steps_left w \<le> 3" for w :: "'a worker" by (cases w) simp_all
    then have "steps_left (m_threads (destroy p) ! i) - count_list is i = 0"
      using assms(1) that by (meson diff_is_0_eq order_trans)
    with steps_left_works [OF d(1), of i "is"] that d(2)
    show ?thesis by (simp add: p'_def)
  qed
  then have "joined p'" by (simp add: joined_def p'_def d(2) all_set_conv_all_nth)
  moreover from started_works [OF d(1), of "is"] have "length (started p') \<le> length (started p) + poppers p"
    by (simp add: p'_def d)
  ultimately show ?thesis by (simp add: p'_def d)
qed

text \<open>A pool of two workers with three tasks submitted, one worker past its check.\<close>

definition sample_events :: "nat event list" where
  "sample_events = [Submit 5, Submit 6, Submit 7, Work 1]"

definition sample_pool :: "nat pool" where
  "sample_pool =
     (case ThreadPool (\<lambda>_. True) 1 of Inr p \<Rightarrow> fold pool_event sample_events p | Inl p \<Rightarrow> p)"

lemma sample_new: "ThreadPool (\<lambda>_. True) 1 =
    Inr \<lparr>m_done = False, pool_queue = new_queue, m_threads = [Check, Check], started = []\<rparr>"
proof -
  have "unat (thread_count 1) = Suc (Suc 0)" by (simp add: thread_count_def)
  then show ?thesis by (simp add: ThreadPool_def)
qed

lemmas pool_simps =
  work_def set_worker_def try_pop_def push_def notify_one_def submit_def destroy_def new_queue_def

lemma sample_pool_value:
  "sample_pool = \<lparr>m_done = False, pool_queue = \<lparr>m_queue = [5, 6, 7], asleep = {}, woken = {}\<rparr>,
     m_threads = [Check, Pop], started = []\<rparr>"
  by (simp add: sample_pool_def sample_new sample_events_def pool_simps)


theorem pool_drains_witness:
  "m_queue (pool_queue (fold work [0, 0, 1, 0, 0, 0, 0, 0, 0, 0] sample_pool)) = [] \<and>
   map snd (started (fold work [0, 0, 1, 0, 0, 0, 0, 0, 0, 0] sample_pool)) = [5, 6, 7]"
  using pool_drains [of sample_pool 0 "[0, 0, 1, 0, 0, 0, 0, 0, 0, 0]"]
  by (simp add: sample_pool_value)

theorem pool_shuts_down_witness:
  "joined (fold work [0, 1, 1, 1, 0, 0] (destroy sample_pool)) \<and>
   length (started (fold work [0, 1, 1, 1, 0, 0] (destroy sample_pool))) \<le> 1"
proof -
  have "\<forall>i<length (m_threads sample_pool). 3 \<le> count_list [0, 1, 1, 1, 0, 0] i"
    by (auto simp: sample_pool_value less_Suc_eq)
  from pool_shuts_down [OF this] show ?thesis by (simp add: sample_pool_value poppers_def)
qed

end
