(* ===== verification/Bounded_System.thy ===== *)
theory Bounded_System
  imports Main
begin

text \<open>
  A system whose states have a view that every step keeps, at the expense of an effort: each
  step uses up one unit, or earns credit. Runs are powers of the step relation, and their length is bounded.
\<close>

locale bounded_system =
  fixes step :: "'s \<Rightarrow> 's \<Rightarrow> bool" and sees :: "'s \<Rightarrow> 'v \<Rightarrow> bool"
    and effort :: "'s \<Rightarrow> 'v \<Rightarrow> nat" and credit :: "'s \<Rightarrow> nat"
  assumes step_effort: "step s t \<Longrightarrow> sees s v \<Longrightarrow>
    \<exists>v'. sees t v' \<and> effort t v' + 1 + credit s \<le> effort s v + credit t"
begin

lemma run_effort:
  "(step ^^ n) s t \<Longrightarrow> sees s v \<Longrightarrow>
   \<exists>v'. sees t v' \<and> n + effort t v' + credit s \<le> effort s v + credit t"
proof (induction n arbitrary: t)
  case 0
  then show ?case by auto
next
  case (Suc n)
  from Suc.prems(1) obtain u where u: "(step ^^ n) s u" "step u t" by auto
  from Suc.IH [OF u(1) Suc.prems(2)] obtain v1 where
    v1: "sees u v1" "n + effort u v1 + credit s \<le> effort s v + credit u" by blast
  from step_effort [OF u(2) v1(1)] obtain v2 where
    "sees t v2" "effort t v2 + 1 + credit u \<le> effort u v1 + credit t" by blast
  with v1(2) show ?case by (intro exI [of _ v2]) simp
qed

text \<open>Without credit every run ends: no run is longer than the first effort.\<close>

lemma run_bound:
  "(step ^^ n) s t \<Longrightarrow> sees s v \<Longrightarrow> n + credit s \<le> effort s v + credit t"
  using run_effort [of n s t v] by auto

text \<open>A system that earns no credit can always be run to its end.\<close>

lemma run_ends:
  assumes "sees s v" and "\<And>t. credit t = 0"
  shows "\<exists>n t. (step ^^ n) s t \<and> (\<nexists>u. step t u)"
proof -
  let ?P = "\<lambda>n. \<exists>t. (step ^^ n) s t"
  have "?P 0" by auto
  moreover have "\<forall>n. ?P n \<longrightarrow> n \<le> effort s v" using run_bound [OF _ assms(1)] assms(2) by fastforce
  ultimately obtain n where n: "?P n" "\<forall>m. ?P m \<longrightarrow> m \<le> n"
    using ex_has_greatest_nat [of ?P 0 "\<lambda>n. n" "Suc (effort s v)"] by (auto simp: less_Suc_eq_le)
  then obtain t where t: "(step ^^ n) s t" by blast
  have "\<nexists>u. step t u"
  proof
    assume "\<exists>u. step t u"
    then have "?P (Suc n)" using t by auto
    with n(2) show False by fastforce
  qed
  with t show ?thesis by blast
qed

end

end
