(* ===== verification/Zmq_Wire.thy ===== *)
theory Zmq_Wire
  imports Prelude "HOL-Library.Monad_Syntax"
begin

text \<open>
  The frame-by-frame use of ZeroMQ sockets that all the message programs share: \<^verbatim>\<open>canna_recv\<close>,
  \<^verbatim>\<open>canna_send\<close> and \<^verbatim>\<open>canna_sendmore\<close> of \<^verbatim>\<open>core/canna_core.cpp\<close> (and the copies of them in
  \<^verbatim>\<open>nameserver/name_server.cpp\<close> and \<^verbatim>\<open>routers/router_server.cpp\<close>). ZeroMQ itself is outside the
  repository: an inbox holds the frames that have arrived at a socket, each with the flag that more frames
  of the message follow, an outbox the frames sent, in order. A receive on an empty inbox blocks
  and has no result.
\<close>

type_synonym frame = string

record 'p wire =
  inbox :: "'p \<Rightarrow> (frame \<times> bool) list"
  outbox :: "('p \<times> frame \<times> bool) list"

definition canna_recv :: "'p \<Rightarrow> 'p wire \<Rightarrow> (frame \<times> 'p wire) option" where
  "canna_recv p w =
     (case inbox w p of
        [] \<Rightarrow> None
      | (data, mr) # rest \<Rightarrow> Some (data, w\<lparr>inbox := (inbox w)(p := rest)\<rparr>))"

definition canna_send :: "'p \<Rightarrow> frame \<Rightarrow> 'p wire \<Rightarrow> 'p wire" where
  "canna_send p data w = w\<lparr>outbox := outbox w @ [(p, data, False)]\<rparr>"

definition canna_sendmore :: "'p \<Rightarrow> frame \<Rightarrow> 'p wire \<Rightarrow> 'p wire" where
  "canna_sendmore p data w = w\<lparr>outbox := outbox w @ [(p, data, True)]\<rparr>"

text \<open>What \<^verbatim>\<open>zmq::poll\<close> reports for a socket it watches.\<close>

definition readable :: "'p \<Rightarrow> 'p wire \<Rightarrow> bool" where
  "readable p w \<longleftrightarrow> inbox w p \<noteq> []"

section \<open>Whole messages\<close>

text \<open>The frames of a message with their flags.\<close>

fun parts :: "frame list \<Rightarrow> (frame \<times> bool) list" where
  "parts [] = []"
| "parts [f] = [(f, False)]"
| "parts (f # g # fs) = (f, True) # parts (g # fs)"

definition post :: "'p \<Rightarrow> frame list \<Rightarrow> ('p \<times> frame \<times> bool) list" where
  "post p fs = map (Pair p) (parts fs)"

text \<open>A message arriving at a socket.\<close>

definition arrive :: "'p \<Rightarrow> frame list \<Rightarrow> 'p wire \<Rightarrow> 'p wire" where
  "arrive p fs w = w\<lparr>inbox := (inbox w)(p := inbox w p @ parts fs)\<rparr>"

lemma length_parts [simp]: "length (parts fs) = length fs"
  by (induction fs rule: parts.induct) simp_all

lemma parts_Nil_iff [simp]: "parts fs = [] \<longleftrightarrow> fs = []"
  by (cases fs rule: parts.cases) simp_all

lemma parts_Cons [simp]: "fs \<noteq> [] \<Longrightarrow> parts (f # fs) = (f, True) # parts fs"
  by (cases fs) simp_all

lemma send_simps [simp]:
  "inbox (canna_send p f w) = inbox w" "inbox (canna_sendmore p f w) = inbox w"
  "outbox (canna_send p f w) = outbox w @ [(p, f, False)]"
  "outbox (canna_sendmore p f w) = outbox w @ [(p, f, True)]"
  by (simp_all add: canna_send_def canna_sendmore_def)

lemma arrive_simps [simp]:
  "inbox (arrive p fs w) = (inbox w)(p := inbox w p @ parts fs)" "outbox (arrive p fs w) = outbox w"
  by (simp_all add: arrive_def)

text \<open>The flags delimit messages: what follows a message does not change how it is read.\<close>

lemma post_Cons [simp]: "fs \<noteq> [] \<Longrightarrow> post p (f # fs) = (p, f, True) # post p fs"
  by (simp add: post_def)

lemma post_single [simp]: "post p [f] = [(p, f, False)]"
  by (simp add: post_def)

lemma post_inject:
  "xs \<noteq> [] \<Longrightarrow> ys \<noteq> [] \<Longrightarrow> post p xs @ r = post q ys @ r' \<Longrightarrow> p = q \<and> xs = ys \<and> r = r'"
proof (induction xs arbitrary: ys)
  case (Cons x xs)
  from Cons.prems(2) obtain y ys' where ys: "ys = y # ys'" by (cases ys) auto
  show ?case
  proof (cases "xs = [] \<or> ys' = []")
    case True
    then show ?thesis using Cons.prems(3) unfolding ys
      by (cases "xs = []"; cases "ys' = []") simp_all
  next
    case False
    then have "xs \<noteq> []" "ys' \<noteq> []" by simp_all
    with Cons.prems(3) have "p = q" "x = y" "post p xs @ r = post q ys' @ r'"
      unfolding ys by auto
    with Cons.IH [OF \<open>xs \<noteq> []\<close> \<open>ys' \<noteq> []\<close>] show ?thesis by (simp add: ys)
  qed
qed simp

section \<open>Delivery\<close>

text \<open>The messages in a list of frames, and those a ROUTER socket has sent to one identity.\<close>

fun whole :: "(frame \<times> bool) list \<Rightarrow> frame list list" where
  "whole [] = []"
| "whole ((f, mr) # fs) =
     (if mr then (case whole fs of [] \<Rightarrow> [[f]] | m # ms \<Rightarrow> (f # m) # ms) else [f] # whole fs)"

definition delivered :: "'p \<Rightarrow> frame \<Rightarrow> 'p wire \<Rightarrow> frame list list" where
  "delivered p i w = map tl (filter (\<lambda>m. hd m = i) (whole (map snd (filter (\<lambda>x. fst x = p) (outbox w)))))"

text \<open>The REQ socket at the other end takes the delimiter off.\<close>

definition req_takes :: "frame list \<Rightarrow> frame list option" where
  "req_takes m = (case m of [] # body \<Rightarrow> Some body | _ \<Rightarrow> None)"

lemma whole_parts: "fs \<noteq> [] \<Longrightarrow> whole (parts fs @ r) = fs # whole r"
  by (induction fs rule: parts.induct) simp_all

lemma whole_concat: "(\<forall>m \<in> set ms. m \<noteq> []) \<Longrightarrow> whole (concat (map parts ms)) = ms"
  by (induction ms) (simp_all add: whole_parts)

section \<open>Setting up sockets by address\<close>

text \<open>What a program asks of ZeroMQ before its loop, \<open>'s\<close> being its sockets.\<close>

datatype 's operation =
    Bind_at 's string | Connect_to 's string | Identify 's string | Subscribe_to 's string

end
