(* ===== verification/Canna_Core.thy ===== *)
theory Canna_Core
  imports Zmq_Wire "HOL-Library.Signed_Division"
begin

text \<open>
  The helpers of \<^verbatim>\<open>core/canna_core.h\<close> and \<^verbatim>\<open>core/canna_core.cpp\<close>: the time functions, the random
  macro with its single-precision arithmetic, the random socket identity and the message dump. The
  copies of the last two in \<^verbatim>\<open>nameserver/name_server.cpp\<close> are the same code. The clock
  and \<^verbatim>\<open>random()\<close> are inputs.
\<close>

section \<open>Time\<close>

text \<open>\<^verbatim>\<open>canna_gettime\<close> on the seconds and microseconds read from the clock.\<close>

definition canna_gettime :: "u64 \<Rightarrow> u64 \<Rightarrow> u64" where
  "canna_gettime tv_sec tv_usec =
     (let t = tv_sec * 1000;
          t = t + word_of_int (sint tv_usec sdiv 1000)
      in t)"

text \<open>The seconds and nanoseconds \<^verbatim>\<open>canna_sleep\<close> hands to \<^verbatim>\<open>nanosleep\<close>.\<close>

definition canna_sleep :: "int \<Rightarrow> int \<times> int" where
  "canna_sleep msecs = (msecs sdiv 1000, (msecs smod 1000) * 1000000)"

section \<open>Random numbers\<close>

text \<open>
  Single precision: a natural number rounded to 24 significant bits, to the nearest and on a tie
  to the even one, which is what the conversion of an integer to \<^verbatim>\<open>float\<close> and a product of floats do.
\<close>

fun bit_length :: "nat \<Rightarrow> nat" where
  "bit_length n = (if n = 0 then 0 else Suc (bit_length (n div 2)))"

declare bit_length.simps [simp del]

definition round_div :: "nat \<Rightarrow> nat \<Rightarrow> nat" where
  "round_div n m =
     (if m < 2 * (n mod m) \<or> m = 2 * (n mod m) \<and> odd (n div m) then n div m + 1 else n div m)"

definition single :: "nat \<Rightarrow> nat" where
  "single n = (let m = 2 ^ (bit_length n - 24) in round_div n m * m)"

text \<open>
  \<^verbatim>\<open>CANNA_RAND\<close> on a number drawn by \<^verbatim>\<open>random()\<close>, below \<open>2 ^ 31\<close>: the factor and the number become
  floats, their product is one, and the division by \<open>2 ^ 31\<close> is exact.
\<close>

definition CANNA_RAND :: "nat \<Rightarrow> nat \<Rightarrow> nat" where
  "CANNA_RAND seed r = single (single seed * single r) div 2 ^ 31"

section \<open>Printing\<close>

definition digit :: "bool \<Rightarrow> nat \<Rightarrow> char" where
  "digit upper d = char_of (if d < 10 then 48 + d else (if upper then 55 else 87) + d)"

fun radix :: "bool \<Rightarrow> nat \<Rightarrow> nat \<Rightarrow> string" where
  "radix upper b n =
     (if n < b \<or> b < 2 then [digit upper n] else radix upper b (n div b) @ [digit upper (n mod b)])"

declare radix.simps [simp del]

text \<open>\<^verbatim>\<open>setfill('0')\<close> and \<^verbatim>\<open>setw(k)\<close>.\<close>

definition zero_pad :: "nat \<Rightarrow> string \<Rightarrow> string" where
  "zero_pad k s = replicate (k - length s) CHR ''0'' @ s"

text \<open>The identity of \<^verbatim>\<open>canna_setid\<close> from two numbers drawn.\<close>

definition canna_setid :: "nat \<Rightarrow> nat \<Rightarrow> string" where
  "canna_setid r1 r2 =
     zero_pad 4 (radix True 16 (CANNA_RAND 65536 r1)) @ ''-'' @
     zero_pad 4 (radix True 16 (CANNA_RAND 65536 r2))"

section \<open>The dump\<close>

text \<open>
  \<open>is_text\<close> is the flag of the first loop, \<open>hex_bytes\<close> the second loop on a frame that is not text. A
  \<^verbatim>\<open>char\<close> is signed, so a byte from 128 on is printed with its sign extended to 32 bits.
\<close>

definition is_text :: "frame \<Rightarrow> bool" where
  "is_text data \<longleftrightarrow> (\<forall>c\<in>set data. \<not> (of_char c < (32 :: nat) \<or> of_char c > (127 :: nat)))"

definition sign_extended :: "char \<Rightarrow> nat" where
  "sign_extended c = (if of_char c < (128 :: nat) then of_char c else 4294967040 + of_char c)"

definition hex_bytes :: "frame \<Rightarrow> string" where
  "hex_bytes data = concat (map (\<lambda>c. zero_pad 2 (radix False 16 (sign_extended c))) data)"

text \<open>
  The base of \<^verbatim>\<open>std::cout\<close> is state that outlives the call: the first frame that is not text
  switches it to hexadecimal and nothing switches it back. \<open>dump_frame\<close> prints one line.
\<close>

definition dump_frame :: "bool \<Rightarrow> frame \<Rightarrow> string \<times> bool" where
  "dump_frame hex data =
     (let size = ''['' @ zero_pad 3 (radix False (if hex then 16 else 10) (length data)) @ '']''
      in if is_text data then (size @ data, hex) else (size @ hex_bytes data, True))"

text \<open>The loop of \<^verbatim>\<open>canna_dump\<close>: the lines printed, the base and the frames left in the inbox.\<close>

fun dump_loop :: "bool \<Rightarrow> (frame \<times> bool) list \<Rightarrow> (string list \<times> bool \<times> (frame \<times> bool) list) option" where
  "dump_loop hex [] = None"
| "dump_loop hex ((data, mr) # rest) =
     (let (line, hex) = dump_frame hex data
      in if \<not> mr then Some ([line], hex, rest)
         else case dump_loop hex rest of
           None \<Rightarrow> None
         | Some (lines, hex, rest) \<Rightarrow> Some (line # lines, hex, rest))"

definition canna_dump :: "'p \<Rightarrow> bool \<Rightarrow> 'p wire \<Rightarrow> (string list \<times> bool \<times> 'p wire) option" where
  "canna_dump p hex w =
     (case dump_loop hex (inbox w p) of
        None \<Rightarrow> None
      | Some (lines, hex, rest) \<Rightarrow>
          Some (replicate 50 CHR ''-'' # lines, hex, w\<lparr>inbox := (inbox w)(p := rest)\<rparr>))"

section \<open>Rounding\<close>

lemma bit_length_bounds: "0 < n \<Longrightarrow> 2 ^ (bit_length n - 1) \<le> n \<and> n < 2 ^ bit_length n \<and> 0 < bit_length n"
proof (induction n rule: bit_length.induct)
  case (1 n)
  show ?case
  proof (cases "n < 2")
    case True
    with 1 have "n = 1" by simp
    then show ?thesis by (simp add: bit_length.simps [of "Suc 0"] bit_length.simps [of 0])
  next
    case False
    with 1 have ih: "2 ^ (bit_length (n div 2) - 1) \<le> n div 2" "n div 2 < 2 ^ bit_length (n div 2)"
        "0 < bit_length (n div 2)" by auto
    have l: "bit_length n = Suc (bit_length (n div 2))"
      using 1 by (subst bit_length.simps) simp
    obtain k where k: "bit_length (n div 2) = Suc k" using ih(3) by (cases "bit_length (n div 2)") auto
    from ih(1,2) k have "2 ^ k \<le> n div 2" "n div 2 < 2 * 2 ^ k" by simp_all
    then show ?thesis by (simp add: l k) linarith
  qed
qed

lemma bit_length_le: "n < 2 ^ k \<Longrightarrow> bit_length n \<le> k"
proof (cases "n = 0")
  case False
  assume "n < 2 ^ k"
  with bit_length_bounds [of n] False have "2 ^ (bit_length n - 1) < (2 :: nat) ^ k" by linarith
  then have "bit_length n - 1 < k" by simp
  then show ?thesis by linarith
qed (simp add: bit_length.simps [of 0])

text \<open>Rounding to a multiple of \<open>m\<close> does not cross a multiple of \<open>m\<close>.\<close>

lemma round_div_le: "m dvd y \<Longrightarrow> 0 < m \<Longrightarrow> x \<le> y \<Longrightarrow> round_div x m * m \<le> y"
proof (elim dvdE)
  fix k
  assume a: "0 < m" "x \<le> y" and y: "y = m * k"
  show "round_div x m * m \<le> y"
  proof (cases "x mod m = 0")
    case True
    then show ?thesis using a by (auto simp: round_div_def)
  next
    case False
    have "x div m < k"
    proof (rule ccontr)
      assume "\<not> x div m < k"
      then have "m * k \<le> m * (x div m)" by simp
      moreover have "m * (x div m) + x mod m = x" by simp
      ultimately show False using a y False by linarith
    qed
    then have "round_div x m \<le> k" by (simp add: round_div_def)
    then show ?thesis by (simp add: y)
  qed
qed

lemma round_div_1 [simp]: "round_div n (Suc 0) = n"
  by (simp add: round_div_def)

lemma single_exact: "n < 2 ^ 24 \<Longrightarrow> single n = n"
  using bit_length_le [of n 24] by (simp add: single_def)

lemma single_le:
  assumes "x \<le> c * 2 ^ k" and "c < 2 ^ 24"
  shows "single x \<le> c * 2 ^ k"
proof -
  let ?e = "bit_length x - 24"
  have "c * 2 ^ k < 2 ^ (24 + k)" using assms(2) by (simp add: power_add)
  with assms(1) have "bit_length x \<le> 24 + k" by (intro bit_length_le) linarith
  then have "(2 :: nat) ^ ?e dvd c * 2 ^ k" by (intro dvd_mult le_imp_power_dvd) linarith
  from round_div_le [OF this _ assms(1)] show ?thesis by (simp add: single_def Let_def)
qed

lemma CANNA_RAND_le:
  assumes "seed < 2 ^ 24" and "r < 2 ^ 31"
  shows "CANNA_RAND seed r \<le> seed"
proof -
  have "single r \<le> 1 * 2 ^ 31" using assms(2) by (intro single_le) simp_all
  then have "single (seed * single r) \<le> seed * 2 ^ 31" using assms(1) by (intro single_le) simp_all
  then have "single (seed * single r) div 2 ^ 31 \<le> seed * 2 ^ 31 div 2 ^ 31" by (rule div_le_mono)
  moreover have "single seed = seed" using assms(1) by (rule single_exact)
  ultimately show ?thesis by (simp add: CANNA_RAND_def)
qed

lemma single_multiple: "2 ^ (bit_length n - 24) dvd n \<Longrightarrow> single n = n"
  by (auto simp: single_def Let_def round_div_def)

lemma bit_length_unique: "2 ^ k \<le> n \<Longrightarrow> n < 2 ^ Suc k \<Longrightarrow> bit_length n = Suc k"
proof -
  assume a: "2 ^ k \<le> n" "n < 2 ^ Suc k"
  have "bit_length n \<le> Suc k" using a(2) by (rule bit_length_le)
  moreover have "\<not> bit_length n \<le> k"
  proof
    assume "bit_length n \<le> k"
    then have "(2 :: nat) ^ bit_length n \<le> 2 ^ k" by simp
    moreover have "0 < n" using a(1) by (intro order_less_le_trans [OF _ a(1)]) simp
    ultimately show False using a(1) bit_length_bounds [of n] by linarith
  qed
  ultimately show ?thesis by simp
qed

lemma bit_length_push: "0 < n \<Longrightarrow> bit_length (2 ^ k * n) = k + bit_length n"
proof -
  assume "0 < n"
  note b = bit_length_bounds [OF this]
  then obtain l where l: "bit_length n = Suc l" by (cases "bit_length n") auto
  have "bit_length (2 ^ k * n) = Suc (k + l)"
    using b by (intro bit_length_unique) (simp_all add: l power_add)
  then show ?thesis by (simp add: l)
qed

lemma single_single: "2 ^ (bit_length (single n) - 24) dvd single n"
proof (cases "n = 0")
  case True
  then show ?thesis by (simp add: single_exact)
next
  case False
  let ?e = "bit_length n - 24"
  define q where "q = round_div n (2 ^ ?e)"
  have s: "single n = 2 ^ ?e * q" by (simp add: single_def Let_def q_def)
  have "n < 2 ^ (24 + ?e)"
    using bit_length_bounds [of n] False order_less_le_trans [of n "2 ^ bit_length n" "2 ^ (24 + ?e)"] by simp
  then have "n div 2 ^ ?e < 2 ^ 24" by (simp add: power_add less_mult_imp_div_less)
  then have q: "q \<le> 2 ^ 24" by (simp add: q_def round_div_def)
  show ?thesis
  proof (cases "q = 2 ^ 24")
    case True
    then have v: "single n = 2 ^ (?e + 24)" by (simp add: s power_add)
    then have "bit_length (single n) = Suc (?e + 24)" by (intro bit_length_unique) simp_all
    then have "bit_length (single n) - 24 \<le> ?e + 24" by simp
    then show ?thesis by (simp only: v le_imp_power_dvd)
  next
    case False
    with q have "q < 2 ^ 24" by linarith
    then have "single n < 2 ^ (24 + ?e)" by (simp add: s power_add mult.commute)
    then have "bit_length (single n) \<le> 24 + ?e" by (rule bit_length_le)
    then have "(2 :: nat) ^ (bit_length (single n) - 24) dvd 2 ^ ?e" by (intro le_imp_power_dvd) simp
    then show ?thesis unfolding s by (rule dvd_mult2)
  qed
qed

lemma single_push: "single (2 ^ k * single n) = 2 ^ k * single n"
proof (cases "single n = 0")
  case False
  let ?b = "bit_length (single n)"
  have "(2 :: nat) ^ (k + ?b - 24) dvd 2 ^ k * single n"
  proof (cases "?b \<le> 24")
    case True
    then show ?thesis by (intro dvd_mult2 le_imp_power_dvd) simp
  next
    case False
    then have "k + ?b - 24 = k + (?b - 24)" by simp
    then show ?thesis using single_single [of n] by (simp only: power_add) (rule mult_dvd_mono, simp_all)
  qed
  then show ?thesis using False by (intro single_multiple) (simp add: bit_length_push)
qed (simp add: single_exact)

lemma CANNA_RAND_65536: "CANNA_RAND 65536 r = single r div 2 ^ 15"
proof -
  have "single (65536 * single r) = 2 ^ 16 * single r" using single_push [of 16 r] by simp
  moreover have "single 65536 = 65536" by (intro single_exact) simp
  ultimately have "CANNA_RAND 65536 r = 2 ^ 16 * single r div 2 ^ 31" by (simp only: CANNA_RAND_def)
  then show ?thesis by simp
qed

text \<open>The last 64 numbers below \<open>2 ^ 31\<close> are rounded up to \<open>2 ^ 31\<close>.\<close>

lemma single_top:
  assumes "r < 2 ^ 31"
  shows "single r = 2 ^ 31 \<longleftrightarrow> 2 ^ 31 - 64 \<le> r"
    and "single r \<noteq> 2 ^ 31 \<Longrightarrow> single r \<le> 2 ^ 31 - 128"
proof -
  have cases: "single r \<le> 2 ^ 31 - 128" if "r \<le> 2 ^ 31 - 128"
    using single_le [of r "2 ^ 24 - 1" 7] that by simp
  have "single r = (if 2 ^ 31 - 64 \<le> r then 2 ^ 31 else 2 ^ 31 - 128)" if r: "2 ^ 31 - 128 \<le> r"
  proof -
    have "bit_length r = 31" using bit_length_unique [of 30 r] r assms by simp
    moreover have "r div 128 = 16777215" using r assms by simp
    moreover have "r mod 128 = r - 2147483520"
    proof -
      obtain d where d: "r = 16777215 * 128 + d" using r by (auto dest: le_Suc_ex)
      with assms have "d < 128" by simp
      then show ?thesis unfolding d by (simp only: mod_mult_self3 mod_less)
    qed
    ultimately show ?thesis using r assms by (auto simp: single_def round_div_def)
  qed
  with cases assms show "single r = 2 ^ 31 \<longleftrightarrow> 2 ^ 31 - 64 \<le> r"
    and "single r \<noteq> 2 ^ 31 \<Longrightarrow> single r \<le> 2 ^ 31 - 128"
    by (cases "r \<le> 2 ^ 31 - 128"; force split: if_splits)+
qed

section \<open>Digits\<close>

definition digit_value :: "char \<Rightarrow> nat" where
  "digit_value c =
     (let d = of_char c in if d < 58 then d - 48 else if d < 71 then d - 55 else d - 87)"

definition digits_value :: "nat \<Rightarrow> string \<Rightarrow> nat" where
  "digits_value b s = foldl (\<lambda>v c. v * b + digit_value c) 0 s"

lemma of_char_digit: "d < 16 \<Longrightarrow> of_char (digit u d) = (if d < 10 then 48 + d else (if u then 55 else 87) + d)"
  by (simp add: digit_def of_char_of take_bit_eq_mod)

lemma digit_value_digit [simp]: "d < 16 \<Longrightarrow> digit_value (digit u d) = d"
  by (auto simp: digit_value_def of_char_digit Let_def)

lemma digit_not_dash: "d < 16 \<Longrightarrow> digit u d \<noteq> CHR ''-''"
proof
  assume "d < 16" and "digit u d = CHR ''-''"
  then have "of_char (digit u d) = (of_char (CHR ''-'') :: nat)" by simp
  with \<open>d < 16\<close> show False by (simp add: of_char_digit split: if_splits)
qed

lemma digits_value_snoc [simp]: "digits_value b (s @ [c]) = digits_value b s * b + digit_value c"
  by (simp add: digits_value_def)

lemma digits_value_radix: "2 \<le> b \<Longrightarrow> b \<le> 16 \<Longrightarrow> digits_value b (radix u b n) = n"
proof (induction u b n rule: radix.induct)
  case (1 u b n)
  show ?case
  proof (cases "n < b")
    case True
    with 1 show ?thesis by (simp add: radix.simps [of u b n]) (simp add: digits_value_def)
  next
    case False
    moreover have "n mod b < 16" using 1 mod_less_divisor [of b n] by linarith
    ultimately show ?thesis using 1 by (simp add: radix.simps [of u b n])
  qed
qed

lemma digits_value_pad [simp]: "digits_value b (zero_pad k s) = digits_value b s"
proof -
  have "foldl (\<lambda>v c. v * b + digit_value c) 0 (replicate n CHR ''0'') = 0" for n
    by (induction n) (simp_all add: digit_value_def)
  then show ?thesis by (simp add: digits_value_def zero_pad_def)
qed

lemma length_radix_le: "2 \<le> b \<Longrightarrow> n < b ^ Suc k \<Longrightarrow> length (radix u b n) \<le> Suc k"
proof (induction k arbitrary: n)
  case 0
  then show ?case by (simp add: radix.simps [of u b n])
next
  case (Suc k)
  then have "n div b < b ^ Suc k" by (simp add: less_mult_imp_div_less mult.commute)
  with Suc show ?case by (simp add: radix.simps [of u b n])
qed

lemma radix_digits: "2 \<le> b \<Longrightarrow> b \<le> 16 \<Longrightarrow> c \<in> set (radix u b n) \<Longrightarrow> \<exists>d<16. c = digit u d"
proof (induction u b n rule: radix.induct)
  case (1 u b n)
  have m: "n mod b < 16" using 1 mod_less_divisor [of b n] by linarith
  show ?case
  proof (cases "n < b")
    case True
    with 1 have "c = digit u n" "n < 16" by (simp_all add: radix.simps [of u b n])
    then show ?thesis by blast
  next
    case False
    with "1.prems" have "c \<in> set (radix u b (n div b)) \<or> c = digit u (n mod b)"
      by (auto simp: radix.simps [of u b n])
    moreover have "\<exists>d<16. c = digit u d" if "c \<in> set (radix u b (n div b))"
      using 1 False that by simp
    ultimately show ?thesis using m by blast
  qed
qed

lemma length_zero_pad [simp]: "length (zero_pad k s) = max k (length s)"
  by (simp add: zero_pad_def)

section \<open>Socket identities\<close>

abbreviation (input) id_half :: "nat \<Rightarrow> string" where
  "id_half r \<equiv> zero_pad 4 (radix True 16 (CANNA_RAND 65536 r))"

lemma CANNA_RAND_half:
  assumes "r < 2 ^ 31"
  shows "if 2 ^ 31 - 64 \<le> r then CANNA_RAND 65536 r = 65536 else CANNA_RAND 65536 r < 65536"
proof (cases "2 ^ 31 - 64 \<le> r")
  case True
  then have "single r = 2 ^ 31" using single_top(1) [OF assms] by blast
  then show ?thesis using True by (simp add: CANNA_RAND_65536)
next
  case False
  then have "single r \<le> 2 ^ 31 - 128" using single_top [OF assms] by blast
  then have "single r div 2 ^ 15 \<le> (2 ^ 31 - 128) div 2 ^ 15" by (rule div_le_mono)
  then show ?thesis using False by (simp add: CANNA_RAND_65536)
qed

lemma length_id_half:
  assumes "r < 2 ^ 31"
  shows "length (id_half r) = (if 2 ^ 31 - 64 \<le> r then 5 else 4)"
proof (cases "2 ^ 31 - 64 \<le> r")
  case True
  then have "CANNA_RAND 65536 r = 65536" using CANNA_RAND_half [OF assms] by simp
  then show ?thesis using True by (simp add: radix.simps)
next
  case False
  then have "CANNA_RAND 65536 r < 16 ^ Suc 3" using CANNA_RAND_half [OF assms] by simp
  then have "length (radix True 16 (CANNA_RAND 65536 r)) \<le> Suc 3" by (intro length_radix_le) simp
  then show ?thesis using False by simp
qed

lemma id_half_value: "digits_value 16 (id_half r) = CANNA_RAND 65536 r"
  by (simp add: digits_value_radix)

lemma id_half_no_dash: "CHR ''-'' \<notin> set (id_half r)"
  using radix_digits [of 16 "CHR ''-''" True "CANNA_RAND 65536 r"] digit_not_dash
  by (auto simp: zero_pad_def) metis

lemma canna_setid_split:
  "takeWhile (\<lambda>c. c \<noteq> CHR ''-'') (canna_setid r1 r2) = id_half r1"
  "tl (dropWhile (\<lambda>c. c \<noteq> CHR ''-'') (canna_setid r1 r2)) = id_half r2"
proof -
  have "\<forall>c\<in>set (id_half r1). c \<noteq> CHR ''-''" using id_half_no_dash [of r1] by metis
  then show "takeWhile (\<lambda>c. c \<noteq> CHR ''-'') (canna_setid r1 r2) = id_half r1"
    "tl (dropWhile (\<lambda>c. c \<noteq> CHR ''-'') (canna_setid r1 r2)) = id_half r2"
    by (simp_all add: canna_setid_def takeWhile_append2 dropWhile_append2)
qed

section \<open>Dumps\<close>

text \<open>Reading the hexadecimal form back: a digit from 8 on starts the eight digits of a negative \<^verbatim>\<open>char\<close>.\<close>

fun unhex :: "string \<Rightarrow> frame" where
  "unhex (a # b # s) =
     (if digit_value a < 8 then char_of (16 * digit_value a + digit_value b) # unhex s
      else case drop 4 s of
        c # d # s' \<Rightarrow> char_of (16 * digit_value c + digit_value d) # unhex (drop 6 s)
      | _ \<Rightarrow> [])"
| "unhex _ = []"

lemma digit_ends: "digit u 0 = CHR ''0''" "digit False 15 = CHR ''f''"
  by (simp_all add: digit_def char_of_eq_iff)

lemma radix_big: "16 \<le> n \<Longrightarrow> radix u 16 n = radix u 16 (n div 16) @ [digit u (n mod 16)]"
  by (simp add: radix.simps [of u 16 n])

lemma radix_small: "n < 16 \<Longrightarrow> radix u 16 n = [digit u n]"
  by (simp add: radix.simps [of u 16 n])

lemma two_digits:
  "n < 256 \<Longrightarrow> zero_pad 2 (radix u 16 n) = [digit u (n div 16), digit u (n mod 16)]"
proof (cases "n < 16")
  case True
  then show ?thesis by (simp add: radix_small zero_pad_def digit_ends)
next
  case False
  assume "n < 256"
  then have "n div 16 < 16" by simp
  with False show ?thesis by (simp add: radix_big radix_small zero_pad_def)
qed

lemma eight_digits:
  assumes "n < 256"
  shows "zero_pad 2 (radix False 16 (4294967040 + n)) = ''ffffff'' @ [digit False (n div 16), digit False (n mod 16)]"
proof -
  have top: "radix False 16 16777215 = ''ffffff''"
    by (simp add: radix_big radix_small digit_ends)
  have step: "radix False 16 (16 * k + m) = radix False 16 k @ [digit False m]"
    if "1 \<le> k" and "m < 16" for k m
    using that by (simp add: radix_big)
  have "4294967040 + n = 16 * (16 * 16777215 + n div 16) + n mod 16" by simp
  then have "radix False 16 (4294967040 + n)
      = radix False 16 (16 * 16777215 + n div 16) @ [digit False (n mod 16)]"
    by (simp only:) (rule step; simp)
  also have "radix False 16 (16 * 16777215 + n div 16) = ''ffffff'' @ [digit False (n div 16)]"
    unfolding top [symmetric] using assms by (intro step) simp_all
  finally have "radix False 16 (4294967040 + n) = ''ffffff'' @ [digit False (n div 16), digit False (n mod 16)]"
    by simp
  then show ?thesis by (simp add: zero_pad_def)
qed

lemma unhex_char: "unhex (zero_pad 2 (radix False 16 (sign_extended c)) @ s) = c # unhex s"
proof -
  define n :: nat where "n = of_char c"
  have n: "n < 256" by (simp add: n_def)
  have c: "char_of (16 * (n div 16) + n mod 16) = c" by (simp add: n_def)
  have d: "n div 16 < 16" "n mod 16 < 16" using n by simp_all
  show ?thesis
  proof (cases "n < 128")
    case True
    then have "n div 16 < 8" by simp
    with True d c show ?thesis by (simp add: sign_extended_def two_digits [OF n] flip: n_def)
  next
    case False
    have "digit_value (CHR ''f'') = 15" by (simp add: digit_value_def)
    with False d c show ?thesis by (simp add: sign_extended_def eight_digits [OF n] flip: n_def)
  qed
qed

lemma unhex_hex_bytes: "unhex (hex_bytes data) = data"
  by (induction data) (simp_all add: hex_bytes_def unhex_char)

text \<open>What one line shows of a frame.\<close>

definition line_shows :: "bool \<Rightarrow> frame \<Rightarrow> string \<Rightarrow> bool" where
  "line_shows hex data line \<longleftrightarrow>
     (\<exists>size body. line = ''['' @ size @ '']'' @ body \<and>
        digits_value (if hex then 16 else 10) size = length data \<and>
        data = (if is_text data then body else unhex body))"

lemma dump_frame_shows:
  "line_shows hex data (fst (dump_frame hex data)) \<and> snd (dump_frame hex data) = (hex \<or> \<not> is_text data)"
proof -
  let ?size = "zero_pad 3 (radix False (if hex then 16 else 10) (length data))"
  let ?body = "if is_text data then data else hex_bytes data"
  have "fst (dump_frame hex data) = ''['' @ ?size @ '']'' @ ?body"
    by (simp add: dump_frame_def Let_def)
  moreover have "digits_value (if hex then 16 else 10) ?size = length data"
    by (simp add: digits_value_radix)
  moreover have "data = (if is_text data then ?body else unhex ?body)"
    by (simp add: unhex_hex_bytes)
  ultimately have "line_shows hex data (fst (dump_frame hex data))"
    unfolding line_shows_def by blast
  then show ?thesis by (simp add: dump_frame_def Let_def)
qed

text \<open>The base is hexadecimal from the first frame on that is not text.\<close>

definition hex_at :: "bool \<Rightarrow> frame list \<Rightarrow> nat \<Rightarrow> bool" where
  "hex_at hex msg i \<longleftrightarrow> hex \<or> (\<exists>f\<in>set (take i msg). \<not> is_text f)"

lemma dump_loop_message:
  "msg \<noteq> [] \<Longrightarrow> \<exists>lines. dump_loop hex (parts msg @ rest) = Some (lines, hex_at hex msg (length msg), rest) \<and>
     length lines = length msg \<and> (\<forall>i<length msg. line_shows (hex_at hex msg i) (msg ! i) (lines ! i))"
proof (induction msg arbitrary: hex)
  case (Cons f msg)
  obtain line hex1 where line: "dump_frame hex f = (line, hex1)" by fastforce
  with dump_frame_shows [of hex f] have f: "line_shows hex f line" and hex1: "hex1 = (hex \<or> \<not> is_text f)"
    by simp_all
  show ?case
  proof (cases "msg = []")
    case True
    then show ?thesis using f by (auto simp: line hex1 hex_at_def)
  next
    case False
    from Cons.IH [OF this, of hex1] obtain lines where
      lines: "dump_loop hex1 (parts msg @ rest) = Some (lines, hex_at hex1 msg (length msg), rest)"
        "length lines = length msg" "\<forall>i<length msg. line_shows (hex_at hex1 msg i) (msg ! i) (lines ! i)" by blast
    have at: "hex_at hex (f # msg) (Suc i) = hex_at hex1 msg i" for i by (auto simp: hex_at_def hex1)
    have "hex_at hex (f # msg) 0 = hex" by (simp add: hex_at_def)
    with lines f False at show ?thesis
      by (intro exI [of _ "line # lines"]) (auto simp: line nth_Cons' less_Suc_eq_0_disj)
  qed
qed simp

section \<open>Properties\<close>

text \<open>
  The random macro never exceeds its argument, but the last 64 numbers of \<^verbatim>\<open>random()\<close> reach it:
  rounding to single precision turns them into \<open>2 ^ 31\<close>, so the value meant to be excluded occurs.
\<close>

theorem CANNA_RAND_reaches_top:
  assumes "seed < 2 ^ 24" and "r < 2 ^ 31"
  shows "CANNA_RAND seed r \<le> seed \<and> (2 ^ 31 - 64 \<le> r \<longrightarrow> CANNA_RAND seed r = seed)"
proof (intro conjI impI)
  show "CANNA_RAND seed r \<le> seed" using assms by (rule CANNA_RAND_le)
next
  assume "2 ^ 31 - 64 \<le> r"
  then have "single r = 2 ^ 31" using single_top(1) [OF assms(2)] by blast
  moreover have "single seed = seed" using assms(1) by (rule single_exact)
  moreover from this have "single (2 ^ 31 * seed) = 2 ^ 31 * seed" using single_push [of 31 seed] by simp
  ultimately show "CANNA_RAND seed r = seed" by (simp add: CANNA_RAND_def mult.commute)
qed

theorem CANNA_RAND_reaches_top_witness: "CANNA_RAND 5 2147483600 = 5 \<and> CANNA_RAND 5 1000 \<le> 5"
  using CANNA_RAND_reaches_top [of 5 2147483600] CANNA_RAND_reaches_top [of 5 1000] by simp

text \<open>
  A socket identity has nine characters, one more for every number drawn among the
  last 64, and it determines both random values: two sockets share an identity exactly when both
  values agree.
\<close>

theorem canna_setid_identity:
  assumes "r1 < 2 ^ 31" and "r2 < 2 ^ 31"
  shows "length (canna_setid r1 r2)
      = 9 + (if 2 ^ 31 - 64 \<le> r1 then 1 else 0) + (if 2 ^ 31 - 64 \<le> r2 then 1 else 0)
    \<and> (canna_setid r1 r2 = canna_setid s1 s2 \<longleftrightarrow>
        CANNA_RAND 65536 r1 = CANNA_RAND 65536 s1 \<and> CANNA_RAND 65536 r2 = CANNA_RAND 65536 s2)"
proof
  have "length (canna_setid r1 r2) = length (id_half r1) + 1 + length (id_half r2)"
    unfolding canna_setid_def by (simp only: length_append) simp
  then show "length (canna_setid r1 r2)
      = 9 + (if 2 ^ 31 - 64 \<le> r1 then 1 else 0) + (if 2 ^ 31 - 64 \<le> r2 then 1 else 0)"
    unfolding length_id_half [OF assms(1)] length_id_half [OF assms(2)] by simp
  show "canna_setid r1 r2 = canna_setid s1 s2 \<longleftrightarrow>
      CANNA_RAND 65536 r1 = CANNA_RAND 65536 s1 \<and> CANNA_RAND 65536 r2 = CANNA_RAND 65536 s2"
  proof
    assume eq: "canna_setid r1 r2 = canna_setid s1 s2"
    have "id_half r1 = id_half s1" "id_half r2 = id_half s2"
      unfolding canna_setid_split [of r1 r2, symmetric] canna_setid_split [of s1 s2, symmetric] eq by simp_all
    then show "CANNA_RAND 65536 r1 = CANNA_RAND 65536 s1 \<and> CANNA_RAND 65536 r2 = CANNA_RAND 65536 s2"
      using id_half_value by metis
  qed (simp add: canna_setid_def)
qed

theorem canna_setid_identity_witness:
  "length (canna_setid 5 2147483646) = 10"
  using canna_setid_identity [of 5 2147483646] by simp

text \<open>
  A dump takes exactly one message off the socket and prints one line for each of its frames,
  from which the frame can be read back; the size in the line is decimal only until the first
  frame that is not text, hexadecimal in every line after it.
\<close>

theorem canna_dump_shows:
  assumes "msg \<noteq> []" and "inbox w p = parts msg @ rest"
  shows "\<exists>lines. canna_dump p hex w = Some (replicate 50 CHR ''-'' # lines, hex_at hex msg (length msg),
        w\<lparr>inbox := (inbox w)(p := rest)\<rparr>) \<and>
      length lines = length msg \<and> (\<forall>i<length msg. line_shows (hex_at hex msg i) (msg ! i) (lines ! i))"
  using dump_loop_message [OF assms(1), of hex rest] assms(2) by (auto simp: canna_dump_def)

theorem canna_dump_shows_witness:
  "\<exists>lines. canna_dump () False \<lparr>inbox = \<lambda>_. [(''id'', True), ('''', True), (''hello'', False)], outbox = []\<rparr>
      = Some (replicate 50 CHR ''-'' # lines, False, \<lparr>inbox = \<lambda>_. [], outbox = []\<rparr>)
    \<and> length lines = 3"
proof -
  have "hex_at False [''id'', '''', ''hello''] (Suc (Suc (Suc 0))) = False"
    by (simp add: hex_at_def is_text_def)
  then show ?thesis
    using canna_dump_shows [of "[''id'', '''', ''hello'']"
      "\<lparr>inbox = \<lambda>_. [(''id'', True), ('''', True), (''hello'', False)], outbox = []\<rparr>" "()" "[]" False]
    by (auto simp: fun_upd_def)
qed

text \<open>The sleep is the time asked for, and a negative one is a time that \<^verbatim>\<open>nanosleep\<close> rejects.\<close>

lemma canna_sleep_time:
  "case canna_sleep msecs of (sec, nsec) \<Rightarrow>
     sec * 1000000000 + nsec = msecs * 1000000 \<and> (0 \<le> msecs \<longrightarrow> 0 \<le> sec \<and> 0 \<le> nsec \<and> nsec < 1000000000) \<and>
     (msecs < 0 \<longrightarrow> sec < 0 \<or> nsec < 0)"
proof -
  have s: "msecs sdiv 1000 * 1000 + msecs smod 1000 = msecs" by (simp add: sdiv_mult_smod_eq)
  show ?thesis
    by (simp add: canna_sleep_def) (use s in \<open>auto simp: signed_divide_int_def signed_modulo_int_def sgn_if split: if_splits\<close>)
qed

end
