(* ===== verification/Daemon.thy ===== *)
theory Daemon
  imports Canna_Core
begin

text \<open>
  \<^verbatim>\<open>core/canna_daemon.cpp\<close>: turning a process into a daemon. What the operating system returns in the
  process that runs the code is an input; the result is the effects in their order and how the
  call ends. One call of \<^verbatim>\<open>fork\<close> returns twice, so the processes that come out of \<^verbatim>\<open>daemon_init\<close>
  are obtained by giving each its own return values.
\<close>

section \<open>The code\<close>

record daemon_os =
  fork1 :: int
  fork2 :: int
  open_fd :: int
  fdopen_ok :: bool
  flock_result :: int
  own_pid :: nat
  fprintf_result :: int

datatype effect =
    Setsid
  | Ignore_signals
  | Printed string
  | Write_file string
  | Close_fd int
  | Umask_setpgrp

datatype ending = Exit int | Return int

definition daemon_init :: "int \<Rightarrow> daemon_os \<Rightarrow> effect list \<times> ending" where
  "daemon_init mode os =
     (if mode = 0 then ([], Return 0)
      else
        let pid = fork1 os in
        if pid \<noteq> 0 then ([], Exit 0)
        else
          let effects = [Setsid, Ignore_signals] in
          if (if pid = fork2 os then 1 else 0 :: int) \<noteq> 0 then (effects, Exit 0)
          else if open_fd os < 0
          then (effects @ [Printed ''open pid file failed, daemon init failed''], Return (- 1))
          else if \<not> fdopen_ok os
          then (effects @ [Printed ''fdopen pid file failed, daemon init failed''], Return (- 2))
          else if flock_result os = - 1
          then (effects @ [Printed ''lock pid file failed, daemon is already running''], Return (- 3))
          else if fprintf_result os = 0
          then (effects @ [Printed ''write pid to file failed'', Close_fd (open_fd os)], Return (- 4))
          else (effects @ [Write_file (radix False 10 (own_pid os) @ [CHR 0x0A]), Umask_setpgrp], Return 0))"

text \<open>\<open>daemon_exit\<close> removes the pid file, \<open>unlink\<close> being the call of the operating system.\<close>

definition daemon_exit :: "(string \<Rightarrow> int) \<Rightarrow> string \<Rightarrow> int" where
  "daemon_exit unlink pidfile = unlink pidfile"

text \<open>
  The servers' \<^verbatim>\<open>initialize\<close>: any failure ends the process with code 0, success installs the
  two signal handlers.
\<close>

definition server_initialize :: "int \<Rightarrow> daemon_os \<Rightarrow> ending" where
  "server_initialize mode os =
     (case snd (daemon_init mode os) of
        Exit c \<Rightarrow> Exit c
      | Return result \<Rightarrow> if 0 \<noteq> result then Exit 0 else Return result)"

section \<open>Who survives\<close>

text \<open>
  The three processes of a start in which both forks succeed: \<open>pid1\<close> is the child's number, \<open>pid2\<close> the
  grandchild's.
\<close>

datatype process = Original | Child | Grandchild

definition os_of :: "nat \<Rightarrow> nat \<Rightarrow> daemon_os \<Rightarrow> process \<Rightarrow> daemon_os" where
  "os_of pid1 pid2 os p =
     (case p of
        Original \<Rightarrow> os\<lparr>fork1 := int pid1\<rparr>
      | Child \<Rightarrow> os\<lparr>fork1 := 0, fork2 := int pid2, own_pid := pid1\<rparr>
      | Grandchild \<Rightarrow> os\<lparr>fork1 := 0, fork2 := 0, own_pid := pid2\<rparr>)"

text \<open>
  The double fork keeps the wrong process. The second test compares with \<^verbatim>\<open>==\<close> where an assignment is
  meant, so the grandchild exits and the child goes on as the daemon: the leader of the new session,
  which the second fork is there to get rid of, and the process whose number is in the file.
\<close>

theorem daemon_is_session_leader:
  assumes "mode \<noteq> 0" and "0 < pid1" and "0 < pid2"
    and "0 \<le> open_fd os" and "fdopen_ok os" and "flock_result os = 0" and "0 < fprintf_result os"
  shows "snd (daemon_init mode (os_of pid1 pid2 os p)) = (if p = Child then Return 0 else Exit 0)
    \<and> fst (daemon_init mode (os_of pid1 pid2 os Child))
      = [Setsid, Ignore_signals, Write_file (radix False 10 pid1 @ [CHR 0x0A]), Umask_setpgrp]"
  using assms by (cases p) (simp_all add: daemon_init_def os_of_def)

theorem daemon_is_session_leader_witness:
  "snd (daemon_init 1 (os_of 100 101 \<lparr>fork1 = 0, fork2 = 0, open_fd = 3, fdopen_ok = True, flock_result = 0,
     own_pid = 0, fprintf_result = 4\<rparr> Grandchild)) = Exit 0"
  using daemon_is_session_leader [of 1 100 101 "\<lparr>fork1 = 0, fork2 = 0, open_fd = 3, fdopen_ok = True,
     flock_result = 0, own_pid = 0, fprintf_result = 4\<rparr>" Grandchild] by simp

text \<open>Every failure is told by its own code, and a server that fails to start reports success.\<close>

lemma daemon_codes:
  "snd (daemon_init mode os) \<in> {Exit 0, Return 0, Return (- 1), Return (- 2), Return (- 3), Return (- 4)}"
  by (simp add: daemon_init_def Let_def)

lemma server_initialize_codes: "server_initialize mode os \<in> {Exit 0, Return 0}"
  using daemon_codes [of mode os] by (auto simp: server_initialize_def)

end
