(* ===== verification/Path_Main.thy ===== *)
theory Path_Main
  imports Dijkstra Thread_Pool
begin

text \<open>
  The rest of \<^verbatim>\<open>pathserver/main.cpp\<close>: the tasks its main hands to the thread pool. Signed
  additions are checked, as in \<open>Dijkstra\<close>.
\<close>

section \<open>The code\<close>

text \<open>The loop of \<^verbatim>\<open>Sum\<close> over the numbers below \<open>n\<close>, from the counter \<open>i\<close> on.\<close>

fun sum_loop :: "nat \<Rightarrow> nat \<Rightarrow> int \<Rightarrow> int option" where
  "sum_loop 0 i acc = Some acc"
| "sum_loop (Suc n) i acc = Option.bind (int_add acc (int i)) (sum_loop n (Suc i))"

definition Sum_task :: "int option" where
  "Sum_task = sum_loop 100000000 0 0"

datatype path_task = Hello | Sum

definition path_submits :: "path_task pool \<Rightarrow> path_task pool" where
  "path_submits p = fold submit (Hello # replicate 20 Sum) p"

section \<open>What they do\<close>

lemma sum_loop_value: "sum_loop n i acc = Some r \<Longrightarrow> r = acc + (\<Sum>j<n. int (i + j))"
proof (induction n arbitrary: i acc)
  case (Suc n)
  from Suc.prems have "sum_loop n (Suc i) (acc + int i) = Some r"
    by (auto simp: int_add_def split: if_splits)
  from Suc.IH [OF this] show ?case
    by (simp add: sum.lessThan_Suc_shift ac_simps del: sum.lessThan_Suc)
qed simp

lemma sum_loop_prefix: "sum_loop (m + n) i acc = Option.bind (sum_loop m i acc) (sum_loop n (i + m))"
proof (induction m arbitrary: i acc)
  case (Suc m)
  then show ?case by (cases "int_add acc (int i)") simp_all
qed simp

lemma sum_loop_fits:
  "0 \<le> acc \<Longrightarrow> acc + (\<Sum>j<n. int (i + j)) \<le> INT_MAX \<Longrightarrow> \<exists>r. sum_loop n i acc = Some r"
proof (induction n arbitrary: i acc)
  case (Suc n)
  have rest: "0 \<le> (\<Sum>j<n. int (Suc i + j))" by (rule sum_nonneg) simp
  from Suc.prems(2) have all: "acc + int i + (\<Sum>j<n. int (Suc i + j)) \<le> INT_MAX"
    by (simp add: sum.lessThan_Suc_shift ac_simps del: sum.lessThan_Suc)
  with rest have "acc + int i \<le> INT_MAX" by linarith
  with Suc.prems(1) have "int_add acc (int i) = Some (acc + int i)" by (simp add: int_add_def INT_MAX_def)
  with Suc.IH [of "acc + int i" "Suc i"] Suc.prems(1) all show ?case by simp
qed simp

lemma triangle: "2 * (\<Sum>j<n. int (0 + j)) = int n * (int n - 1)"
  by (induction n) (simp_all add: algebra_simps)

text \<open>
  The demonstration task overflows. Adding the numbers below a hundred million exceeds the range of
  \<^verbatim>\<open>int\<close> at the 65537th addition, so every one of the twenty tasks that main submits runs into undefined behaviour.
\<close>

theorem Sum_overflows:
  "Sum_task = None \<and> sum_loop 65537 0 0 = None \<and> sum_loop 65536 0 0 = Some 2147450880"
proof -
  have t: "(\<Sum>j<65536. int (0 + j)) = 2147450880" using triangle [of 65536] by simp
  have "\<exists>r. sum_loop 65536 0 0 = Some r"
  proof (rule sum_loop_fits)
    show "0 + (\<Sum>j<65536. int (0 + j)) \<le> INT_MAX" unfolding t by (simp add: INT_MAX_def)
  qed simp
  then obtain r where r: "sum_loop 65536 0 0 = Some r" by blast
  with sum_loop_value [of 65536 0 0 r] t have some: "sum_loop 65536 0 0 = Some 2147450880" by simp
  have one: "sum_loop 1 65536 2147450880 = None" by (simp add: int_add_def INT_MAX_def)
  have "sum_loop 65537 0 0 = None"
    using sum_loop_prefix [of 65536 1 0 0] some one by simp
  moreover from this have "Sum_task = None"
    using sum_loop_prefix [of 65537 99934463 0 0] by (simp add: Sum_task_def)
  ultimately show ?thesis using some by simp
qed

text \<open>The line of tasks that main leaves to the workers.\<close>

lemma path_submits_line: "task_line (path_submits p) = task_line p @ Hello # replicate 20 Sum"
proof -
  have "path_submits p = fold pool_event (map Submit (Hello # replicate 20 Sum)) p"
    unfolding path_submits_def fold_map by (rule arg_cong [where f = "\<lambda>f. fold f _ p"]) (rule ext, rule ext, simp)
  moreover have "submitted (map Submit fs) = fs" for fs :: "path_task list" by (induction fs) simp_all
  ultimately show ?thesis by (simp only: run_task_line)
qed

end
