(* ===== verification/Name_Sockets.thy ===== *)
theory Name_Sockets
  imports Name_Service Canna_Core
begin

text \<open>
  The ZeroMQ side of the name server (\<^verbatim>\<open>nameserver/name_server.cpp\<close>, \<^verbatim>\<open>nameserver/main.cpp\<close>) and of the
  router (\<^verbatim>\<open>routers/router_server.cpp\<close>): how the sockets are set up, and the server loop on its
  sockets, which is shown to implement the frame-level loop of \<open>Name_Service\<close>.
\<close>

section \<open>Setting up sockets\<close>

text \<open>
  A pointer to a socket is \<^const>\<open>None\<close> for null or the number of a socket made before. The calls into
  ZeroMQ are recorded in their order.
\<close>

datatype sock_type = ZMQ_REQ | ZMQ_REP | ZMQ_PUB | ZMQ_SUB

datatype zmq_call =
    New_socket sock_type
  | Bind nat string
  | Connect nat string
  | Set_identity nat string
  | Subscribe nat string

record zmq =
  made :: nat
  zcalls :: "zmq_call list"

definition sock_create :: "sock_type \<Rightarrow> zmq \<Rightarrow> nat option \<times> zmq" where
  "sock_create t z = (Some (made z), z\<lparr>made := made z + 1, zcalls := zcalls z @ [New_socket t]\<rparr>)"

definition on_socket :: "nat option \<Rightarrow> (nat \<Rightarrow> zmq_call) \<Rightarrow> zmq \<Rightarrow> zmq" where
  "on_socket sock c z = (case sock of None \<Rightarrow> z | Some s \<Rightarrow> z\<lparr>zcalls := zcalls z @ [c s]\<rparr>)"

definition sock_bind :: "nat option \<Rightarrow> string \<Rightarrow> zmq \<Rightarrow> zmq" where
  "sock_bind sock addr z = on_socket sock (\<lambda>s. Bind s addr) z"

definition sock_connect :: "nat option \<Rightarrow> string \<Rightarrow> zmq \<Rightarrow> zmq" where
  "sock_connect sock addr z = on_socket sock (\<lambda>s. Connect s addr) z"

text \<open>The router's copies of the two, and its two socket options.\<close>

definition router_sock_connect :: "nat option \<Rightarrow> string \<Rightarrow> zmq \<Rightarrow> zmq" where
  "router_sock_connect sock addr z = on_socket sock (\<lambda>s. Connect s addr) z"

definition sock_identity :: "nat option \<Rightarrow> string \<Rightarrow> zmq \<Rightarrow> zmq" where
  "sock_identity sock addr z = on_socket sock (\<lambda>s. Set_identity s addr) z"

definition sock_setfilter :: "nat option \<Rightarrow> string \<Rightarrow> zmq \<Rightarrow> zmq" where
  "sock_setfilter sock filt z = on_socket sock (\<lambda>s. Subscribe s filt) z"

record name_sockets =
  m_responder :: "nat option"
  m_publisher :: "nat option"

definition name_initialize :: "zmq \<Rightarrow> name_sockets \<times> zmq" where
  "name_initialize z = (\<lparr>m_responder = None, m_publisher = None\<rparr>, \<lparr>made = 0, zcalls = []\<rparr>)"

definition responder_create :: "name_sockets \<Rightarrow> zmq \<Rightarrow> name_sockets \<times> zmq" where
  "responder_create ns z = (let (s, z) = sock_create ZMQ_REP z in (ns\<lparr>m_responder := s\<rparr>, z))"

definition publisher_create :: "name_sockets \<Rightarrow> zmq \<Rightarrow> name_sockets \<times> zmq" where
  "publisher_create ns z = (let (s, z) = sock_create ZMQ_PUB z in (ns\<lparr>m_publisher := s\<rparr>, z))"

definition responder_bind :: "string \<Rightarrow> name_sockets \<Rightarrow> zmq \<Rightarrow> zmq" where
  "responder_bind addr ns z = sock_bind (m_responder ns) addr z"

definition publisher_bind :: "string \<Rightarrow> name_sockets \<Rightarrow> zmq \<Rightarrow> zmq" where
  "publisher_bind addr ns z = sock_bind (m_publisher ns) addr z"

text \<open>The server's main up to its loop.\<close>

definition name_main_setup :: "zmq \<Rightarrow> name_sockets \<times> zmq" where
  "name_main_setup z =
     (let (ns, z) = name_initialize z;
          (ns, z) = responder_create ns z;
          z = responder_bind ''tcp://*:5555'' ns z;
          (ns, z) = publisher_create ns z;
          z = publisher_bind ''tcp://*:5556'' ns z
      in (ns, z))"

record router_sockets =
  m_requester :: "nat option"
  m_subscribe :: "nat option"

definition router_initialize :: "zmq \<Rightarrow> router_sockets \<times> zmq" where
  "router_initialize z = (\<lparr>m_requester = None, m_subscribe = None\<rparr>, \<lparr>made = 0, zcalls = []\<rparr>)"

definition router_init :: "router_sockets \<Rightarrow> zmq \<Rightarrow> router_sockets \<times> zmq" where
  "router_init rs z =
     (let (s, z) = sock_create ZMQ_REQ z;
          rs = rs\<lparr>m_requester := s\<rparr>;
          z = router_sock_connect (m_requester rs) ''tcp://localhost:5555'' z;
          (s, z) = sock_create ZMQ_SUB z;
          rs = rs\<lparr>m_subscribe := s\<rparr>;
          z = router_sock_connect (m_subscribe rs) ''tcp://localhost:5556'' z;
          z = sock_setfilter (m_subscribe rs) '''' z
      in (rs, z))"

section \<open>The server loop on its sockets\<close>

datatype name_port = Responder | Publisher

definition sock_recv :: "'p \<Rightarrow> 'p wire \<Rightarrow> (frame \<times> 'p wire) option" where
  "sock_recv p w =
     (case inbox w p of [] \<Rightarrow> None | (data, mr) # rest \<Rightarrow> Some (data, w\<lparr>inbox := (inbox w)(p := rest)\<rparr>))"

definition sock_send :: "'p \<Rightarrow> frame \<Rightarrow> 'p wire \<Rightarrow> 'p wire" where
  "sock_send p data w = w\<lparr>outbox := outbox w @ [(p, data, False)]\<rparr>"

text \<open>One pass: the poll has a timeout of 0 and may find nothing.\<close>

definition name_pass ::
  "(string list \<Rightarrow> string) \<Rightarrow> serial_map \<times> name_port wire \<Rightarrow> (serial_map \<times> name_port wire) option" where
  "name_pass ser st = do {
     let (m, w) = st;
     if readable Responder w
     then do {
       (grp, w) \<leftarrow> sock_recv Responder w;
       (m, name) \<leftarrow> allotnamepair m grp;
       let namelist = getnamelist m grp;
       let msg = ser namelist;
       let w = sock_send Responder msg w;
       let w = sock_send Publisher name w;
       Some (m, w) }
     else Some (m, w) }"

fun name_passes ::
  "(string list \<Rightarrow> string) \<Rightarrow> nat \<Rightarrow> serial_map \<times> name_port wire \<Rightarrow> (serial_map \<times> name_port wire) option" where
  "name_passes ser 0 st = Some st"
| "name_passes ser (Suc n) st = do { st \<leftarrow> name_pass ser st; name_passes ser n st }"

text \<open>The helpers that nothing calls, written out as they stand there.\<close>

definition sock_sendmore :: "'p \<Rightarrow> frame \<Rightarrow> 'p wire \<Rightarrow> 'p wire" where
  "sock_sendmore p data w = w\<lparr>outbox := outbox w @ [(p, data, True)]\<rparr>"

definition sock_setid :: "nat \<Rightarrow> nat \<Rightarrow> string" where
  "sock_setid r1 r2 =
     zero_pad 4 (radix True 16 (CANNA_RAND 65536 r1)) @ ''-'' @
     zero_pad 4 (radix True 16 (CANNA_RAND 65536 r2))"

fun sock_dump_loop :: "bool \<Rightarrow> (frame \<times> bool) list \<Rightarrow> (string list \<times> bool \<times> (frame \<times> bool) list) option" where
  "sock_dump_loop hex [] = None"
| "sock_dump_loop hex ((data, mr) # rest) =
     (let size = ''['' @ zero_pad 3 (radix False (if hex then 16 else 10) (length data)) @ '']'';
          (line, hex) = (if is_text data then (size @ data, hex) else (size @ hex_bytes data, True))
      in if \<not> mr then Some ([line], hex, rest)
         else case sock_dump_loop hex rest of
           None \<Rightarrow> None
         | Some (lines, hex, rest) \<Rightarrow> Some (line # lines, hex, rest))"

definition sock_dump :: "'p \<Rightarrow> bool \<Rightarrow> 'p wire \<Rightarrow> (string list \<times> bool \<times> 'p wire) option" where
  "sock_dump p hex w =
     (case sock_dump_loop hex (inbox w p) of
        None \<Rightarrow> None
      | Some (lines, hex, rest) \<Rightarrow>
          Some (replicate 50 CHR ''-'' # lines, hex, w\<lparr>inbox := (inbox w)(p := rest)\<rparr>))"

lemma sock_dump_loop_core: "sock_dump_loop hex fs = dump_loop hex fs"
  by (induction hex fs rule: dump_loop.induct) (simp_all add: dump_frame_def Let_def)

text \<open>All of the server's copies are the helpers of the core.\<close>

lemma copies_agree:
  "sock_recv p w = canna_recv p w" "sock_send p f w = canna_send p f w"
  "sock_sendmore p f w = canna_sendmore p f w" "sock_setid r1 r2 = canna_setid r1 r2"
  "sock_dump p hex w = canna_dump p hex w"
  by (simp_all add: sock_recv_def canna_recv_def sock_send_def canna_send_def sock_sendmore_def canna_sendmore_def
    sock_setid_def canna_setid_def sock_dump_def canna_dump_def sock_dump_loop_core)

section \<open>Refinement\<close>

definition frames_out :: "(string \<times> string) list \<Rightarrow> (name_port \<times> frame \<times> bool) list" where
  "frames_out out = concat (map (\<lambda>(reply, published). [(Responder, reply, False), (Publisher, published, False)]) out)"

lemma pass_serves:
  assumes "inbox w Responder = (g, mr) # rest" and "serve_request ser m g = Some (m', reply, published)"
  shows "\<exists>w'. name_pass ser (m, w) = Some (m', w') \<and> inbox w' Responder = rest \<and>
    outbox w' = outbox w @ frames_out [(reply, published)]"
proof -
  from assms(2) obtain name where "allotnamepair m g = Some (m', name)" "reply = ser (getnamelist m' g)" "published = name"
    by (auto simp: serve_request_def Let_def split: bind_splits)
  with assms(1) show ?thesis
    by (simp add: name_pass_def readable_def sock_recv_def sock_send_def frames_out_def Let_def)
qed

lemma passes_serve:
  "inbox w Responder = map (\<lambda>g. (g, False)) gs \<Longrightarrow> server_loop ser m (map Some gs) = Some (m', out) \<Longrightarrow>
   \<exists>w'. name_passes ser (length gs) (m, w) = Some (m', w') \<and> inbox w' Responder = [] \<and>
     outbox w' = outbox w @ frames_out out"
proof (induction gs arbitrary: m w out)
  case Nil
  then show ?case by (simp add: frames_out_def)
next
  case (Cons g gs)
  from Cons.prems(2) obtain m1 reply published out1 where
    s: "serve_request ser m g = Some (m1, reply, published)" and
    l: "server_loop ser m1 (map Some gs) = Some (m', out1)" and out: "out = (reply, published) # out1"
    by (auto split: bind_splits)
  from Cons.prems(1) have "inbox w Responder = (g, False) # map (\<lambda>g. (g, False)) gs" by simp
  from pass_serves [OF this s] obtain w1 where w1: "name_pass ser (m, w) = Some (m1, w1)"
    "inbox w1 Responder = map (\<lambda>g. (g, False)) gs" "outbox w1 = outbox w @ frames_out [(reply, published)]" by blast
  from Cons.IH [OF w1(2) l] w1(1,3) show ?case by (fastforce simp: out frames_out_def)
qed



end
