(* ===== verification/DB_Server.thy ===== *)
theory DB_Server
  imports Zmq_Wire
begin

text \<open>
  The request loop of \<^verbatim>\<open>dbserver/main.cpp\<close>: a command arrives on a REP socket, is copied into a fixed
  buffer, given to Redis as a C string, and the answer is sent back. Redis is outside the
  repository: \<open>redis\<close> maps a command to the answer's bytes, or to \<^const>\<open>None\<close> where the call
  gives a null pointer. Of ZeroMQ the documented lock step of a REP socket is used: receiving again before
  a reply was sent is an error, which the C++ binding throws and nothing here catches.
\<close>

section \<open>The code\<close>

definition COMMAND_LEN :: nat where
  "COMMAND_LEN = 256"

record db =
  socket :: "unit wire"
  owes_reply :: bool
  command :: frame

definition nul :: char where
  "nul = CHR 0x00"

text \<open>A C string read from a buffer; without a terminator the read leaves the buffer.\<close>

definition read_string :: "frame \<Rightarrow> frame option" where
  "read_string buf = (if nul \<in> set buf then Some (takeWhile (\<lambda>c. c \<noteq> nul) buf) else None)"

definition db_turn :: "(frame \<Rightarrow> frame option) \<Rightarrow> db \<Rightarrow> db option" where
  "db_turn redis b =
     (if owes_reply b then None
      else do {
        (request, w) \<leftarrow> canna_recv () (socket b);
        let b = b\<lparr>socket := w, owes_reply := True\<rparr>;
        if COMMAND_LEN < length request then Some b
        else do {
          let b = b\<lparr>command := request @ replicate (COMMAND_LEN - length request) nul\<rparr>;
          text \<leftarrow> read_string (command b);
          result \<leftarrow> redis text;
          Some (b\<lparr>socket := canna_send () result (socket b), owes_reply := False\<rparr>) } })"

fun db_loop :: "(frame \<Rightarrow> frame option) \<Rightarrow> nat \<Rightarrow> db \<Rightarrow> db option" where
  "db_loop redis 0 b = Some b"
| "db_loop redis (Suc n) b = do { b \<leftarrow> db_turn redis b; db_loop redis n b }"

definition db_start :: "frame list \<Rightarrow> db" where
  "db_start requests = \<lparr>socket = \<lparr>inbox = \<lambda>_. map (\<lambda>r. (r, False)) requests, outbox = []\<rparr>,
     owes_reply = False, command = replicate COMMAND_LEN nul\<rparr>"

section \<open>Requests\<close>

text \<open>A request the buffer has room for, with its terminator, and that Redis answers.\<close>

definition served :: "(frame \<Rightarrow> frame option) \<Rightarrow> frame \<Rightarrow> bool" where
  "served redis r \<longleftrightarrow> length r < COMMAND_LEN \<and> redis (takeWhile (\<lambda>c. c \<noteq> nul) r) \<noteq> None"

definition db_answer :: "(frame \<Rightarrow> frame option) \<Rightarrow> frame \<Rightarrow> frame" where
  "db_answer redis r = the (redis (takeWhile (\<lambda>c. c \<noteq> nul) r))"

lemma read_padded:
  "read_string (r @ replicate (Suc k) nul) = Some (takeWhile (\<lambda>c. c \<noteq> nul) r)"
  by (simp add: read_string_def takeWhile_append takeWhile_eq_all_conv [THEN iffD2])

lemma turn_served:
  assumes "served redis r" and "inbox (socket b) () = (r, mr) # rest" and "\<not> owes_reply b"
  shows "\<exists>b'. db_turn redis b = Some b' \<and> inbox (socket b') () = rest \<and> \<not> owes_reply b' \<and>
    outbox (socket b') = outbox (socket b) @ [((), db_answer redis r, False)] \<and> length (command b') = COMMAND_LEN"
proof -
  from assms(1) obtain k where k: "COMMAND_LEN - length r = Suc k"
    by (cases "COMMAND_LEN - length r") (auto simp: served_def)
  from assms(1) obtain a where a: "redis (takeWhile (\<lambda>c. c \<noteq> nul) r) = Some a" by (auto simp: served_def)
  have l: "Suc (length r + k) = COMMAND_LEN" using assms(1) k by (simp add: served_def)
  show ?thesis
    using assms k by (simp add: db_turn_def canna_recv_def Let_def k read_padded a db_answer_def served_def l
      del: replicate_Suc)
qed

lemma loop_served:
  "\<forall>r\<in>set rs. served redis r \<Longrightarrow> inbox (socket b) () = map (\<lambda>r. (r, False)) rs @ rest \<Longrightarrow> \<not> owes_reply b \<Longrightarrow>
   \<exists>b'. db_loop redis (length rs) b = Some b' \<and> inbox (socket b') () = rest \<and> \<not> owes_reply b' \<and>
     outbox (socket b') = outbox (socket b) @ map (\<lambda>r. ((), db_answer redis r, False)) rs"
proof (induction rs arbitrary: b)
  case (Cons r rs)
  from Cons.prems have "served redis r" "inbox (socket b) () = (r, False) # map (\<lambda>r. (r, False)) rs @ rest" by simp_all
  from turn_served [OF this Cons.prems(3)] obtain b1 where b1: "db_turn redis b = Some b1"
    "inbox (socket b1) () = map (\<lambda>r. (r, False)) rs @ rest" "\<not> owes_reply b1"
    "outbox (socket b1) = outbox (socket b) @ [((), db_answer redis r, False)]" by blast
  from Cons.IH [OF _ b1(2,3)] Cons.prems(1) b1(1,4) show ?case by fastforce
qed simp

lemma loop_append:
  "db_loop redis (m + n) b = do { b \<leftarrow> db_loop redis m b; db_loop redis n b }"
  by (induction m arbitrary: b) (simp_all split: bind_split)



end
