(* ===== verification/LB_Broker.thy ===== *)
theory LB_Broker
  imports Zmq_Wire Bounded_System "HOL-Library.Multiset"
begin

text \<open>
  The load-balancing broker of \<^verbatim>\<open>example/lbbroker.cpp\<close>: its main loop between a frontend of clients
  and a backend of workers, the client and worker threads, and the system they form. ZeroMQ
  contributes its documented envelopes: a REQ socket puts an empty delimiter before a message and a ROUTER
  socket puts the sender's identity before what it receives and takes the receiver's identity from what it sends.
\<close>

section \<open>The code\<close>

datatype port = Frontend | Backend

record lb =
  sockets :: "port wire"
  worker_queue :: "frame list"
  client_count :: int

text \<open>
  A failed assertion, a blocking receive and \<^verbatim>\<open>front\<close> on an empty queue have no result. The frame that
  must be empty is read by \<open>recv_empty\<close>.
\<close>

definition recv_empty :: "port \<Rightarrow> port wire \<Rightarrow> port wire option" where
  "recv_empty p w = do { (empty, w) \<leftarrow> canna_recv p w; if empty = [] then Some w else None }"

text \<open>The first branch: a worker reports. The flag says that the loop is left.\<close>

definition lb_backend :: "lb \<Rightarrow> (bool \<times> lb) option" where
  "lb_backend b = do {
     (worker, w) \<leftarrow> canna_recv Backend (sockets b);
     let b = b\<lparr>worker_queue := worker_queue b @ [worker]\<rparr>;
     w \<leftarrow> recv_empty Backend w;
     (client_addr, w) \<leftarrow> canna_recv Backend w;
     if client_addr = ''READY'' then Some (False, b\<lparr>sockets := w\<rparr>)
     else do {
       w \<leftarrow> recv_empty Backend w;
       (reply, w) \<leftarrow> canna_recv Backend w;
       let w = canna_sendmore Frontend client_addr w;
       let w = canna_sendmore Frontend [] w;
       let w = canna_send Frontend reply w;
       let b = b\<lparr>sockets := w, client_count := client_count b - 1\<rparr>;
       Some (client_count b = 0, b) } }"

text \<open>The second branch: a client asks.\<close>

definition lb_frontend :: "lb \<Rightarrow> lb option" where
  "lb_frontend b = do {
     (client_addr, w) \<leftarrow> canna_recv Frontend (sockets b);
     w \<leftarrow> recv_empty Frontend w;
     (request, w) \<leftarrow> canna_recv Frontend w;
     case worker_queue b of
       [] \<Rightarrow> None
     | worker_addr # rest \<Rightarrow>
         Some (b\<lparr>worker_queue := rest,
           sockets := canna_send Backend request (canna_sendmore Backend [] (canna_sendmore Backend client_addr
             (canna_sendmore Backend [] (canna_sendmore Backend worker_addr w))))\<rparr>) }"

text \<open>
  One pass of the loop: the frontend is polled only while a worker is ready. The poll blocks
  when \<open>lb_wakes\<close> is false.
\<close>

definition lb_wakes :: "lb \<Rightarrow> bool" where
  "lb_wakes b \<longleftrightarrow> readable Backend (sockets b) \<or> (worker_queue b \<noteq> [] \<and> readable Frontend (sockets b))"

definition lb_turn :: "lb \<Rightarrow> (bool \<times> lb) option" where
  "lb_turn b = do {
     let frontend = (worker_queue b \<noteq> [] \<and> readable Frontend (sockets b));
     (stop, b) \<leftarrow> (if readable Backend (sockets b) then lb_backend b else Some (False, b));
     if stop then Some (True, b)
     else if frontend then do { b \<leftarrow> lb_frontend b; Some (False, b) }
     else Some (False, b) }"

text \<open>The threads: what a client sends, what a worker announces and what it answers to a message.\<close>

definition client_thread :: "frame list" where
  "client_thread = [''HELLO'']"

definition worker_ready :: "frame list" where
  "worker_ready = [''READY'']"

definition worker_thread :: "frame list \<Rightarrow> frame list option" where
  "worker_thread received =
     (case received of
        [address, delim, request] \<Rightarrow> if delim = [] then Some [address, [], ''OK''] else None
      | _ \<Rightarrow> None)"

section \<open>The system\<close>

text \<open>
  A state of the whole program: the broker, whether it has left its loop, the threads that have not
  sent anything yet, the messages workers have received and not answered, and the clients that got
  an answer, with it.
\<close>

record lb_system =
  broker :: lb
  stopped :: bool
  fresh_clients :: "frame list"
  fresh_workers :: "frame list"
  working :: "(frame \<times> frame list) list"
  answered :: "(frame \<times> frame list) list"

text \<open>A message with the envelope of a ROUTER socket.\<close>

definition envelope :: "frame \<Rightarrow> frame list \<Rightarrow> frame list" where
  "envelope peer payload = peer # [] # payload"

definition deliver_to :: "port \<Rightarrow> frame list \<Rightarrow> lb_system \<Rightarrow> lb_system" where
  "deliver_to p msg s = s\<lparr>broker := (broker s)\<lparr>sockets := arrive p msg (sockets (broker s))\<rparr>\<rparr>"

inductive lb_step :: "lb_system \<Rightarrow> lb_system \<Rightarrow> bool" where
  client: "fresh_clients s = cs @ c # cs' \<Longrightarrow>
    lb_step s (deliver_to Frontend (envelope c client_thread) (s\<lparr>fresh_clients := cs @ cs'\<rparr>))"
| worker: "fresh_workers s = ws @ w # ws' \<Longrightarrow>
    lb_step s (deliver_to Backend (envelope w worker_ready) (s\<lparr>fresh_workers := ws @ ws'\<rparr>))"
| turn: "\<not> stopped s \<Longrightarrow> lb_wakes (broker s) \<Longrightarrow> lb_turn (broker s) = Some (stop, b) \<Longrightarrow>
    lb_step s (s\<lparr>broker := b, stopped := stop\<rparr>)"
| request: "outbox (sockets (broker s)) = post Backend (envelope w payload) @ rest \<Longrightarrow>
    lb_step s (s\<lparr>broker := (broker s)\<lparr>sockets := (sockets (broker s))\<lparr>outbox := rest\<rparr>\<rparr>,
      working := working s @ [(w, payload)]\<rparr>)"
| answer: "outbox (sockets (broker s)) = post Frontend (envelope c payload) @ rest \<Longrightarrow>
    lb_step s (s\<lparr>broker := (broker s)\<lparr>sockets := (sockets (broker s))\<lparr>outbox := rest\<rparr>\<rparr>,
      answered := answered s @ [(c, payload)]\<rparr>)"
| reply: "working s = us @ (w, payload) # us' \<Longrightarrow> worker_thread payload = Some out \<Longrightarrow>
    lb_step s (deliver_to Backend (envelope w out) (s\<lparr>working := us @ us'\<rparr>))"

inductive_cases lb_stepE: "lb_step s s'"

definition lb_start :: "frame list \<Rightarrow> frame list \<Rightarrow> lb_system" where
  "lb_start cs ws =
     \<lparr>broker = \<lparr>sockets = \<lparr>inbox = \<lambda>_. [], outbox = []\<rparr>, worker_queue = [], client_count = int (length cs)\<rparr>,
      stopped = False, fresh_clients = cs, fresh_workers = ws, working = [], answered = []\<rparr>"

section \<open>Where a client and a worker are\<close>

text \<open>
  A view of a state reads the inboxes, the outbox and the workers' messages as a list of
  well-formed messages: reports of workers, questions of clients, orders of the broker and clients being served.
\<close>

datatype report = Ready frame | Reply frame frame

datatype order = Request frame frame | Answer frame

record lb_view =
  reports :: "report list"
  asks :: "frame list"
  orders :: "order list"
  busy :: "(frame \<times> frame) list"

fun report_frames :: "report \<Rightarrow> frame list" where
  "report_frames (Ready w) = envelope w worker_ready"
| "report_frames (Reply w c) = envelope w [c, [], ''OK'']"

fun order_frames :: "order \<Rightarrow> (port \<times> frame \<times> bool) list" where
  "order_frames (Request w c) = post Backend (envelope w (envelope c client_thread))"
| "order_frames (Answer c) = post Frontend (envelope c [''OK''])"

definition sees :: "lb_system \<Rightarrow> lb_view \<Rightarrow> bool" where
  "sees s v \<longleftrightarrow>
     inbox (sockets (broker s)) Backend = concat (map (parts \<circ> report_frames) (reports v)) \<and>
     inbox (sockets (broker s)) Frontend = concat (map (\<lambda>c. parts (envelope c client_thread)) (asks v)) \<and>
     outbox (sockets (broker s)) = concat (map order_frames (orders v)) \<and>
     working s = map (\<lambda>(w, c). (w, envelope c client_thread)) (busy v)"

fun report_clients :: "report list \<Rightarrow> frame list" where
  "report_clients [] = []"
| "report_clients (Ready w # rs) = report_clients rs"
| "report_clients (Reply w c # rs) = c # report_clients rs"

fun report_worker :: "report \<Rightarrow> frame" where
  "report_worker (Ready w) = w"
| "report_worker (Reply w c) = w"

fun requests :: "order list \<Rightarrow> (frame \<times> frame) list" where
  "requests [] = []"
| "requests (Request w c # os) = (w, c) # requests os"
| "requests (Answer c # os) = requests os"

fun answers :: "order list \<Rightarrow> frame list" where
  "answers [] = []"
| "answers (Request w c # os) = answers os"
| "answers (Answer c # os) = c # answers os"

text \<open>The clients still to be answered, those answered, and the workers, each where it is.\<close>

definition open_clients :: "lb_system \<Rightarrow> lb_view \<Rightarrow> frame multiset" where
  "open_clients s v = mset (fresh_clients s) + mset (asks v) + mset (map snd (requests (orders v))) +
     mset (map snd (busy v)) + mset (report_clients (reports v))"

definition closed_clients :: "lb_system \<Rightarrow> lb_view \<Rightarrow> frame multiset" where
  "closed_clients s v = mset (answers (orders v)) + mset (map fst (answered s))"

definition all_workers :: "lb_system \<Rightarrow> lb_view \<Rightarrow> frame multiset" where
  "all_workers s v = mset (fresh_workers s) + mset (map report_worker (reports v)) +
     mset (worker_queue (broker s)) + mset (map fst (requests (orders v))) + mset (map fst (busy v))"

text \<open>Every step moves a client or a worker forward.\<close>

definition effort :: "lb_system \<Rightarrow> lb_view \<Rightarrow> nat" where
  "effort s v = 6 * length (fresh_clients s) + 5 * length (asks v) + 4 * length (requests (orders v)) +
     3 * length (busy v) + (\<Sum>r\<leftarrow>reports v. case r of Ready w \<Rightarrow> 1 | Reply w c \<Rightarrow> 2) +
     length (answers (orders v)) + 2 * length (fresh_workers s)"

definition lb_inv :: "frame list \<Rightarrow> frame list \<Rightarrow> lb_system \<Rightarrow> lb_view \<Rightarrow> bool" where
  "lb_inv cs ws s v \<longleftrightarrow> sees s v \<and> ''READY'' \<notin> set cs \<and>
     open_clients s v + closed_clients s v = mset cs \<and> all_workers s v = mset ws \<and>
     client_count (broker s) = int (size (open_clients s v)) \<and>
     (stopped s \<longleftrightarrow> client_count (broker s) = 0) \<and> (\<forall>a\<in>set (answered s). snd a = [''OK''])"

lemma requests_append [simp]: "requests (os @ os') = requests os @ requests os'"
  by (induction os rule: requests.induct) simp_all

lemma answers_append [simp]: "answers (os @ os') = answers os @ answers os'"
  by (induction os rule: answers.induct) simp_all

lemma report_clients_append [simp]: "report_clients (rs @ rs') = report_clients rs @ report_clients rs'"
  by (induction rs rule: report_clients.induct) simp_all

section \<open>One pass of the loop\<close>

text \<open>The two branches on a broker whose inboxes hold well-formed messages.\<close>

lemma backend_ready:
  "inbox (sockets b) Backend = parts (report_frames (Ready w)) @ rest \<Longrightarrow>
   lb_backend b = Some (False, b\<lparr>worker_queue := worker_queue b @ [w],
     sockets := (sockets b)\<lparr>inbox := (inbox (sockets b))(Backend := rest)\<rparr>\<rparr>)"
  by (simp add: lb_backend_def recv_empty_def canna_recv_def Let_def envelope_def worker_ready_def)

lemma backend_reply:
  "inbox (sockets b) Backend = parts (report_frames (Reply w c)) @ rest \<Longrightarrow> c \<noteq> ''READY'' \<Longrightarrow>
   lb_backend b = Some (client_count b - 1 = 0, b\<lparr>worker_queue := worker_queue b @ [w],
     sockets := (sockets b)\<lparr>inbox := (inbox (sockets b))(Backend := rest),
       outbox := outbox (sockets b) @ order_frames (Answer c)\<rparr>,
     client_count := client_count b - 1\<rparr>)"
  by (simp add: lb_backend_def recv_empty_def canna_recv_def Let_def envelope_def canna_send_def canna_sendmore_def)

lemma frontend_ask:
  "inbox (sockets b) Frontend = parts (envelope c client_thread) @ rest \<Longrightarrow> worker_queue b = w # ws \<Longrightarrow>
   lb_frontend b = Some (b\<lparr>worker_queue := ws,
     sockets := (sockets b)\<lparr>inbox := (inbox (sockets b))(Frontend := rest),
       outbox := outbox (sockets b) @ order_frames (Request w c)\<rparr>\<rparr>)"
  by (simp add: lb_frontend_def recv_empty_def canna_recv_def Let_def envelope_def client_thread_def canna_send_def canna_sendmore_def)

lemmas lb_inv_simps = lb_inv_def sees_def open_clients_def closed_clients_def all_workers_def effort_def

lemma lb_frames_nonempty [simp]: "report_frames r \<noteq> []" "envelope p fs \<noteq> []"
  by (cases r) (simp_all add: envelope_def)

lemma readable_view:
  assumes "sees s v"
  shows "readable Backend (sockets (broker s)) \<longleftrightarrow> reports v \<noteq> []"
    and "readable Frontend (sockets (broker s)) \<longleftrightarrow> asks v \<noteq> []"
proof -
  show "readable Backend (sockets (broker s)) \<longleftrightarrow> reports v \<noteq> []"
    using assms by (cases "reports v") (simp_all add: sees_def readable_def)
  show "readable Frontend (sockets (broker s)) \<longleftrightarrow> asks v \<noteq> []"
    using assms by (cases "asks v") (simp_all add: sees_def readable_def)
qed

lemma in_open: "lb_inv cs ws s v \<Longrightarrow> c \<in># open_clients s v \<Longrightarrow> c \<noteq> ''READY''"
  unfolding lb_inv_def by (metis mset_subset_eqD mset_subset_eq_add_left set_mset_mset)

lemma backend_phase:
  assumes inv: "lb_inv cs ws s v" and going: "\<not> stopped s" and r: "reports v = r # rs"
  shows "\<exists>stop b v'. lb_backend (broker s) = Some (stop, b) \<and>
    lb_inv cs ws (s\<lparr>broker := b, stopped := stop\<rparr>) v' \<and>
    effort (s\<lparr>broker := b, stopped := stop\<rparr>) v' < effort s v \<and> worker_queue b \<noteq> [] \<and> asks v' = asks v"
proof (cases r)
  case (Ready w)
  from inv r Ready have "inbox (sockets (broker s)) Backend
      = parts (report_frames (Ready w)) @ concat (map (parts \<circ> report_frames) rs)"
    by (simp add: lb_inv_def sees_def)
  from backend_ready [OF this] inv going r Ready show ?thesis
    by (intro exI [of _ False] exI [of _ "v\<lparr>reports := rs\<rparr>"] exI conjI) (auto simp: lb_inv_simps)
next
  case (Reply w c)
  have "c \<noteq> ''READY''" by (rule in_open [OF inv]) (simp add: open_clients_def r Reply)
  moreover from inv r Reply have "inbox (sockets (broker s)) Backend
      = parts (report_frames (Reply w c)) @ concat (map (parts \<circ> report_frames) rs)"
    by (simp add: lb_inv_def sees_def)
  ultimately have step: "lb_backend (broker s) = Some (client_count (broker s) - 1 = 0,
      (broker s)\<lparr>worker_queue := worker_queue (broker s) @ [w],
     sockets := (sockets (broker s))\<lparr>inbox := (inbox (sockets (broker s)))(Backend := concat (map (parts \<circ> report_frames) rs)),
       outbox := outbox (sockets (broker s)) @ order_frames (Answer c)\<rparr>,
     client_count := client_count (broker s) - 1\<rparr>)" by (intro backend_reply)
  let ?v = "v\<lparr>reports := rs, orders := orders v @ [Answer c]\<rparr>"
  show ?thesis unfolding step
    by (intro exI [of _ ?v] exI conjI, rule refl)
      (use inv going r Reply in \<open>auto simp: lb_inv_simps\<close>)
qed

lemma frontend_phase:
  assumes inv: "lb_inv cs ws s v" and a: "asks v = c # as" and q: "worker_queue (broker s) = w # q"
  shows "\<exists>b v'. lb_frontend (broker s) = Some b \<and> lb_inv cs ws (s\<lparr>broker := b\<rparr>) v' \<and>
    effort (s\<lparr>broker := b\<rparr>) v' < effort s v"
proof -
  let ?v = "v\<lparr>asks := as, orders := orders v @ [Request w c]\<rparr>"
  from inv a have "inbox (sockets (broker s)) Frontend
      = parts (envelope c client_thread) @ concat (map (\<lambda>c. parts (envelope c client_thread)) as)"
    by (simp add: lb_inv_def sees_def)
  note step = frontend_ask [OF this q]
  show ?thesis unfolding step
    by (intro exI [of _ ?v] exI conjI, rule refl) (use inv a q in \<open>auto simp: lb_inv_simps\<close>)
qed

lemma turn_phase:
  assumes inv: "lb_inv cs ws s v" and going: "\<not> stopped s" and wakes: "lb_wakes (broker s)"
  shows "\<exists>stop b v'. lb_turn (broker s) = Some (stop, b) \<and>
    lb_inv cs ws (s\<lparr>broker := b, stopped := stop\<rparr>) v' \<and>
    effort (s\<lparr>broker := b, stopped := stop\<rparr>) v' < effort s v"
proof -
  have sees: "sees s v" using inv by (simp add: lb_inv_def)
  have same: "s\<lparr>stopped := False\<rparr> = s" using going by simp
  show ?thesis
  proof (cases "reports v")
    case Nil
    with wakes obtain w q c as where q: "worker_queue (broker s) = w # q" and a: "asks v = c # as"
      by (cases "worker_queue (broker s)"; cases "asks v") (auto simp: lb_wakes_def readable_view [OF sees])
    from frontend_phase [OF inv a q] obtain b v' where
      "lb_frontend (broker s) = Some b" "lb_inv cs ws (s\<lparr>broker := b\<rparr>) v'"
      "effort (s\<lparr>broker := b\<rparr>) v' < effort s v" by blast
    with going show ?thesis
      by (intro exI [of _ False] exI [of _ b] exI [of _ v'])
        (simp add: lb_turn_def readable_view [OF sees] Nil q a lb_inv_simps)
  next
    case (Cons r rs)
    from backend_phase [OF inv going Cons] obtain stop b v' where
      b: "lb_backend (broker s) = Some (stop, b)" "lb_inv cs ws (s\<lparr>broker := b, stopped := stop\<rparr>) v'"
        "effort (s\<lparr>broker := b, stopped := stop\<rparr>) v' < effort s v" "worker_queue b \<noteq> []" "asks v' = asks v"
      by blast
    show ?thesis
    proof (cases "\<not> stop \<and> worker_queue (broker s) \<noteq> [] \<and> asks v \<noteq> []")
      case False
      then have "lb_turn (broker s) = Some (stop, b)"
        by (auto simp: lb_turn_def readable_view [OF sees] Cons b)
      with b show ?thesis by blast
    next
      case True
      then obtain c as w q where "asks v' = c # as"
          "worker_queue (broker (s\<lparr>broker := b, stopped := stop\<rparr>)) = w # q"
        using b(4,5) by (cases "asks v"; cases "worker_queue b") auto
      from frontend_phase [OF b(2) this] obtain b2 v2 where b2: "lb_frontend b = Some b2"
        "lb_inv cs ws (s\<lparr>broker := b, stopped := stop, broker := b2\<rparr>) v2"
        "effort (s\<lparr>broker := b, stopped := stop, broker := b2\<rparr>) v2
          < effort (s\<lparr>broker := b, stopped := stop\<rparr>) v'" by auto
      moreover have "s\<lparr>broker := b, stopped := stop, broker := b2\<rparr> = s\<lparr>broker := b2, stopped := stop\<rparr>"
        by simp
      ultimately have "lb_inv cs ws (s\<lparr>broker := b2, stopped := stop\<rparr>) v2"
        "effort (s\<lparr>broker := b2, stopped := stop\<rparr>) v2 < effort s v"
        using b(3) by (simp_all only:) 
      with True show ?thesis
        by (intro exI [of _ stop] exI [of _ b2] exI [of _ v2])
          (simp add: lb_turn_def readable_view [OF sees] Cons b b2(1))
    qed
  qed
qed

section \<open>The whole program\<close>

lemma worker_thread_ask: "worker_thread (envelope c client_thread) = Some [c, [], ''OK'']"
  by (simp add: worker_thread_def envelope_def client_thread_def)

text \<open>The first order in the outbox is a whole message.\<close>

lemma first_order:
  assumes "concat (map order_frames os) = post p (envelope q payload) @ rest"
  obtains (request) c os' where "os = Request q c # os'" "p = Backend" "payload = envelope c client_thread"
      "rest = concat (map order_frames os')"
  | (answer) os' where "os = Answer q # os'" "p = Frontend" "payload = [''OK'']"
      "rest = concat (map order_frames os')"
proof (cases os)
  case Nil
  with assms show thesis by (cases payload) (simp_all add: envelope_def)
next
  case (Cons o1 os')
  show thesis
  proof (cases o1)
    case (Request w c)
    with Cons assms have "post Backend (envelope w (envelope c client_thread)) @ concat (map order_frames os')
        = post p (envelope q payload) @ rest" by simp
    from post_inject [OF _ _ this] show thesis
      by (intro request [of c os']) (simp_all add: Cons Request, simp_all add: envelope_def)
  next
    case (Answer c)
    with Cons assms have "post Frontend (envelope c [''OK'']) @ concat (map order_frames os')
        = post p (envelope q payload) @ rest" by simp
    from post_inject [OF _ _ this] show thesis
      by (intro answer [of os']) (simp_all add: Cons Answer, simp_all add: envelope_def)
  qed
qed

lemma step_effort:
  "lb_step s t \<Longrightarrow> lb_inv cs ws s v \<Longrightarrow> \<exists>v'. lb_inv cs ws t v' \<and> effort t v' < effort s v"
proof (induction rule: lb_step.induct)
  case (client s cs1 c cs2)
  show ?case
    by (intro exI [of _ "v\<lparr>asks := asks v @ [c]\<rparr>"])
      (use client in \<open>auto simp: lb_inv_simps deliver_to_def\<close>)
next
  case (worker s ws1 w ws2)
  show ?case
    by (intro exI [of _ "v\<lparr>reports := reports v @ [Ready w]\<rparr>"])
      (use worker in \<open>auto simp: lb_inv_simps deliver_to_def\<close>)
next
  case (turn s stop b)
  from turn_phase [OF turn.prems turn.hyps(1,2)] turn.hyps(3) show ?case by auto
next
  case (request s w payload rest)
  from request have "concat (map order_frames (orders v)) = post Backend (envelope w payload) @ rest"
    by (simp add: lb_inv_def sees_def)
  then show ?case
  proof (cases rule: first_order)
    case orders: (request c os)
    show ?thesis
      by (intro exI [of _ "v\<lparr>orders := os, busy := busy v @ [(w, c)]\<rparr>"])
        (use request orders in \<open>auto simp: lb_inv_simps\<close>)
  qed simp
next
  case (answer s c payload rest)
  from answer have "concat (map order_frames (orders v)) = post Frontend (envelope c payload) @ rest"
    by (simp add: lb_inv_def sees_def)
  then show ?case
  proof (cases rule: first_order)
    case orders: (answer os)
    show ?thesis
      by (intro exI [of _ "v\<lparr>orders := os\<rparr>"])
        (use answer orders in \<open>auto simp: lb_inv_simps\<close>)
  qed simp
next
  case (reply s us w payload us' out)
  from reply.prems have "map (\<lambda>(w, c). (w, envelope c client_thread)) (busy v) = us @ (w, payload) # us'"
    unfolding reply.hyps(1) [symmetric] by (simp add: lb_inv_def sees_def)
  then obtain bs c bs' where b: "busy v = bs @ (w, c) # bs'" "payload = envelope c client_thread"
      "us = map (\<lambda>(w, c). (w, envelope c client_thread)) bs"
      "us' = map (\<lambda>(w, c). (w, envelope c client_thread)) bs'"
    by (auto simp: map_eq_append_conv map_eq_Cons_conv)
  with reply.hyps(2) have "out = [c, [], ''OK'']" by (simp add: worker_thread_ask)
  then show ?case
    by (intro exI [of _ "v\<lparr>busy := bs @ bs', reports := reports v @ [Reply w c]\<rparr>"])
      (use reply b in \<open>auto simp: lb_inv_simps deliver_to_def\<close>)
qed

lemma lb_start_inv:
  assumes "''READY'' \<notin> set cs" and "cs \<noteq> []"
  shows "\<exists>v. lb_inv cs ws (lb_start cs ws) v \<and> effort (lb_start cs ws) v = 6 * length cs + 2 * length ws"
  using assms
  by (intro exI [of _ "\<lparr>reports = [], asks = [], orders = [], busy = []\<rparr>"]) (auto simp: lb_inv_simps lb_start_def)

interpretation lb: bounded_system lb_step "lb_inv cs ws" effort "\<lambda>_. 0"
  by unfold_locales (drule (1) step_effort, auto simp: Suc_le_eq)

lemma lb_run_inv:
  assumes "(lb_step ^^ n) (lb_start cs ws) s" and "''READY'' \<notin> set cs" and "cs \<noteq> []"
  shows "\<exists>v. lb_inv cs ws s v \<and> effort s v + n \<le> 6 * length cs + 2 * length ws"
proof -
  from lb_start_inv [OF assms(2,3)] obtain v where
    "lb_inv cs ws (lb_start cs ws) v" "effort (lb_start cs ws) v = 6 * length cs + 2 * length ws" by blast
  with lb.run_effort [OF assms(1)] show ?thesis by (fastforce simp: add.commute)
qed

text \<open>A state without a next step is one where everything is done.\<close>

lemma lb_stuck_done:
  assumes inv: "lb_inv cs ws s v" and w: "ws \<noteq> []" and stuck: "\<nexists>t. lb_step s t"
  shows "stopped s \<and> mset (map fst (answered s)) = mset cs"
proof -
  note defs = lb_inv_def sees_def open_clients_def closed_clients_def all_workers_def
  have sees: "sees s v" using inv by (simp add: lb_inv_def)
  have f: "fresh_clients s = []" "fresh_workers s = []"
    using stuck lb_step.client [of s "[]"] lb_step.worker [of s "[]"]
    by (cases "fresh_clients s"; cases "fresh_workers s"; fastforce)+
  have o: "orders v = []"
  proof (cases "orders v")
    case (Cons x os)
    have out: "outbox (sockets (broker s)) = order_frames x @ concat (map order_frames os)"
      using sees by (simp add: sees_def Cons)
    with stuck lb_step.request [of s] lb_step.answer [of s] show ?thesis
      by (cases x) (metis order_frames.simps)+
  qed simp
  have b: "busy v = []"
  proof (cases "busy v")
    case (Cons x bs)
    obtain w c where x: "x = (w, c)" by fastforce
    then have "working s = [] @ (w, envelope c client_thread) # map (\<lambda>(w, c). (w, envelope c client_thread)) bs"
      using sees by (simp add: sees_def Cons)
    from lb_step.reply [OF this worker_thread_ask] stuck show ?thesis by blast
  qed simp
  have "stopped s"
  proof (rule ccontr)
    assume going: "\<not> stopped s"
    with inv have "asks v \<noteq> [] \<or> reports v \<noteq> []"
      by (auto simp: defs f o b)
    moreover have "worker_queue (broker s) \<noteq> []" if "reports v = []"
      using inv w that by (auto simp: defs f o b)
    ultimately have "lb_wakes (broker s)" by (auto simp: lb_wakes_def readable_view [OF sees])
    from turn_phase [OF inv going this] lb_step.turn [OF going this] stuck show False by blast
  qed
  with inv have "client_count (broker s) = 0" unfolding lb_inv_def by blast
  moreover from inv have "client_count (broker s) = int (size (open_clients s v))"
    unfolding lb_inv_def by blast
  ultimately have "open_clients s v = {#}" by simp
  with inv \<open>stopped s\<close> show ?thesis by (simp add: lb_inv_def closed_clients_def o)
qed

lemma all_ok:
  "\<forall>a\<in>set as. snd a = [''OK''] \<Longrightarrow> mset as = image_mset (\<lambda>c. (c, [''OK''])) (mset (map fst as))"
  by (induction as) auto

text \<open>
  C7: the whole program of broker, clients and workers serves every client exactly once and ends. In every
  interleaving the broker never fails an assertion, never blocks in the middle of a message and never takes
  a worker from an empty queue; no client is answered twice, and no worker is given a second client while it
  serves one; a run has at most six steps per client
  and two per worker; and where no step is left the broker has left its loop and every client has
  got its one answer.
\<close>

theorem lb_serves_every_client:
  assumes "(lb_step ^^ n) (lb_start cs ws) s" and "''READY'' \<notin> set cs" and "cs \<noteq> []" and "ws \<noteq> []"
  shows "n \<le> 6 * length cs + 2 * length ws \<and>
    (\<not> stopped s \<and> lb_wakes (broker s) \<longrightarrow> lb_turn (broker s) \<noteq> None) \<and>
    mset (map fst (answered s)) \<subseteq># mset cs \<and> mset (map fst (working s)) \<subseteq># mset ws \<and>
    ((\<nexists>t. lb_step s t) \<longrightarrow> stopped s \<and> mset (answered s) = image_mset (\<lambda>c. (c, [''OK''])) (mset cs))"
proof -
  from lb_run_inv [OF assms(1-3)] obtain v where v: "lb_inv cs ws s v" "effort s v + n \<le> 6 * length cs + 2 * length ws"
    by blast
  have "mset (map fst (answered s)) \<subseteq># open_clients s v + closed_clients s v"
    by (simp add: closed_clients_def subset_mset.add_increasing)
  with v(1) have "mset (map fst (answered s)) \<subseteq># mset cs" by (simp add: lb_inv_def)
  moreover have "mset (map fst (working s)) \<subseteq># mset ws"
  proof -
    have "map fst (working s) = map fst (busy v)" using v(1) by (simp add: lb_inv_def sees_def comp_def case_prod_beta)
    then have "mset (map fst (working s)) \<subseteq># all_workers s v" by (simp add: all_workers_def)
    with v(1) show ?thesis by (simp add: lb_inv_def)
  qed
  moreover have "\<not> stopped s \<and> lb_wakes (broker s) \<longrightarrow> lb_turn (broker s) \<noteq> None"
    using turn_phase [OF v(1)] by auto
  moreover have "stopped s \<and> mset (answered s) = image_mset (\<lambda>c. (c, [''OK''])) (mset cs)" if "\<nexists>t. lb_step s t"
    using lb_stuck_done [OF v(1) assms(4) that] all_ok [of "answered s"] v(1) by (simp add: lb_inv_def)
  ultimately show ?thesis using v(2) by auto
qed

theorem lb_serves_every_client_witness:
  "mset (map fst (answered (deliver_to Backend (envelope ''w'' worker_ready) (lb_start [''c''] [''w''])
     \<lparr>fresh_workers := []\<rparr>))) \<subseteq># {#''c''#} \<and> Suc 0 \<le> 6 + 2"
proof -
  have "lb_step (lb_start [''c''] [''w''])
      (deliver_to Backend (envelope ''w'' worker_ready) ((lb_start [''c''] [''w''])\<lparr>fresh_workers := [] @ []\<rparr>))"
    by (rule lb_step.worker) (simp add: lb_start_def)
  then have "(lb_step ^^ Suc 0) (lb_start [''c''] [''w''])
      (deliver_to Backend (envelope ''w'' worker_ready) ((lb_start [''c''] [''w''])\<lparr>fresh_workers := [] @ []\<rparr>))"
    by auto
  from lb_serves_every_client [OF this] show ?thesis by (simp add: deliver_to_def)
qed

end
