(* ===== verification/Peering_Broker.thy ===== *)
theory Peering_Broker
  imports Zmq_Wire
begin

text \<open>
  The main loop of the peering broker (\<^verbatim>\<open>example/peering1.cpp\<close>) over its four sockets. The program
  polls with timeout 0, so a pass of the loop is always possible and messages may arrive between any
  two passes; a run is a list of arrivals and passes in any order.
\<close>

section \<open>The code\<close>

datatype port = Localfe | Localbe | Cloudfe | Cloudbe

text \<open>
  The state of the loop, with the last peer of the command line (the global \<^verbatim>\<open>cloud\<close>, null without
  peers) and whether the next poll is the one of the inner loop.
\<close>

record pb =
  sockets :: "port wire"
  worker_queue :: "frame list"
  capacity :: int
  cloud :: "frame option"
  inner :: bool

definition pb_start :: "frame option \<Rightarrow> pb" where
  "pb_start peer = \<lparr>sockets = \<lparr>inbox = \<lambda>_. [], outbox = []\<rparr>, worker_queue = [], capacity = 0,
     cloud = peer, inner = False\<rparr>"

text \<open>A worker reports: it is ready again, and a reply it carries is passed on as a success.\<close>

definition pb_localbe :: "pb \<Rightarrow> pb option" where
  "pb_localbe b = do {
     (work_identity, w) \<leftarrow> canna_recv Localbe (sockets b);
     (delim, w) \<leftarrow> canna_recv Localbe w;
     let b = b\<lparr>worker_queue := worker_queue b @ [work_identity], capacity := capacity b + 1\<rparr>;
     (client_addr, w) \<leftarrow> canna_recv Localbe w;
     if client_addr = ''READY'' then Some (b\<lparr>sockets := w\<rparr>)
     else do {
       (delim, w) \<leftarrow> canna_recv Localbe w;
       (reply, w) \<leftarrow> canna_recv Localbe w;
       let w = canna_sendmore Localfe client_addr w;
       let w = canna_sendmore Localfe [] w;
       let w = canna_send Localfe ''SUCCESS'' w;
       Some (b\<lparr>sockets := w\<rparr>) } }"

text \<open>An answer of another broker is only printed, its question acknowledged.\<close>

definition pb_cloudbe :: "pb \<Rightarrow> pb option" where
  "pb_cloudbe b = do {
     (cloud_identity, w) \<leftarrow> canna_recv Cloudbe (sockets b);
     (reply, w) \<leftarrow> canna_recv Cloudbe w;
     Some (b\<lparr>sockets := w\<rparr>) }"

definition pb_cloudfe :: "pb \<Rightarrow> pb option" where
  "pb_cloudfe b = do {
     (cloud_identity, w) \<leftarrow> canna_recv Cloudfe (sockets b);
     (reply, w) \<leftarrow> canna_recv Cloudfe w;
     Some (b\<lparr>sockets := canna_send Cloudfe ''ACK ECHO'' (canna_sendmore Cloudfe cloud_identity w)\<rparr>) }"

text \<open>
  A client asks: the peer is told, and the oldest ready worker gets the work. Without a peer the
  string is made from a null pointer, without a ready worker the front of an empty queue is
  taken; both are undefined and have no result.
\<close>

definition pb_localfe :: "pb \<Rightarrow> pb option" where
  "pb_localfe b = do {
     (identity, w) \<leftarrow> canna_recv Localfe (sockets b);
     (delim, w) \<leftarrow> canna_recv Localfe w;
     (reply, w) \<leftarrow> canna_recv Localfe w;
     peer \<leftarrow> cloud b;
     let w = canna_send Cloudbe ''CLOUD'' (canna_sendmore Cloudbe peer w);
     case worker_queue b of
       [] \<Rightarrow> None
     | worker_addr # rest \<Rightarrow>
         Some (b\<lparr>worker_queue := rest, capacity := capacity b - 1,
           sockets := canna_send Localbe ''WORLD'' (canna_sendmore Localbe [] (canna_sendmore Localbe identity
             (canna_sendmore Localbe [] (canna_sendmore Localbe worker_addr w))))\<rparr>) }"

text \<open>
  One pass: the poll of the backends and its two branches, after which the inner loop is entered
  if there is capacity; or the poll of the frontends and its two branches, after which the inner
  loop goes on if a client was served and there is capacity left.
\<close>

definition pb_pass :: "pb \<Rightarrow> pb option" where
  "pb_pass b =
     (if inner b
      then do {
        let client = readable Localfe (sockets b);
        b \<leftarrow> (if readable Cloudfe (sockets b) then pb_cloudfe b else Some b);
        if client then do { b \<leftarrow> pb_localfe b; Some (b\<lparr>inner := (capacity b \<noteq> 0)\<rparr>) }
        else Some (b\<lparr>inner := False\<rparr>) }
      else do {
        let peer = readable Cloudbe (sockets b);
        b \<leftarrow> (if readable Localbe (sockets b) then pb_localbe b else Some b);
        b \<leftarrow> (if peer then pb_cloudbe b else Some b);
        Some (b\<lparr>inner := (capacity b \<noteq> 0)\<rparr>) })"

section \<open>Runs\<close>

text \<open>
  What can arrive: a worker's announcement, a worker's reply to a client, a client's question, and
  the questions and answers of other brokers, each in the envelope of its ROUTER socket.
\<close>

datatype arrival =
    Ready frame
  | Reply frame frame frame
  | Ask frame frame
  | Peer_asks frame frame
  | Peer_answers frame frame

fun arrival_port :: "arrival \<Rightarrow> port" where
  "arrival_port (Ready w) = Localbe"
| "arrival_port (Reply w c r) = Localbe"
| "arrival_port (Ask c q) = Localfe"
| "arrival_port (Peer_asks p m) = Cloudfe"
| "arrival_port (Peer_answers p m) = Cloudbe"

fun arrival_frames :: "arrival \<Rightarrow> frame list" where
  "arrival_frames (Ready w) = [w, [], ''READY'']"
| "arrival_frames (Reply w c r) = [w, [], c, [], r]"
| "arrival_frames (Ask c q) = [c, [], q]"
| "arrival_frames (Peer_asks p m) = [p, m]"
| "arrival_frames (Peer_answers p m) = [p, m]"

datatype action = Arrive arrival | Pass

definition pb_action :: "action \<Rightarrow> pb \<Rightarrow> pb option" where
  "pb_action a b =
     (case a of
        Arrive m \<Rightarrow> Some (b\<lparr>sockets := arrive (arrival_port m) (arrival_frames m) (sockets b)\<rparr>)
      | Pass \<Rightarrow> pb_pass b)"

fun pb_run :: "action list \<Rightarrow> pb \<Rightarrow> pb option" where
  "pb_run [] b = Some b"
| "pb_run (a # as) b = do { b \<leftarrow> pb_action a b; pb_run as b }"

text \<open>What arrived at a port, and what was sent from it.\<close>

definition arrived :: "port \<Rightarrow> action list \<Rightarrow> arrival list" where
  "arrived p as = concat (map (\<lambda>a. case a of Arrive m \<Rightarrow> if arrival_port m = p then [m] else [] | Pass \<Rightarrow> []) as)"

definition sent_from :: "port \<Rightarrow> pb \<Rightarrow> (port \<times> frame \<times> bool) list" where
  "sent_from p b = filter (\<lambda>m. fst m = p) (outbox (sockets b))"

section \<open>The dispatch invariant\<close>

fun sender :: "arrival \<Rightarrow> frame" where
  "sender (Ready w) = w"
| "sender (Reply w c r) = w"
| "sender (Ask c q) = c"
| "sender (Peer_asks p m) = p"
| "sender (Peer_answers p m) = p"

fun passed_on :: "arrival \<Rightarrow> (port \<times> frame \<times> bool) list" where
  "passed_on (Reply w c r) = post Localfe [c, [], ''SUCCESS'']"
| "passed_on _ = []"

text \<open>
  The \<open>i\<close>-th order: the worker of the \<open>i\<close>-th report gets the client of the \<open>i\<close>-th question.
\<close>

definition order :: "action list \<Rightarrow> nat \<Rightarrow> (port \<times> frame \<times> bool) list" where
  "order as i = post Localbe
     [sender (arrived Localbe as ! i), [], sender (arrived Localfe as ! i), [], ''WORLD'']"

text \<open>After \<open>n\<close> reports and \<open>k\<close> questions were taken off the sockets.\<close>

definition dispatched :: "action list \<Rightarrow> nat \<Rightarrow> nat \<Rightarrow> pb \<Rightarrow> bool" where
  "dispatched as n k b \<longleftrightarrow> k \<le> n \<and> n \<le> length (arrived Localbe as) \<and> k \<le> length (arrived Localfe as) \<and>
     worker_queue b = drop k (map sender (take n (arrived Localbe as))) \<and>
     capacity b = int (length (worker_queue b)) \<and>
     sent_from Localbe b = concat (map (order as) [0..<k]) \<and>
     sent_from Localfe b = concat (map passed_on (take n (arrived Localbe as)))"

text \<open>What is still in the inbox of each port is what arrived after the first \<open>n p\<close> messages.\<close>

definition pending :: "action list \<Rightarrow> (port \<Rightarrow> nat) \<Rightarrow> pb \<Rightarrow> bool" where
  "pending as n b \<longleftrightarrow>
     (\<forall>p. n p \<le> length (arrived p as) \<and> inbox (sockets b) p = concat (map (parts \<circ> arrival_frames) (drop (n p) (arrived p as))))"

definition pb_mid :: "action list \<Rightarrow> (port \<Rightarrow> nat) \<Rightarrow> pb \<Rightarrow> bool" where
  "pb_mid as n b \<longleftrightarrow> pending as n b \<and> dispatched as (n Localbe) (n Localfe) b \<and> cloud b \<noteq> None"

definition pb_inv :: "action list \<Rightarrow> (port \<Rightarrow> nat) \<Rightarrow> pb \<Rightarrow> bool" where
  "pb_inv as n b \<longleftrightarrow> pb_mid as n b \<and> (inner b \<longrightarrow> capacity b \<noteq> 0)"

definition proper :: "action list \<Rightarrow> bool" where
  "proper as \<longleftrightarrow> (\<forall>w r. Arrive (Reply w ''READY'' r) \<notin> set as)"

lemma pb_frames_nonempty [simp]: "arrival_frames m \<noteq> []"
  by (cases m) simp_all

text \<open>A readable port has a first message.\<close>

lemma next_message:
  assumes "pending as n b" and "readable p (sockets b)"
  obtains m where "arrived p as ! n p = m" and "n p < length (arrived p as)" and "m \<in> set (arrived p as)"
    and "inbox (sockets b) p = parts (arrival_frames m) @
      concat (map (parts \<circ> arrival_frames) (drop (Suc (n p)) (arrived p as)))"
proof (cases "n p < length (arrived p as)")
  case True
  then have "drop (n p) (arrived p as) = arrived p as ! n p # drop (Suc (n p)) (arrived p as)"
    by (simp add: Cons_nth_drop_Suc)
  with assms True show thesis
    by (intro that [of "arrived p as ! n p"]) (simp_all add: pending_def)
next
  case False
  with assms show thesis by (simp add: pending_def readable_def)
qed

lemma arrived_port: "m \<in> set (arrived p as) \<Longrightarrow> arrival_port m = p \<and> Arrive m \<in> set as"
  by (auto simp: arrived_def split: action.splits if_splits)

lemma pending_taken:
  assumes "pending as n b" and "n p < length (arrived p as)"
    and "sockets b' = (sockets b)\<lparr>inbox := (inbox (sockets b))(p :=
      concat (map (parts \<circ> arrival_frames) (drop (Suc (n p)) (arrived p as)))), outbox := out\<rparr>"
  shows "pending as (n(p := Suc (n p))) b'"
  using assms by (auto simp: pending_def)

lemmas handler_simps = canna_recv_def canna_send_def canna_sendmore_def Let_def

lemma sent_from_append [simp]:
  "sent_from p (b\<lparr>sockets := (sockets b)\<lparr>inbox := i, outbox := outbox (sockets b) @ out\<rparr>\<rparr>)
    = sent_from p b @ filter (\<lambda>m. fst m = p) out"
  by (simp add: sent_from_def)

lemma dispatched_report:
  assumes "dispatched as n k b" and "n < length (arrived Localbe as)"
    and "worker_queue b' = worker_queue b @ [sender (arrived Localbe as ! n)]"
    and "capacity b' = capacity b + 1" and "sent_from Localbe b' = sent_from Localbe b"
    and "sent_from Localfe b' = sent_from Localfe b @ passed_on (arrived Localbe as ! n)"
  shows "dispatched as (Suc n) k b'"
  using assms by (auto simp: dispatched_def take_Suc_conv_app_nth)

lemma dispatched_order:
  assumes "dispatched as n k b" and "k < length (arrived Localfe as)" and "worker_queue b = w # q"
    and "worker_queue b' = q" and "capacity b' = capacity b - 1"
    and "sent_from Localbe b' = sent_from Localbe b @ post Localbe [w, [], sender (arrived Localfe as ! k), [], ''WORLD'']"
    and "sent_from Localfe b' = sent_from Localfe b"
  shows "dispatched as n (Suc k) b'"
proof -
  have q: "drop k (map sender (take n (arrived Localbe as))) = w # q"
    using assms(1,3) by (simp add: dispatched_def)
  then have "k < n" "k < length (arrived Localbe as)"
    by (auto simp: not_le [symmetric] simp del: not_le)
  moreover from q this have "w = sender (arrived Localbe as ! k)" and "q = drop (Suc k) (map sender (take n (arrived Localbe as)))"
    using Cons_nth_drop_Suc [of k "map sender (take n (arrived Localbe as))"] by simp_all
  ultimately show ?thesis using assms by (auto simp: dispatched_def order_def)
qed

text \<open>The four handlers on well-formed inboxes.\<close>

lemma localbe_step:
  assumes mid: "pb_mid as n b" and r: "readable Localbe (sockets b)" and ok: "proper as"
  shows "\<exists>b'. pb_localbe b = Some b' \<and> pb_mid as (n(Localbe := Suc (n Localbe))) b' \<and>
    inbox (sockets b') Cloudbe = inbox (sockets b) Cloudbe"
proof -
  from mid r obtain m where m: "arrived Localbe as ! n Localbe = m" "n Localbe < length (arrived Localbe as)"
      "m \<in> set (arrived Localbe as)" and i: "inbox (sockets b) Localbe = parts (arrival_frames m) @
      concat (map (parts \<circ> arrival_frames) (drop (Suc (n Localbe)) (arrived Localbe as)))"
    by (auto simp: pb_mid_def elim: next_message)
  let ?rest = "concat (map (parts \<circ> arrival_frames) (drop (Suc (n Localbe)) (arrived Localbe as)))"
  define b' where "b' = b\<lparr>worker_queue := worker_queue b @ [sender m], capacity := capacity b + 1,
    sockets := (sockets b)\<lparr>inbox := (inbox (sockets b))(Localbe := ?rest),
      outbox := outbox (sockets b) @ passed_on m\<rparr>\<rparr>"
  have "pb_localbe b = Some b'"
    using arrived_port [OF m(3)] ok i
    by (cases m) (auto simp: pb_localbe_def handler_simps b'_def proper_def)
  moreover have "pending as (n(Localbe := Suc (n Localbe))) b'"
    using mid m by (intro pending_taken [where b = b]) (simp_all add: pb_mid_def b'_def)
  moreover have "dispatched as (Suc (n Localbe)) (n Localfe) b'"
    using mid m arrived_port [OF m(3)]
    by (intro dispatched_report [where b = b]; cases m) (simp_all add: pb_mid_def b'_def sent_from_def)
  ultimately show ?thesis using mid by (simp add: pb_mid_def) (simp add: b'_def)
qed

lemma peer_step:
  assumes mid: "pb_mid as n b" and r: "readable p (sockets b)"
    and p: "p = Cloudbe \<and> handler = pb_cloudbe \<or> p = Cloudfe \<and> handler = pb_cloudfe"
  shows "\<exists>b'. handler b = Some b' \<and> pb_mid as (n(p := Suc (n p))) b' \<and>
    inbox (sockets b') Localfe = inbox (sockets b) Localfe \<and> worker_queue b' = worker_queue b"
proof -
  from mid r obtain m where m: "m \<in> set (arrived p as)" and l: "n p < length (arrived p as)"
    and i: "inbox (sockets b) p = parts (arrival_frames m) @
      concat (map (parts \<circ> arrival_frames) (drop (Suc (n p)) (arrived p as)))"
    by (auto simp: pb_mid_def elim: next_message)
  let ?rest = "concat (map (parts \<circ> arrival_frames) (drop (Suc (n p)) (arrived p as)))"
  define b' where "b' = b\<lparr>sockets := (sockets b)\<lparr>inbox := (inbox (sockets b))(p := ?rest),
      outbox := outbox (sockets b) @ (if p = Cloudfe then post Cloudfe [sender m, ''ACK ECHO''] else [])\<rparr>\<rparr>"
  have "handler b = Some b'"
    using arrived_port [OF m] p i
    by (cases m) (auto simp: pb_cloudbe_def pb_cloudfe_def handler_simps b'_def)
  moreover have "pending as (n(p := Suc (n p))) b'"
    using mid l by (intro pending_taken [where b = b]) (simp_all add: pb_mid_def b'_def)
  moreover have "sent_from q b' = sent_from q b" if "q = Localbe \<or> q = Localfe" for q
    using that by (auto simp: b'_def sent_from_def post_def)
  then have "dispatched as (n Localbe) (n Localfe) b'"
    using mid by (simp add: pb_mid_def dispatched_def b'_def)
  ultimately show ?thesis using mid p by (auto simp: pb_mid_def b'_def)
qed

lemma localfe_step:
  assumes mid: "pb_mid as n b" and r: "readable Localfe (sockets b)" and q: "worker_queue b = v # vs"
  shows "\<exists>b'. pb_localfe b = Some b' \<and> pb_mid as (n(Localfe := Suc (n Localfe))) b'"
proof -
  from mid r obtain m where m: "arrived Localfe as ! n Localfe = m" "n Localfe < length (arrived Localfe as)"
      "m \<in> set (arrived Localfe as)" and i: "inbox (sockets b) Localfe = parts (arrival_frames m) @
      concat (map (parts \<circ> arrival_frames) (drop (Suc (n Localfe)) (arrived Localfe as)))"
    by (auto simp: pb_mid_def elim: next_message)
  from mid obtain peer where peer: "cloud b = Some peer" by (auto simp: pb_mid_def)
  let ?rest = "concat (map (parts \<circ> arrival_frames) (drop (Suc (n Localfe)) (arrived Localfe as)))"
  define b' where "b' = b\<lparr>worker_queue := vs, capacity := capacity b - 1,
    sockets := (sockets b)\<lparr>inbox := (inbox (sockets b))(Localfe := ?rest),
      outbox := outbox (sockets b) @ post Cloudbe [peer, ''CLOUD''] @
        post Localbe [v, [], sender m, [], ''WORLD'']\<rparr>\<rparr>"
  have "pb_localfe b = Some b'"
    using arrived_port [OF m(3)] i q
    by (cases m) (auto simp: pb_localfe_def handler_simps b'_def peer)
  moreover have "pending as (n(Localfe := Suc (n Localfe))) b'"
    using mid m by (intro pending_taken [where b = b]) (simp_all add: pb_mid_def b'_def)
  moreover have "dispatched as (n Localbe) (Suc (n Localfe)) b'"
    using mid m q by (intro dispatched_order [where b = b]) (simp_all add: pb_mid_def b'_def sent_from_def)
  ultimately show ?thesis using mid by (simp add: pb_mid_def) (simp add: b'_def)
qed

section \<open>Passes\<close>

lemma pass_step:
  assumes inv: "pb_inv as n b" and ok: "proper as"
  shows "\<exists>b' n'. pb_pass b = Some b' \<and> pb_inv as n' b' \<and>
    n' Localbe = n Localbe + (if \<not> inner b \<and> readable Localbe (sockets b) then 1 else 0) \<and>
    n' Localfe = n Localfe + (if inner b \<and> readable Localfe (sockets b) then 1 else 0) \<and>
    inner b' = (\<not> (inner b \<and> \<not> readable Localfe (sockets b)) \<and> capacity b' \<noteq> 0)"
proof -
  have mid: "pb_mid as n b" using inv by (simp add: pb_inv_def)
  show ?thesis
  proof (cases "inner b")
    case True
    have "\<exists>b1 n1. (if readable Cloudfe (sockets b) then pb_cloudfe b else Some b) = Some b1 \<and> pb_mid as n1 b1 \<and>
        inbox (sockets b1) Localfe = inbox (sockets b) Localfe \<and> worker_queue b1 = worker_queue b \<and>
        n1 Localbe = n Localbe \<and> n1 Localfe = n Localfe"
      using peer_step [OF mid, of Cloudfe pb_cloudfe] mid by (cases "readable Cloudfe (sockets b)") fastforce+
    then obtain b1 n1 where b1: "(if readable Cloudfe (sockets b) then pb_cloudfe b else Some b) = Some b1"
        "pb_mid as n1 b1" "inbox (sockets b1) Localfe = inbox (sockets b) Localfe" "worker_queue b1 = worker_queue b"
        "n1 Localbe = n Localbe" "n1 Localfe = n Localfe"
      by blast
    show ?thesis
    proof (cases "readable Localfe (sockets b)")
      case client: True
      have "worker_queue b \<noteq> []"
        using inv True by (auto simp: pb_inv_def pb_mid_def dispatched_def)
      then obtain v vs where "worker_queue b1 = v # vs" using b1(4) by (cases "worker_queue b") auto
      moreover have "readable Localfe (sockets b1)" using client b1(3) by (simp add: readable_def)
      ultimately obtain b2 where "pb_localfe b1 = Some b2" "pb_mid as (n1(Localfe := Suc (n1 Localfe))) b2"
        using localfe_step [OF b1(2)] by blast
      then show ?thesis using True client b1(1,5,6)
        by (intro exI [of _ "b2\<lparr>inner := (capacity b2 \<noteq> 0)\<rparr>"] exI [of _ "n1(Localfe := Suc (n1 Localfe))"])
          (simp add: pb_pass_def pb_inv_def pb_mid_def pending_def dispatched_def sent_from_def)
    next
      case False
      then show ?thesis using True b1(1,2,5,6)
        by (intro exI [of _ "b1\<lparr>inner := False\<rparr>"] exI [of _ n1])
          (simp add: pb_pass_def pb_inv_def pb_mid_def pending_def dispatched_def sent_from_def)
    qed
  next
    case False
    have "\<exists>b1 n1. (if readable Localbe (sockets b) then pb_localbe b else Some b) = Some b1 \<and> pb_mid as n1 b1 \<and>
        inbox (sockets b1) Cloudbe = inbox (sockets b) Cloudbe \<and> n1 Localfe = n Localfe \<and>
        n1 Localbe = n Localbe + (if readable Localbe (sockets b) then 1 else 0)"
      using localbe_step [OF mid _ ok] mid by (cases "readable Localbe (sockets b)") fastforce+
    then obtain b1 n1 where b1: "(if readable Localbe (sockets b) then pb_localbe b else Some b) = Some b1"
        "pb_mid as n1 b1" "inbox (sockets b1) Cloudbe = inbox (sockets b) Cloudbe" "n1 Localfe = n Localfe"
        "n1 Localbe = n Localbe + (if readable Localbe (sockets b) then 1 else 0)" by blast
    have "\<exists>b2 n2. (if readable Cloudbe (sockets b) then pb_cloudbe b1 else Some b1) = Some b2 \<and> pb_mid as n2 b2 \<and>
        n2 Localbe = n1 Localbe \<and> n2 Localfe = n1 Localfe"
      using peer_step [OF b1(2), of Cloudbe pb_cloudbe] b1(2,3)
      by (cases "readable Cloudbe (sockets b)") (fastforce simp: readable_def)+
    then obtain b2 n2 where "(if readable Cloudbe (sockets b) then pb_cloudbe b1 else Some b1) = Some b2"
        "pb_mid as n2 b2" "n2 Localbe = n1 Localbe" "n2 Localfe = n1 Localfe" by blast
    then show ?thesis using False b1(1,4,5)
      by (intro exI [of _ "b2\<lparr>inner := (capacity b2 \<noteq> 0)\<rparr>"] exI [of _ n2])
        (simp add: pb_pass_def pb_inv_def pb_mid_def pending_def dispatched_def sent_from_def)
  qed
qed

lemma arrived_append: "arrived p (as @ [Arrive m]) = arrived p as @ (if arrival_port m = p then [m] else [])"
  "arrived p (as @ [Pass]) = arrived p as"
  by (simp_all add: arrived_def)

lemma dispatched_later:
  assumes "dispatched as n k b" and "sockets b' = (sockets b)\<lparr>inbox := i\<rparr>"
    and "worker_queue b' = worker_queue b" and "capacity b' = capacity b"
  shows "dispatched (as @ [a]) n k b'"
proof -
  have "\<exists>xs. arrived p (as @ [a]) = arrived p as @ xs" for p by (cases a) (simp_all add: arrived_append)
  then obtain f where f: "\<And>p. arrived p (as @ [a]) = arrived p as @ f p" by metis
  from assms show ?thesis
    by (auto simp: dispatched_def f sent_from_def order_def nth_append intro!: arg_cong [where f = concat])
qed

lemma action_step:
  assumes inv: "pb_inv as n b" and ok: "proper (as @ [a])"
  shows "\<exists>b' n'. pb_action a b = Some b' \<and> pb_inv (as @ [a]) n' b'"
proof (cases a)
  case (Arrive m)
  show ?thesis
    by (intro exI [of _ "b\<lparr>sockets := arrive (arrival_port m) (arrival_frames m) (sockets b)\<rparr>"] exI [of _ n])
      (use inv in \<open>auto simp: pb_action_def Arrive pb_inv_def pb_mid_def pending_def arrived_append le_SucI
        arrive_def intro: dispatched_later\<close>)
next
  case Pass
  from ok have "proper as" by (simp add: proper_def)
  from pass_step [OF inv this] obtain b' n' where b': "pb_pass b = Some b'" "pb_inv as n' b'" by blast
  have "dispatched (as @ [Pass]) (n' Localbe) (n' Localfe) b'"
    using b'(2) by (intro dispatched_later [where b = b' and i = "inbox (sockets b')"])
      (simp_all add: pb_inv_def pb_mid_def)
  with b' show ?thesis
    by (intro exI [of _ b'] exI [of _ n']) (simp add: pb_action_def Pass pb_inv_def pb_mid_def pending_def arrived_append)
qed

lemma pb_run_snoc: "pb_run (as @ [a]) b = do { b \<leftarrow> pb_run as b; pb_action a b }"
  by (induction as arbitrary: b) (simp_all split: bind_split)

lemma pb_run_inv:
  "proper as \<Longrightarrow> \<exists>b n. pb_run as (pb_start (Some peer)) = Some b \<and> pb_inv as n b"
proof (induction as rule: rev_induct)
  case Nil
  show ?case
    by (intro exI [of _ "pb_start (Some peer)"] exI [of _ "\<lambda>_. 0"])
      (simp add: pb_inv_def pb_mid_def pending_def dispatched_def pb_start_def arrived_def sent_from_def)
next
  case (snoc a as)
  then have "proper as" by (simp add: proper_def)
  with snoc.IH obtain b n where b: "pb_run as (pb_start (Some peer)) = Some b" "pb_inv as n b" by blast
  from action_step [OF b(2) snoc.prems] b(1) show ?case by (simp add: pb_run_snoc)
qed

text \<open>
  The work left without further arrivals: every pass reduces it until no report is waiting and
  either no question is or no worker is ready.
\<close>

definition work_left :: "action list \<Rightarrow> (port \<Rightarrow> nat) \<Rightarrow> pb \<Rightarrow> nat" where
  "work_left as n b =
     (let reports = length (arrived Localbe as) - n Localbe;
          questions = length (arrived Localfe as) - n Localfe
      in 2 * reports + 2 * questions + (if (if inner b then questions else reports) = 0 then 1 else 0))"

definition quiet :: "action list \<Rightarrow> (port \<Rightarrow> nat) \<Rightarrow> bool" where
  "quiet as n \<longleftrightarrow> n Localbe = length (arrived Localbe as) \<and>
     n Localfe = min (length (arrived Localbe as)) (length (arrived Localfe as))"

lemma readable_pending: "pending as n b \<Longrightarrow> readable p (sockets b) \<longleftrightarrow> n p < length (arrived p as)"
proof -
  assume pen: "pending as n b"
  show ?thesis
  proof (cases "n p < length (arrived p as)")
    case True
    then have "drop (n p) (arrived p as) = arrived p as ! n p # drop (Suc (n p)) (arrived p as)"
      by (simp add: Cons_nth_drop_Suc)
    with pen True show ?thesis by (simp add: readable_def pending_def)
  next
    case False
    with pen show ?thesis by (simp add: readable_def pending_def)
  qed
qed

lemma inv_counts:
  assumes "pb_inv as n b"
  shows "readable p (sockets b) \<longleftrightarrow> n p < length (arrived p as)"
    and "capacity b \<noteq> 0 \<longleftrightarrow> n Localfe < n Localbe"
    and "n Localfe \<le> n Localbe" and "n Localbe \<le> length (arrived Localbe as)"
    and "n Localfe \<le> length (arrived Localfe as)"
  using assms readable_pending [of as n b p] by (auto simp: pb_inv_def pb_mid_def dispatched_def)

lemma pass_progress:
  assumes inv: "pb_inv as n b" and ok: "proper as"
  shows "\<exists>b' n'. pb_pass b = Some b' \<and> pb_inv as n' b' \<and> (quiet as n \<longrightarrow> quiet as n') \<and>
    (\<not> quiet as n \<longrightarrow> work_left as n' b' < work_left as n b)"
proof -
  from pass_step [OF inv ok] obtain b' n' where s: "pb_pass b = Some b'" "pb_inv as n' b'"
    "n' Localbe = n Localbe + (if \<not> inner b \<and> readable Localbe (sockets b) then 1 else 0)"
    "n' Localfe = n Localfe + (if inner b \<and> readable Localfe (sockets b) then 1 else 0)"
    "inner b' = (\<not> (inner b \<and> \<not> readable Localfe (sockets b)) \<and> capacity b' \<noteq> 0)" by blast
  note c = inv_counts [OF inv] and c' = inv_counts [OF s(2)]
  have "inner b \<Longrightarrow> n Localfe < n Localbe" using inv c(2) by (auto simp: pb_inv_def)
  then show ?thesis
    using s c(3-5) c'(3-5) unfolding c(1) c'(2)
    by (intro exI [of _ b'] exI [of _ n']) (cases "inner b"; auto simp: quiet_def work_left_def Let_def)
qed

lemma passes_progress:
  "pb_inv as n b \<Longrightarrow> proper as \<Longrightarrow>
   \<exists>b' n'. pb_run (replicate m Pass) b = Some b' \<and> pb_inv as n' b' \<and>
     (quiet as n' \<or> work_left as n' b' + m \<le> work_left as n b)"
proof (induction m)
  case 0
  then show ?case by auto
next
  case (Suc m)
  then obtain b1 n1 where b1: "pb_run (replicate m Pass) b = Some b1" "pb_inv as n1 b1"
      "quiet as n1 \<or> work_left as n1 b1 + m \<le> work_left as n b" by blast
  from pass_progress [OF b1(2) Suc.prems(2)] obtain b2 n2 where b2: "pb_pass b1 = Some b2" "pb_inv as n2 b2"
      "quiet as n1 \<longrightarrow> quiet as n2" "\<not> quiet as n1 \<longrightarrow> work_left as n2 b2 < work_left as n1 b1" by blast
  have "pb_run (replicate (Suc m) Pass) b = Some b2"
    using b1(1) b2(1) unfolding replicate_Suc replicate_append_same [symmetric] pb_run_snoc
    by (simp add: pb_action_def)
  with b1(3) b2 show ?case by (intro exI [of _ b2] exI [of _ n2]) auto
qed

lemma work_left_bound:
  "work_left as n b \<le> 2 * (length (arrived Localbe as) + length (arrived Localfe as)) + 1"
proof -
  have "r - x \<le> r" "(if p then 1 else 0) \<le> (1 :: nat)" for r x :: nat and p by simp_all
  then show ?thesis unfolding work_left_def Let_def by (smt (verit) add_mono distrib_left mult_le_mono2)
qed

lemma arrived_count: "length (arrived Localbe as) + length (arrived Localfe as) \<le> length as"
proof (induction as)
  case (Cons a as)
  then show ?case by (cases a) (auto simp: arrived_def)
qed (simp add: arrived_def)

section \<open>Properties\<close>

text \<open>
  C22: whatever arrives, and in whatever order the messages come between the passes of the loop, the broker
  keeps going. Its capacity is the number of ready workers, it takes a worker only when there is one,
  and it pairs in order: the worker of the \<open>i\<close>-th report is sent the client of the \<open>i\<close>-th
  question, and every reply a worker reports is passed on to its client once, as a success. Once the
  arrivals pause, a bounded number of passes takes every report and serves as many questions as
  there are reports.
\<close>

theorem peering_dispatches:
  assumes "proper as"
  shows "\<exists>b n k. pb_run as (pb_start (Some peer)) = Some b \<and> dispatched as n k b \<and>
    (\<exists>b'. pb_run (replicate (2 * length as + 2) Pass) b = Some b' \<and>
      dispatched as (length (arrived Localbe as))
        (min (length (arrived Localbe as)) (length (arrived Localfe as))) b')"
proof -
  from pb_run_inv [OF assms, of peer] obtain b n where b: "pb_run as (pb_start (Some peer)) = Some b" "pb_inv as n b"
    by blast
  from passes_progress [OF b(2) assms] obtain b' n' where
    b': "pb_run (replicate (2 * length as + 2) Pass) b = Some b'" "pb_inv as n' b'"
      "quiet as n' \<or> work_left as n' b' + (2 * length as + 2) \<le> work_left as n b" by blast
  have "work_left as n b < 2 * length as + 2"
    using arrived_count [of as] work_left_bound [of as n b] by simp
  with b'(3) have "quiet as n'" by linarith
  with b' have "dispatched as (length (arrived Localbe as))
        (min (length (arrived Localbe as)) (length (arrived Localfe as))) b'"
    by (simp add: pb_inv_def pb_mid_def quiet_def)
  with b b'(1) show ?thesis by (auto simp: pb_inv_def pb_mid_def)
qed

theorem peering_dispatches_witness:
  "\<exists>b. pb_run [Arrive (Ready ''w''), Arrive (Ask ''c'' ''HELLO'')] (pb_start (Some ''you'')) = Some b \<and>
     (\<exists>b'. pb_run (replicate 6 Pass) b = Some b' \<and>
        dispatched [Arrive (Ready ''w''), Arrive (Ask ''c'' ''HELLO'')] 1 1 b')"
  using peering_dispatches [of "[Arrive (Ready ''w''), Arrive (Ask ''c'' ''HELLO'')]" "''you''"]
  by (fastforce simp: proper_def arrived_def)

text \<open>
  A broker started without a peer, which the usage line allows, does not survive the first
  question it has a worker for: it makes a string from the null pointer in place of the peer's name.
\<close>

theorem peering_alone_fails:
  "pb_run [Arrive (Ready w), Pass, Arrive (Ask c q), Pass] (pb_start None) = None"
  by (simp add: pb_action_def pb_pass_def pb_localbe_def pb_localfe_def pb_start_def readable_def handler_simps)

end
