(* ===== verification/Cluster_Broker.thy ===== *)
theory Cluster_Broker
  imports Canna_Core
begin

text \<open>
  The main loop of \<^verbatim>\<open>example/cluster.cpp\<close>. It dumps the first message of a ready worker to the
  console and then reads the worker's identity, from the message after it.
\<close>

section \<open>The code\<close>

datatype port = Localfe | Localbe | Cloudfe | Cloudbe | Statebe | Statefe | Monitor

record cluster =
  sockets :: "port wire"
  worker_queue :: "frame list"
  hex_out :: bool

text \<open>
  Four of the seven sockets are polled, and the poll waits without limit once a worker is queued. \<open>dump_port\<close> is the call of \<^const>\<open>canna_dump\<close>.
\<close>

definition cluster_wakes :: "cluster \<Rightarrow> bool" where
  "cluster_wakes b \<longleftrightarrow> worker_queue b = [] \<or> (\<exists>p\<in>{Localbe, Cloudbe, Statefe, Monitor}. readable p (sockets b))"

definition dump_port :: "port \<Rightarrow> cluster \<Rightarrow> cluster option" where
  "dump_port p b = do {
     (lines, hex, w) \<leftarrow> canna_dump p (hex_out b) (sockets b);
     Some (b\<lparr>sockets := w, hex_out := hex\<rparr>) }"

definition cluster_pass :: "cluster \<Rightarrow> cluster option" where
  "cluster_pass b = do {
     let monitor = readable Monitor (sockets b);
     b \<leftarrow> (if readable Localbe (sockets b)
          then do {
            b \<leftarrow> dump_port Localbe b;
            (identity, w) \<leftarrow> canna_recv Localbe (sockets b);
            let b = b\<lparr>worker_queue := worker_queue b @ [identity]\<rparr>;
            (delim, w) \<leftarrow> canna_recv Localbe w;
            (msg, w) \<leftarrow> canna_recv Localbe w;
            Some (b\<lparr>sockets := w\<rparr>) }
          else if readable Cloudbe (sockets b) then dump_port Cloudbe b
          else Some b);
     b \<leftarrow> (if monitor
          then do { (status, w) \<leftarrow> canna_recv Monitor (sockets b); Some (b\<lparr>sockets := w\<rparr>) }
          else Some b);
     Some (b\<lparr>sockets := canna_send Cloudbe ''CLOUD'' (sockets b)\<rparr>) }"

fun cluster_run :: "nat \<Rightarrow> cluster \<Rightarrow> cluster option" where
  "cluster_run 0 b = Some b"
| "cluster_run (Suc n) b = do { b \<leftarrow> cluster_pass b; cluster_run n b }"

section \<open>What becomes of the workers\<close>

definition announces :: "frame list \<Rightarrow> (frame \<times> bool) list" where
  "announces ws = concat (map (\<lambda>w. parts [w, [], ''READY'']) ws)"

fun every_second :: "'a list \<Rightarrow> 'a list" where
  "every_second [] = []"
| "every_second [a] = []"
| "every_second (a # b # xs) = b # every_second xs"

lemma announces_Cons: "announces (w # ws) = [(w, True), ([], True), (''READY'', False)] @ announces ws"
  by (simp add: announces_def)

lemma dump_announce:
  assumes "inbox (sockets b) Localbe = announces (w # ws)"
  shows "\<exists>hex. dump_port Localbe b = Some (b\<lparr>sockets := (sockets b)\<lparr>inbox := (inbox (sockets b))(Localbe := announces ws)\<rparr>,
    hex_out := hex\<rparr>)"
proof -
  from assms have "inbox (sockets b) Localbe = parts [w, [], ''READY''] @ announces ws"
    by (simp add: announces_Cons)
  then obtain lines where "dump_loop (hex_out b) (inbox (sockets b) Localbe)
      = Some (lines, hex_at (hex_out b) [w, [], ''READY''] 3, announces ws)"
    using dump_loop_message [of "[w, [], ''READY'']" "hex_out b" "announces ws"]
    by (auto simp: numeral_3_eq_3)
  then show ?thesis by (intro exI) (simp add: dump_port_def canna_dump_def)
qed

lemma pass_two:
  assumes "inbox (sockets b) Localbe = announces (v # w # ws)"
  shows "\<exists>b'. cluster_pass b = Some b' \<and> inbox (sockets b') Localbe = announces ws \<and>
    worker_queue b' = worker_queue b @ [w] \<and> outbox (sockets b') = outbox (sockets b) @ [(Cloudbe, ''CLOUD'', False)] \<and>
    (\<forall>p. p \<noteq> Localbe \<longrightarrow> inbox (sockets b') p = (if p = Monitor then tl (inbox (sockets b) p) else inbox (sockets b) p))"
proof -
  from dump_announce [OF assms] obtain hex where
    d: "dump_port Localbe b = Some (b\<lparr>sockets := (sockets b)\<lparr>inbox := (inbox (sockets b))(Localbe := announces (w # ws))\<rparr>,
      hex_out := hex\<rparr>)" by blast
  have "readable Localbe (sockets b)" using assms by (simp add: readable_def announces_Cons)
  with d show ?thesis
    by (cases "inbox (sockets b) Monitor")
      (auto simp: cluster_pass_def canna_recv_def announces_Cons readable_def Let_def)
qed

lemma pass_one:
  assumes "inbox (sockets b) Localbe = announces [v]"
  shows "cluster_pass b = None"
proof -
  from dump_announce [OF assms] obtain hex where
    d: "dump_port Localbe b = Some (b\<lparr>sockets := (sockets b)\<lparr>inbox := (inbox (sockets b))(Localbe := announces [])\<rparr>,
      hex_out := hex\<rparr>)" by blast
  have "readable Localbe (sockets b)" using assms by (simp add: readable_def announces_Cons)
  with d show ?thesis
    by (simp add: cluster_pass_def canna_recv_def announces_def)
qed

text \<open>
  Of the workers that have announced themselves only every second one is ever queued, because the dump
  takes its neighbour's announcement away; no worker and no client is sent anything, only the
  peers are; and with an odd number of workers, as with the five of the program, the loop then blocks
  for ever in a receive.
\<close>

theorem cluster_loses_workers:
  "inbox (sockets b) Localbe = announces ws \<Longrightarrow> k = length ws div 2 \<Longrightarrow>
   \<exists>b'. cluster_run k b = Some b' \<and> worker_queue b' = worker_queue b @ every_second ws \<and>
     outbox (sockets b') = outbox (sockets b) @ replicate k (Cloudbe, ''CLOUD'', False) \<and>
     (odd (length ws) \<longrightarrow> cluster_run (Suc k) b = None)"
proof (induction ws arbitrary: b k rule: every_second.induct)
  case (3 v w ws)
  from pass_two [OF 3(2)] obtain b1 where b1: "cluster_pass b = Some b1" "inbox (sockets b1) Localbe = announces ws"
    "worker_queue b1 = worker_queue b @ [w]" "outbox (sockets b1) = outbox (sockets b) @ [(Cloudbe, ''CLOUD'', False)]"
    by blast
  from 3(1) [OF b1(2) refl] b1 3(3) show ?case by auto
next
  case (2 v)
  then show ?case using pass_one [of b v] by simp
qed simp

theorem cluster_loses_workers_witness:
  "\<exists>b'. cluster_run 2 \<lparr>sockets = \<lparr>inbox = (\<lambda>_. [])(Localbe := announces [''1'', ''2'', ''3'', ''4'', ''5'']), outbox = []\<rparr>,
       worker_queue = [], hex_out = False\<rparr> = Some b' \<and> worker_queue b' = [''2'', ''4'']"
  using cluster_loses_workers [of "\<lparr>sockets = \<lparr>inbox = (\<lambda>_. [])(Localbe := announces [''1'', ''2'', ''3'', ''4'', ''5'']), outbox = []\<rparr>,
       worker_queue = [], hex_out = False\<rparr>" "[''1'', ''2'', ''3'', ''4'', ''5'']" 2]
  by (auto simp del: cluster_run.simps)

end
