(* ===== verification/Router_Req.thy ===== *)
theory Router_Req
  imports Zmq_Wire Bounded_System "HOL-Library.Multiset"
begin

text \<open>
  The task brokers of \<^verbatim>\<open>example/routerreq.cpp\<close> and \<^verbatim>\<open>example/routerdealer.cpp\<close>: workers ask for work until
  the time is up, then each is fired, and the broker stops after firing all of them. The two programs
  differ in the worker's socket: a REQ socket adds the empty delimiter that the DEALER worker sends
  and receives itself, so on the broker's side the messages are the same. The clock is an input of
  each pass.
\<close>

section \<open>The code\<close>

record rr =
  socket :: "unit wire"
  worker_fired :: int

definition work_count :: nat where
  "work_count = 10"

text \<open>
  One pass of the broker's loop, \<open>now\<close> being what the clock shows in it and \<open>n_workers\<close> the number of
  workers; the flag says that the loop is left.
\<close>

definition rr_pass :: "nat \<Rightarrow> int \<Rightarrow> int \<Rightarrow> rr \<Rightarrow> (bool \<times> rr) option" where
  "rr_pass n_workers end_time now b = do {
     (identity, w) \<leftarrow> canna_recv () (socket b);
     (_, w) \<leftarrow> canna_recv () w;
     (_, w) \<leftarrow> canna_recv () w;
     let w = canna_sendmore () identity w;
     let w = canna_sendmore () [] w;
     if now < end_time
     then Some (False, b\<lparr>socket := canna_send () ''WORK HARDER'' w\<rparr>)
     else do {
       let w = canna_send () ''FIRED!'' w;
       let b = b\<lparr>socket := w, worker_fired := worker_fired b + 1\<rparr>;
       Some (worker_fired b = int n_workers, b) } }"

text \<open>
  The worker: the frames it sends, and what it does with the workload received: it leaves its loop
  printing the tasks it counted, or counts one more and asks again.
\<close>

definition req_worker_sends :: "frame list" where
  "req_worker_sends = [''READY'']"

definition req_worker_gets :: "int \<Rightarrow> frame \<Rightarrow> bool \<times> int" where
  "req_worker_gets total_tasks workload =
     (if ''FIRED!'' = workload then (True, total_tasks) else (False, total_tasks + 1))"

definition dealer_worker_sends :: "frame list" where
  "dealer_worker_sends = ['''', ''READY'']"

definition dealer_worker_gets :: "int \<Rightarrow> frame list \<Rightarrow> (bool \<times> int) option" where
  "dealer_worker_gets total_tasks received =
     (case received of
        [_, workload] \<Rightarrow>
          Some (if ''FIRED!'' = workload then (True, total_tasks) else (False, total_tasks + 1))
      | _ \<Rightarrow> None)"

text \<open>The sockets: REQ adds the delimiter before and takes it off after, ROUTER the identity.\<close>

lemma dealer_like_req:
  "dealer_worker_sends = [] # req_worker_sends"
  "dealer_worker_gets n [[], workload] = Some (req_worker_gets n workload)"
  by (simp_all add: dealer_worker_sends_def req_worker_sends_def dealer_worker_gets_def req_worker_gets_def)

section \<open>The system\<close>

text \<open>
  The workers about to ask, the tasks each has counted, the totals printed, and, to state what
  they should be, the workers the broker has given a task, one entry for each task.
\<close>

record rr_system =
  broker :: rr
  stopped :: bool
  asking :: "frame list"
  tasks :: "frame \<Rightarrow> int"
  printed :: "(frame \<times> int) list"
  given :: "frame list"

definition rr_start :: "frame list \<Rightarrow> rr_system" where
  "rr_start ws = \<lparr>broker = \<lparr>socket = \<lparr>inbox = \<lambda>_. [], outbox = []\<rparr>, worker_fired = 0\<rparr>, stopped = False,
     asking = ws, tasks = \<lambda>_. 0, printed = [], given = []\<rparr>"

definition next_sender :: "rr \<Rightarrow> frame" where
  "next_sender b = fst (hd (inbox (socket b) ()))"

inductive rr_step :: "nat \<Rightarrow> int \<Rightarrow> rr_system \<Rightarrow> rr_system \<Rightarrow> bool" for n_workers :: nat and end_time :: int where
  ask: "asking s = ws @ w # ws' \<Longrightarrow>
    rr_step n_workers end_time s (s\<lparr>asking := ws @ ws',
      broker := (broker s)\<lparr>socket := arrive () (w # [] # req_worker_sends) (socket (broker s))\<rparr>\<rparr>)"
| pass: "\<not> stopped s \<Longrightarrow> readable () (socket (broker s)) \<Longrightarrow>
    rr_pass n_workers end_time now (broker s) = Some (stop, b) \<Longrightarrow>
    rr_step n_workers end_time s (s\<lparr>broker := b, stopped := stop,
      given := given s @ (if now < end_time then [next_sender (broker s)] else [])\<rparr>)"
| workload: "outbox (socket (broker s)) = post () [w, [], load] @ rest \<Longrightarrow>
    req_worker_gets (tasks s w) load = (fired, n) \<Longrightarrow>
    rr_step n_workers end_time s (s\<lparr>broker := (broker s)\<lparr>socket := (socket (broker s))\<lparr>outbox := rest\<rparr>\<rparr>,
      tasks := (tasks s)(w := n),
      asking := (if fired then asking s else asking s @ [w]),
      printed := (if fired then printed s @ [(w, n)] else printed s)\<rparr>)"

section \<open>The invariant\<close>

text \<open>The requests waiting at the broker and the answers under way, each with whether it fires.\<close>

record rr_view =
  asks :: "frame list"
  answers :: "(frame \<times> bool) list"

definition answer_frames :: "frame \<times> bool \<Rightarrow> (unit \<times> frame \<times> bool) list" where
  "answer_frames a = post () [fst a, [], if snd a then ''FIRED!'' else ''WORK HARDER'']"

definition rr_inv :: "frame list \<Rightarrow> rr_system \<Rightarrow> rr_view \<Rightarrow> bool" where
  "rr_inv ws s v \<longleftrightarrow>
     inbox (socket (broker s)) () = concat (map (\<lambda>w. parts (w # [] # req_worker_sends)) (asks v)) \<and>
     outbox (socket (broker s)) = concat (map answer_frames (answers v)) \<and>
     mset (asking s) + mset (asks v) + mset (map fst (answers v)) + mset (map fst (printed s)) = mset ws \<and>
     worker_fired (broker s) = int (length (filter snd (answers v)) + length (printed s)) \<and>
     (stopped s \<longleftrightarrow> worker_fired (broker s) = int (length ws)) \<and>
     (\<forall>w. tasks s w = int (count_list (given s) w) - int (count_list (answers v) (w, False))) \<and>
     (\<forall>(w, n)\<in>set (printed s). n = int (count_list (given s) w))"

text \<open>Every step brings a worker closer to its end, unless a task is given.\<close>

definition rr_effort :: "rr_system \<Rightarrow> rr_view \<Rightarrow> nat" where
  "rr_effort s v = 4 * length (asking s) + 3 * length (asks v) +
     (\<Sum>a\<leftarrow>answers v. if snd a then 1 else 5)"

lemmas rr_inv_simps = rr_inv_def answer_frames_def req_worker_sends_def

lemma rr_start_inv: "ws \<noteq> [] \<Longrightarrow> rr_inv ws (rr_start ws) \<lparr>asks = [], answers = []\<rparr>"
  by (simp add: rr_inv_def rr_start_def)

text \<open>A pass answers the first request, and fires or gives work as the clock says.\<close>

lemma pass_answers:
  assumes inv: "rr_inv ws s v" and r: "readable () (socket (broker s))"
  obtains w as b where "asks v = w # as"
    and "rr_pass n_workers end_time now (broker s)
      = Some (\<not> now < end_time \<and> worker_fired (broker s) + 1 = int n_workers, b)"
    and "b = \<lparr>socket = \<lparr>inbox = (inbox (socket (broker s)))(() := concat (map (\<lambda>w. parts (w # [] # req_worker_sends)) as)),
        outbox = outbox (socket (broker s)) @ answer_frames (w, \<not> now < end_time)\<rparr>,
      worker_fired = (if now < end_time then worker_fired (broker s) else worker_fired (broker s) + 1)\<rparr>"
    and "next_sender (broker s) = w"
proof -
  from inv r obtain w as where a: "asks v = w # as"
    by (cases "asks v") (auto simp: rr_inv_def readable_def)
  with inv have i: "inbox (socket (broker s)) ()
      = [(w, True), ([], True), (''READY'', False)] @ concat (map (\<lambda>w. parts (w # [] # req_worker_sends)) as)"
    by (simp add: rr_inv_def req_worker_sends_def)
  show thesis
    by (rule that [OF a])
      (use i in \<open>simp_all add: rr_pass_def canna_recv_def canna_send_def canna_sendmore_def Let_def answer_frames_def next_sender_def\<close>)
qed

lemma first_answer:
  assumes "concat (map answer_frames as) = post () [w, [], load] @ rest"
  obtains fired as' where "as = (w, fired) # as'" and "load = (if fired then ''FIRED!'' else ''WORK HARDER'')"
    and "rest = concat (map answer_frames as')"
proof (cases as)
  case Nil
  with assms show thesis by simp
next
  case (Cons a as')
  with assms have "post () [fst a, [], if snd a then ''FIRED!'' else ''WORK HARDER''] @ concat (map answer_frames as')
      = post () [w, [], load] @ rest" by (simp only: answer_frames_def list.map concat.simps append_assoc)
  from post_inject [OF _ _ this] show thesis
    by (cases a) (auto intro!: that [of "snd a" as'] simp: Cons)
qed

lemma inv_distinct:
  assumes "rr_inv ws s v" and "distinct ws"
  shows "distinct (asking s @ asks v @ map fst (answers v) @ map fst (printed s))"
proof -
  from assms(1) have "mset (asking s @ asks v @ map fst (answers v) @ map fst (printed s)) = mset ws"
    by (simp add: rr_inv_def union_assoc)
  with assms(2) show ?thesis using mset_eq_imp_distinct_iff by blast
qed

lemma step_inv:
  assumes "rr_step (length ws) end_time s t" and "rr_inv ws s v" and "distinct ws"
  shows "\<exists>v'. rr_inv ws t v' \<and> rr_effort t v' + 1 + 3 * length (given s) \<le> rr_effort s v + 3 * length (given t)"
  using assms
proof (induction rule: rr_step.induct)
  case (ask s us w us')
  then show ?case
    by (intro exI [of _ "v\<lparr>asks := asks v @ [w]\<rparr>"]) (auto simp: rr_inv_simps rr_effort_def)
next
  case (pass s now stop b)
  from pass_answers [OF pass.prems(1) pass.hyps(2)] obtain w as b' where
    p: "asks v = w # as"
      "rr_pass (length ws) end_time now (broker s)
        = Some (\<not> now < end_time \<and> worker_fired (broker s) + 1 = int (length ws), b')"
      "b' = \<lparr>socket = \<lparr>inbox = (inbox (socket (broker s)))(() := concat (map (\<lambda>w. parts (w # [] # req_worker_sends)) as)),
        outbox = outbox (socket (broker s)) @ answer_frames (w, \<not> now < end_time)\<rparr>,
      worker_fired = (if now < end_time then worker_fired (broker s) else worker_fired (broker s) + 1)\<rparr>"
      "next_sender (broker s) = w" by metis
  from p(2) pass.hyps(3) have b: "b = b'" and stop: "stop = (\<not> now < end_time \<and> worker_fired (broker s) + 1 = int (length ws))"
    by auto
  have "w \<notin> fst ` set (printed s)"
    using inv_distinct [OF pass.prems] by (auto simp: p(1))
  then have other: "\<forall>(u, n)\<in>set (printed s). u \<noteq> w" by force
  show ?case
    by (intro exI [of _ "v\<lparr>asks := as, answers := answers v @ [(w, \<not> now < end_time)]\<rparr>"])
      (use pass.prems pass.hyps(1) p(1,4) other in \<open>cases "now < end_time";
        force simp: rr_inv_def rr_effort_def b stop p(3)\<close>)
next
  case (workload s w load rest fired n)
  from workload have "concat (map answer_frames (answers v)) = post () [w, [], load] @ rest"
    by (simp add: rr_inv_def)
  then obtain f as where a: "answers v = (w, f) # as" "load = (if f then ''FIRED!'' else ''WORK HARDER'')"
      "rest = concat (map answer_frames as)" by (rule first_answer)
  from inv_distinct [OF workload.prems] a(1) have "w \<notin> fst ` set as" by auto
  then have "(w, False) \<notin> set as" by force
  then have none: "count_list as (w, False) = 0" by simp
  show ?case
    by (intro exI [of _ "v\<lparr>answers := as\<rparr>"])
      (use workload a none in \<open>cases f; auto simp: rr_inv_def rr_effort_def req_worker_gets_def\<close>)
qed

section \<open>Properties\<close>

interpretation rr: bounded_system "rr_step (length ws) end_time" "\<lambda>s v. rr_inv ws s v \<and> distinct ws" rr_effort
    "\<lambda>s. 3 * length (given s)"
  by unfold_locales (use step_inv in blast)

lemma rr_run_inv:
  assumes "(rr_step (length ws) end_time ^^ m) (rr_start ws) s" and "ws \<noteq> []" and "distinct ws"
  shows "\<exists>v. rr_inv ws s v \<and> m + rr_effort s v \<le> 4 * length ws + 3 * length (given s)"
proof -
  have "rr_effort (rr_start ws) \<lparr>asks = [], answers = []\<rparr> = 4 * length ws" "given (rr_start ws) = []"
    by (simp_all add: rr_effort_def rr_start_def)
  with rr.run_effort [OF assms(1), of "\<lparr>asks = [], answers = []\<rparr>"] rr_start_inv [OF assms(2)] assms(3)
  show ?thesis by fastforce
qed

lemma rr_stuck_done:
  assumes inv: "rr_inv ws s v" and stuck: "\<nexists>t. rr_step (length ws) end_time s t"
  shows "stopped s \<and> mset (map fst (printed s)) = mset ws"
proof -
  have a: "asking s = []"
    using stuck rr_step.ask [of s "[]"] by (cases "asking s") fastforce+
  have o: "answers v = []"
  proof (cases "answers v")
    case (Cons x as)
    with inv have "outbox (socket (broker s)) = answer_frames x @ concat (map answer_frames as)"
      by (simp add: rr_inv_def)
    then have "outbox (socket (broker s)) = post () [fst x, [], if snd x then ''FIRED!'' else ''WORK HARDER'']
        @ concat (map answer_frames as)" by (simp only: answer_frames_def)
    from rr_step.workload [OF this surjective_pairing] stuck show ?thesis by blast
  qed simp
  have "stopped s"
  proof (rule ccontr)
    assume going: "\<not> stopped s"
    have "asks v \<noteq> []"
    proof
      assume "asks v = []"
      with inv have w: "image_mset fst (mset (printed s)) = mset ws" by (simp add: rr_inv_def a o)
      have "length (printed s) = length ws" using arg_cong [OF w, of size] by simp
      with inv going show False by (auto simp: rr_inv_def a o)
    qed
    then have r: "readable () (socket (broker s))"
      using inv by (cases "asks v") (simp_all add: rr_inv_def readable_def)
    obtain b where "rr_pass (length ws) end_time end_time (broker s) = Some b"
      by (rule pass_answers [OF inv r, of "length ws" end_time end_time]) blast
    with rr_step.pass [OF going r] stuck show False by (cases b) blast
  qed
  with inv have len: "length ws = length (printed s)" by (simp add: rr_inv_def o)
  from inv have m: "mset (asks v) + mset (map fst (printed s)) = mset ws" by (simp add: rr_inv_def a o)
  have "size (mset (asks v) + mset (map fst (printed s))) = size (mset ws)" by (simp only: m)
  then have "asks v = []" using len by simp
  with m \<open>stopped s\<close> show ?thesis by simp
qed

text \<open>
  C23: the broker fires every worker once and then stops. In every interleaving it never blocks in the
  middle of a request, and a worker that has left its loop has printed exactly the number of tasks the
  broker gave it. A run with \<open>g\<close> tasks given has at most \<open>4 * n + 3 * g\<close> steps for \<open>n\<close> workers, so it ends once
  the clock has passed the end time; and where no step is left the broker has stopped and
  every worker has printed its total.
\<close>

theorem rr_fires_every_worker:
  assumes "(rr_step (length ws) end_time ^^ m) (rr_start ws) s" and "ws \<noteq> []" and "distinct ws"
  shows "m \<le> 4 * length ws + 3 * length (given s) \<and>
    (\<not> stopped s \<and> readable () (socket (broker s)) \<longrightarrow> rr_pass (length ws) end_time now (broker s) \<noteq> None) \<and>
    distinct (map fst (printed s)) \<and> (\<forall>(w, n)\<in>set (printed s). n = int (count_list (given s) w)) \<and>
    ((\<nexists>t. rr_step (length ws) end_time s t) \<longrightarrow> stopped s \<and> mset (map fst (printed s)) = mset ws)"
proof -
  from rr_run_inv [OF assms] obtain v where v: "rr_inv ws s v" "m + rr_effort s v \<le> 4 * length ws + 3 * length (given s)"
    by blast
  have "distinct (map fst (printed s))" using inv_distinct [OF v(1) assms(3)] by simp
  moreover have "\<forall>(w, n)\<in>set (printed s). n = int (count_list (given s) w)" using v(1) by (simp add: rr_inv_def)
  moreover have "rr_pass (length ws) end_time now (broker s) \<noteq> None" if "readable () (socket (broker s))"
    by (rule pass_answers [OF v(1) that, of "length ws" end_time now]) simp
  ultimately show ?thesis using v(2) rr_stuck_done [OF v(1)] by auto
qed

theorem rr_fires_every_worker_witness:
  "Suc 0 \<le> 4 * length [''w'', ''v''] \<and> distinct (map fst (printed (rr_start [''w'', ''v''])))"
proof -
  have "rr_step (length [''w'', ''v'']) 5 (rr_start [''w'', ''v''])
      ((rr_start [''w'', ''v''])\<lparr>asking := [] @ [''v''], broker := (broker (rr_start [''w'', ''v'']))\<lparr>socket :=
        arrive () (''w'' # [] # req_worker_sends) (socket (broker (rr_start [''w'', ''v''])))\<rparr>\<rparr>)"
    by (rule rr_step.ask) (simp add: rr_start_def)
  then have "(rr_step (length [''w'', ''v'']) 5 ^^ Suc 0) (rr_start [''w'', ''v''])
      ((rr_start [''w'', ''v''])\<lparr>asking := [] @ [''v''], broker := (broker (rr_start [''w'', ''v'']))\<lparr>socket :=
        arrive () (''w'' # [] # req_worker_sends) (socket (broker (rr_start [''w'', ''v''])))\<rparr>\<rparr>)"
    by auto
  from rr_fires_every_worker [OF this] show ?thesis by (simp add: rr_start_def)
qed

end
