(* ===== verification/Task_Pipeline.thy ===== *)
theory Task_Pipeline
  imports Core_Random Canna_Core
begin

text \<open>
  The pipeline of \<^verbatim>\<open>example/ventilator.cpp\<close>, \<^verbatim>\<open>example/taskwork.cpp\<close> and \<^verbatim>\<open>example/tasksink.cpp\<close>: a
  hundred workloads are drawn, printed into ten-byte messages, parsed by the workers and counted by
  the sink, which reports the time between two clock readings.
\<close>

section \<open>The ventilator\<close>

text \<open>The message of a workload: a zeroed buffer of ten bytes with the decimal number printed at its start.\<close>

definition task_message :: "nat \<Rightarrow> frame" where
  "task_message workload =
     (let text = radix False 10 workload in text @ replicate (10 - length text) (char_of (0 :: nat)))"

text \<open>
  The loop over the tasks: the messages sent and the total. The variable of the total is not
  initialised in the code, so its first value is an argument.
\<close>

fun send_tasks :: "nat \<Rightarrow> CaRandom \<Rightarrow> int \<Rightarrow> frame list \<times> int \<times> CaRandom" where
  "send_tasks 0 g total_cost = ([], total_cost, g)"
| "send_tasks (Suc n) g total_cost =
     (let (r, g) = Random_range 100 g;
          workload = unat (r + 1);
          (msgs, total_cost, g) = send_tasks n g (total_cost + int workload)
      in (task_message workload # msgs, total_cost, g))"

definition ventilator :: "u64 \<Rightarrow> int \<Rightarrow> frame list \<times> int" where
  "ventilator now garbage =
     (let (msgs, total_cost, g) = send_tasks 100 (SetSeed (ucast now) new_CaRandom) garbage in (msgs, total_cost))"

section \<open>The worker\<close>

text \<open>
  Reading a number from the message: the decimal digits at its start (a message of the ventilator has
  neither spaces nor a sign before them). The worker sleeps a millisecond for each unit.
\<close>

definition is_digit :: "char \<Rightarrow> bool" where
  "is_digit c \<longleftrightarrow> (48 :: nat) \<le> of_char c \<and> of_char c < (58 :: nat)"

definition read_workload :: "frame \<Rightarrow> nat" where
  "read_workload msg = digits_value 10 (takeWhile is_digit msg)"

definition work_usec :: "frame \<Rightarrow> nat" where
  "work_usec msg = read_workload msg * 1000"

section \<open>The sink\<close>

record timeval =
  tv_sec :: int
  tv_usec :: int

definition elapsed_msec :: "timeval \<Rightarrow> timeval \<Rightarrow> int" where
  "elapsed_msec tstart tend =
     (let tdiff = (if tv_usec tend < tv_usec tstart
                   then \<lparr>tv_sec = tv_sec tend - tv_sec tstart - 1,
                         tv_usec = 1000000 + tv_usec tend - tv_usec tstart\<rparr>
                   else \<lparr>tv_sec = tv_sec tend - tv_sec tstart, tv_usec = tv_usec tend - tv_usec tstart\<rparr>)
      in tv_sec tdiff * 1000 + tv_usec tdiff sdiv 1000)"

text \<open>The mark printed for each task.\<close>

definition mark :: "nat \<Rightarrow> char" where
  "mark task_nbr = (if task_nbr div 10 * 10 = task_nbr then CHR '':'' else CHR ''.'')"

section \<open>Properties\<close>

lemma length_radix_100: "w \<le> 100 \<Longrightarrow> length (radix False 10 w) \<le> 3"
  using length_radix_le [of 10 w 2 False] by simp

lemma digit_is_digit: "d < 10 \<Longrightarrow> is_digit (digit u d)"
  by (simp add: is_digit_def of_char_digit)

lemma radix_is_digit: "c \<in> set (radix u 10 n) \<Longrightarrow> is_digit c"
proof (induction u "10 :: nat" n rule: radix.induct)
  case (1 u n)
  then show ?case
    by (cases "n < 10") (auto simp: radix.simps [of u 10 n] digit_is_digit)
qed

lemma read_task_message: "read_workload (task_message w) = w"
proof -
  have nul: "\<not> is_digit (char_of (0 :: nat))" by (simp add: is_digit_def)
  have "takeWhile is_digit (task_message w) = radix False 10 w"
    by (simp add: task_message_def Let_def takeWhile_append2 radix_is_digit nul)
  then show ?thesis by (simp add: read_workload_def digits_value_radix)
qed

lemma draw_workload: "1 \<le> unat (fst (Random_range 100 g) + 1) \<and> unat (fst (Random_range 100 g) + 1) \<le> 100"
proof -
  have "fst (Random_range 100 g) < 100" by (rule Random_range_below) simp
  then have "unat (fst (Random_range 100 g)) < 100" by (simp add: word_less_nat_alt)
  then show ?thesis by (simp add: unat_word_ariths)
qed

lemma send_tasks_ok:
  "send_tasks n g c = (msgs, c', g') \<Longrightarrow>
   length msgs = n \<and> c' = c + (\<Sum>m\<leftarrow>msgs. int (read_workload m)) \<and>
   (\<forall>m\<in>set msgs. length m = 10 \<and> 1 \<le> read_workload m \<and> read_workload m \<le> 100)"
proof (induction n arbitrary: g c msgs c' g')
  case (Suc n)
  let ?w = "unat (fst (Random_range 100 g) + 1)"
  obtain r g1 where r: "Random_range 100 g = (r, g1)" by fastforce
  obtain msgs1 c1 g2 where s: "send_tasks n g1 (c + int ?w) = (msgs1, c1, g2)"
    by (metis prod_cases3)
  have w: "1 \<le> ?w" "?w \<le> 100" using draw_workload [of g] by simp_all
  then have "length (task_message ?w) = 10"
    using length_radix_100 [of ?w] by (simp add: task_message_def Let_def)
  with Suc.prems Suc.IH [OF s] w r s show ?case
    by (auto simp: read_task_message)
qed simp

text \<open>
  The ventilator sends a hundred messages of ten bytes, each a workload from 1 to 100, which a worker reads
  back as it was drawn; the total it prints is their sum plus whatever the uninitialised variable held.
\<close>

theorem workloads_arrive:
  "case ventilator now garbage of (msgs, total_cost) \<Rightarrow>
     length msgs = 100 \<and> (\<forall>m\<in>set msgs. length m = 10 \<and> read_workload m \<in> {1..100}) \<and>
     total_cost = garbage + (\<Sum>m\<leftarrow>msgs. int (read_workload m))"
proof -
  obtain msgs c g where s: "send_tasks 100 (SetSeed (ucast now) new_CaRandom) garbage = (msgs, c, g)"
    by (metis prod_cases3)
  from send_tasks_ok [OF s] show ?thesis by (simp add: ventilator_def s)
qed

text \<open>
  The time the sink prints is the whole milliseconds between the two clock readings, with the
  borrow from the seconds or without.
\<close>

theorem elapsed_is_difference:
  assumes "0 \<le> tv_usec s" and "tv_usec s < 1000000" and "0 \<le> tv_usec e" and "tv_usec e < 1000000"
  shows "elapsed_msec s e
    = ((tv_sec e * 1000000 + tv_usec e) - (tv_sec s * 1000000 + tv_usec s)) div 1000"
proof (cases "tv_usec e < tv_usec s")
  case True
  then have "elapsed_msec s e = (tv_sec e - tv_sec s - 1) * 1000 + (1000000 + tv_usec e - tv_usec s) div 1000"
    using assms by (simp add: elapsed_msec_def Let_def signed_divide_int_def sgn_if)
  also have "\<dots> = ((tv_sec e - tv_sec s - 1) * 1000 * 1000 + (1000000 + tv_usec e - tv_usec s)) div 1000"
    by (simp add: div_mult_self3)
  finally show ?thesis by (simp add: algebra_simps)
next
  case False
  then have "elapsed_msec s e = (tv_sec e - tv_sec s) * 1000 + (tv_usec e - tv_usec s) div 1000"
    by (simp add: elapsed_msec_def Let_def signed_divide_int_def sgn_if)
  also have "\<dots> = ((tv_sec e - tv_sec s) * 1000 * 1000 + (tv_usec e - tv_usec s)) div 1000"
    by (simp add: div_mult_self3)
  finally show ?thesis by (simp add: algebra_simps)
qed

theorem elapsed_is_difference_witness:
  "elapsed_msec \<lparr>tv_sec = 5, tv_usec = 900000\<rparr> \<lparr>tv_sec = 7, tv_usec = 100500\<rparr> = 1200"
  using elapsed_is_difference [of "\<lparr>tv_sec = 5, tv_usec = 900000\<rparr>" "\<lparr>tv_sec = 7, tv_usec = 100500\<rparr>"] by simp

lemma marks: "map mark [0..<20] = '':.........:.........''"
  by (simp add: mark_def upt_rec)

end
