(* ===== verification/Message_Demos.thy ===== *)
theory Message_Demos
  imports Canna_Core
begin

text \<open>
  Smaller message programs: the asynchronous clients and workers of \<^verbatim>\<open>example/asyncclient.h\<close> and
  \<^verbatim>\<open>example/asyncworker.h\<close>, and the state exchange of \<^verbatim>\<open>example/peering.cpp\<close>. Text is printed into
  fixed buffers there; printing past the end of a buffer is undefined and has no result.
\<close>

section \<open>The asynchronous client\<close>

definition print_into :: "nat \<Rightarrow> string \<Rightarrow> string option" where
  "print_into room s = (if length s < room then Some s else None)"

text \<open>The identity is printed by \<^verbatim>\<open>%04X-%04X\<close>, the text of \<^const>\<open>canna_setid\<close>.\<close>

definition client_identity :: "nat \<Rightarrow> nat \<Rightarrow> string option" where
  "client_identity r1 r2 =
     print_into 10
       (zero_pad 4 (radix True 16 (CANNA_RAND 65536 r1)) @ ''-'' @
        zero_pad 4 (radix True 16 (CANNA_RAND 65536 r2)))"

definition client_request :: "nat \<Rightarrow> string option" where
  "client_request count = print_into 16 (''request #'' @ radix False 10 count)"

record client =
  dealer :: "unit wire"
  hex_out :: bool
  sent_count :: nat

text \<open>The polls of a round, each dumping one message if there is one, and the request after them.\<close>

fun client_polls :: "nat \<Rightarrow> client \<Rightarrow> client option" where
  "client_polls 0 c = Some c"
| "client_polls (Suc n) c =
     (if readable () (dealer c)
      then do {
        (lines, hex, w) \<leftarrow> canna_dump () (hex_out c) (dealer c);
        client_polls n (c\<lparr>dealer := w, hex_out := hex\<rparr>) }
      else client_polls n c)"

definition client_round :: "client \<Rightarrow> client option" where
  "client_round c = do {
     c \<leftarrow> client_polls 100 c;
     let c = c\<lparr>sent_count := sent_count c + 1\<rparr>;
     request \<leftarrow> client_request (sent_count c);
     Some (c\<lparr>dealer := canna_send () request (dealer c)\<rparr>) }"

section \<open>The asynchronous worker\<close>

text \<open>
  The copies a worker sends of a message, one for each number drawn, with the sleep before each;
  \<open>draws\<close> are the numbers of \<^verbatim>\<open>random()\<close> in their order.
\<close>

fun send_copies :: "nat \<Rightarrow> nat list \<Rightarrow> frame \<Rightarrow> frame \<Rightarrow> unit wire \<Rightarrow> (nat list \<times> nat list \<times> unit wire) option" where
  "send_copies 0 draws identity msg w = Some ([], draws, w)"
| "send_copies (Suc n) [] identity msg w = None"
| "send_copies (Suc n) (r # draws) identity msg w = do {
     let w = canna_send () msg (canna_sendmore () identity w);
     (sleeps, draws, w) \<leftarrow> send_copies n draws identity msg w;
     Some ((CANNA_RAND 1000 r + 1) # sleeps, draws, w) }"

definition worker_round :: "nat list \<Rightarrow> unit wire \<Rightarrow> (nat list \<times> nat list \<times> unit wire) option" where
  "worker_round draws w = do {
     (identity, w) \<leftarrow> canna_recv () w;
     (msg, w) \<leftarrow> canna_recv () w;
     case draws of
       [] \<Rightarrow> None
     | r # draws \<Rightarrow> send_copies (CANNA_RAND 5 r) draws identity msg w }"

section \<open>The state exchange\<close>

datatype state_port = Statefe | Statebe

record exchange =
  states :: "state_port wire"
  shown :: "(frame \<times> frame) list"

definition exchange_pass :: "frame \<Rightarrow> exchange \<Rightarrow> exchange option" where
  "exchange_pass self e =
     (if readable Statefe (states e)
      then do {
        (peer_name, w) \<leftarrow> canna_recv Statefe (states e);
        (available, w) \<leftarrow> canna_recv Statefe w;
        Some (e\<lparr>states := w, shown := shown e @ [(peer_name, available)]\<rparr>) }
      else Some (e\<lparr>states := canna_send Statebe ''ping'' (canna_send Statebe self (states e))\<rparr>))"

fun exchange_run :: "frame \<Rightarrow> nat \<Rightarrow> exchange \<Rightarrow> exchange option" where
  "exchange_run self 0 e = Some e"
| "exchange_run self (Suc n) e = do { e \<leftarrow> exchange_pass self e; exchange_run self n e }"

section \<open>Buffers\<close>

text \<open>
  The client's buffers are large enough except where they are not: the identity overflows when a number
  drawn is among the last 64, the request when the counter reaches a million.
\<close>

lemma length_radix_ge: "2 \<le> b \<Longrightarrow> b ^ k \<le> n \<Longrightarrow> Suc k \<le> length (radix u b n)"
proof (induction k arbitrary: n)
  case 0
  then show ?case by (cases "n < b") (simp_all add: radix.simps [of u b n])
next
  case (Suc k)
  have "b \<le> b ^ Suc k" using Suc.prems(1) by simp
  then have "\<not> n < b" using Suc.prems(2) by linarith
  moreover have "b ^ k \<le> n div b"
    using Suc.prems by (simp add: less_eq_div_iff_mult_less_eq mult.commute)
  ultimately show ?case using Suc.IH [of "n div b"] Suc.prems(1) by (simp add: radix.simps [of u b n])
qed

theorem client_buffers:
  assumes "r1 < 2 ^ 31" and "r2 < 2 ^ 31"
  shows "(client_identity r1 r2 \<noteq> None \<longleftrightarrow> r1 < 2 ^ 31 - 64 \<and> r2 < 2 ^ 31 - 64) \<and>
    (client_request n \<noteq> None \<longleftrightarrow> n < 1000000)"
proof
  have "length (zero_pad 4 (radix True 16 (CANNA_RAND 65536 r1)) @ ''-'' @
      zero_pad 4 (radix True 16 (CANNA_RAND 65536 r2)))
      = length (id_half r1) + 1 + length (id_half r2)" by (simp only: length_append) simp
  then show "client_identity r1 r2 \<noteq> None \<longleftrightarrow> r1 < 2 ^ 31 - 64 \<and> r2 < 2 ^ 31 - 64"
    unfolding length_id_half [OF assms(1)] length_id_half [OF assms(2)]
    by (simp add: client_identity_def print_into_def not_le)
  have "length (radix False 10 n) \<le> 6" if "n < 1000000"
    using length_radix_le [of 10 n 5 False] that by simp
  moreover have "7 \<le> length (radix False 10 n)" if "\<not> n < 1000000"
    using length_radix_ge [of 10 6 n False] that by simp
  ultimately show "client_request n \<noteq> None \<longleftrightarrow> n < 1000000"
    by (cases "n < 1000000") (auto simp: client_request_def print_into_def)
qed

section \<open>Rounds of the client\<close>

lemma client_polls_dump:
  "inbox (dealer c) () = concat (map parts msgs) \<Longrightarrow> [] \<notin> set msgs \<Longrightarrow>
   \<exists>hex. client_polls n c = Some (c\<lparr>dealer := (dealer c)\<lparr>inbox := \<lambda>_. concat (map parts (drop n msgs))\<rparr>, hex_out := hex\<rparr>)"
proof (induction n arbitrary: c msgs)
  case 0
  then have "inbox (dealer c) = (\<lambda>_. concat (map parts msgs))" by (intro ext) simp
  then have "c = c\<lparr>dealer := (dealer c)\<lparr>inbox := \<lambda>_. concat (map parts (drop 0 msgs))\<rparr>, hex_out := hex_out c\<rparr>"
    by (cases c; cases "dealer c") simp
  then show ?case by (intro exI [of _ "hex_out c"]) simp
next
  case (Suc n)
  show ?case
  proof (cases msgs)
    case Nil
    with Suc.prems have "\<not> readable () (dealer c)" by (simp add: readable_def)
    with Suc.IH [of c "[]"] Suc.prems Nil show ?thesis by simp
  next
    case (Cons m ms)
    with Suc.prems have m: "m \<noteq> []" "inbox (dealer c) () = parts m @ concat (map parts ms)" "[] \<notin> set ms" by auto
    from dump_loop_message [OF m(1), of "hex_out c" "concat (map parts ms)"] m(2) obtain lines hex where
      d: "canna_dump () (hex_out c) (dealer c) = Some (replicate 50 CHR ''-'' # lines, hex,
          (dealer c)\<lparr>inbox := (inbox (dealer c))(() := concat (map parts ms))\<rparr>)"
      by (auto simp: canna_dump_def)
    have "readable () (dealer c)" using m by (simp add: readable_def)
    with d Suc.IH [of "c\<lparr>dealer := (dealer c)\<lparr>inbox := (inbox (dealer c))(() := concat (map parts ms))\<rparr>, hex_out := hex\<rparr>" ms] m(3)
    show ?thesis by (simp add: Cons)
  qed
qed

text \<open>A round dumps at most a hundred of the messages waiting, in their order, and then sends one request.\<close>

theorem client_round_polls:
  assumes "inbox (dealer c) () = concat (map parts msgs)" and "[] \<notin> set msgs" and "sent_count c < 999999"
  shows "\<exists>c'. client_round c = Some c' \<and> sent_count c' = sent_count c + 1 \<and>
    inbox (dealer c') () = concat (map parts (drop 100 msgs)) \<and>
    outbox (dealer c') = outbox (dealer c) @ post () [''request #'' @ radix False 10 (sent_count c + 1)]"
proof -
  from client_polls_dump [OF assms(1,2), of 100] obtain hex where
    p: "client_polls 100 c = Some (c\<lparr>dealer := (dealer c)\<lparr>inbox := \<lambda>_. concat (map parts (drop 100 msgs))\<rparr>, hex_out := hex\<rparr>)"
    by blast
  have "length (radix False 10 (sent_count c + 1)) \<le> 6"
    using length_radix_le [of 10 "sent_count c + 1" 5 False] assms(3) by simp
  then have "client_request (sent_count c + 1) = Some (''request #'' @ radix False 10 (sent_count c + 1))"
    by (simp add: client_request_def print_into_def)
  with p show ?thesis by (simp add: client_round_def Let_def)
qed

section \<open>Copies\<close>

lemma send_copies_sends:
  "n \<le> length draws \<Longrightarrow> send_copies n draws identity msg w
    = Some (map (\<lambda>r. CANNA_RAND 1000 r + 1) (take n draws), drop n draws,
        w\<lparr>outbox := outbox w @ concat (replicate n (post () [identity, msg]))\<rparr>)"
proof (induction n arbitrary: draws w)
  case (Suc n)
  then obtain r rest where d: "draws = r # rest" "n \<le> length rest" by (cases draws) auto
  show ?case
    by (simp add: d Let_def Suc.IH [OF d(2)] canna_send_def canna_sendmore_def)
qed simp

text \<open>A round takes one message off the socket and sends it back at most five times, with its identity.\<close>

theorem worker_round_copies:
  assumes "inbox w () = parts [identity, msg] @ rest" and "r < 2 ^ 31" and "CANNA_RAND 5 r \<le> length draws"
  shows "\<exists>sleeps. worker_round (r # draws) w = Some (sleeps, drop (CANNA_RAND 5 r) draws,
      w\<lparr>inbox := (inbox w)(() := rest), outbox := outbox w @ concat (replicate (CANNA_RAND 5 r) (post () [identity, msg]))\<rparr>)
    \<and> length sleeps = CANNA_RAND 5 r \<and> CANNA_RAND 5 r \<le> 5"
proof -
  have "CANNA_RAND 5 r \<le> 5" using assms(2) by (intro CANNA_RAND_le) simp_all
  then show ?thesis using assms(1,3)
    by (simp add: worker_round_def canna_recv_def send_copies_sends)
qed

section \<open>Pairs out of step\<close>

text \<open>
  A broker publishes its name and its state as two messages. A subscriber that receives from the start
  shows them in pairs; one that missed the first message pairs every state with the next name.
\<close>

fun published :: "frame list \<Rightarrow> (frame \<times> bool) list" where
  "published [] = []"
| "published (n # ns) = (n, False) # (''ping'', False) # published ns"

lemma exchange_in_step:
  "inbox (states e) Statefe = published ns \<Longrightarrow>
   \<exists>e'. exchange_run self (length ns) e = Some e' \<and> shown e' = shown e @ map (\<lambda>n. (n, ''ping'')) ns"
proof (induction ns arbitrary: e)
  case (Cons n ns)
  let ?e = "e\<lparr>states := (states e)\<lparr>inbox := (inbox (states e))(Statefe := published ns)\<rparr>, shown := shown e @ [(n, ''ping'')]\<rparr>"
  from Cons.prems have "exchange_pass self e = Some ?e"
    by (simp add: exchange_pass_def canna_recv_def readable_def)
  with Cons.IH [of ?e] show ?case by auto
qed simp

theorem exchange_out_of_step:
  "inbox (states e) Statefe = (''ping'', False) # published ns \<Longrightarrow>
   \<exists>e'. exchange_run self (length ns) e = Some e' \<and> shown e' = shown e @ map (\<lambda>n. (''ping'', n)) ns \<and>
     exchange_pass self e' = None"
proof (induction ns arbitrary: e)
  case Nil
  then show ?case by (simp add: exchange_pass_def canna_recv_def readable_def)
next
  case (Cons n ns)
  let ?e = "e\<lparr>states := (states e)\<lparr>inbox := (inbox (states e))(Statefe := (''ping'', False) # published ns)\<rparr>,
    shown := shown e @ [(''ping'', n)]\<rparr>"
  from Cons.prems have "exchange_pass self e = Some ?e"
    by (simp add: exchange_pass_def canna_recv_def readable_def)
  with Cons.IH [of ?e] show ?case by auto
qed

end
