(* ===== verification/Socket_Sends.thy ===== *)
theory Socket_Sends
  imports Socket_Theorems
begin

text \<open>
  Sending end to end: other threads ask for bytes to be sent with \<open>server_send\<close> while the polling
  thread takes requests off the control pipe with \<open>ctrl_cmd\<close>, in any interleaving of the two.
  What the socket is written is the blocks in the order they were asked for, none lost and none
  twice, as far as the requests have been taken.
\<close>

section \<open>Interleavings\<close>

text \<open>
  One turn of a schedule: a thread posts a block of \<open>sz\<close> bytes at \<open>buf\<close>, with the bytes \<open>pkg\<close> left
  on its stack, or the polling thread serves a request, of which one must be in the pipe.
\<close>

datatype send_turn = Post "byte list" u64 int | Serve

fun play :: "os \<Rightarrow> (call list \<Rightarrow> byte list) \<Rightarrow> u32 \<Rightarrow> send_turn list \<Rightarrow> server \<Rightarrow> message \<Rightarrow> (server \<times> message) option" where
  "play os stk i [] st m = Some (st, m)"
| "play os stk i (Post pkg buf sz # ts) st m =
     Option.bind (server_send os pkg i buf sz st) (\<lambda>(n, st). play os stk i ts st m)"
| "play os stk i (Serve # ts) st m =
     Option.bind (ctrl_cmd os stk st m) (\<lambda>(ty, st, m). if ty = no_message then play os stk i ts st m else None)"

fun possible :: "nat \<Rightarrow> send_turn list \<Rightarrow> bool" where
  "possible n [] = True"
| "possible n (Post pkg buf sz # ts) = possible (Suc n) ts"
| "possible n (Serve # ts) = (0 < n \<and> possible (n - 1) ts)"

fun posted :: "send_turn list \<Rightarrow> (u64 \<times> int) list" where
  "posted [] = []"
| "posted (Post pkg buf sz # ts) = (buf, sz) # posted ts"
| "posted (Serve # ts) = posted ts"

fun served :: "send_turn list \<Rightarrow> nat" where
  "served [] = 0"
| "served (Post pkg buf sz # ts) = served ts"
| "served (Serve # ts) = Suc (served ts)"

fun turn_ok :: "send_turn \<Rightarrow> bool" where
  "turn_ok (Post pkg buf sz) = (length pkg = 520 \<and> int32 sz \<and> 0 \<le> sz)"
| "turn_ok Serve = True"

text \<open>The blocks written to sockets.\<close>

fun block_write :: "call \<Rightarrow> bool" where
  "block_write (Write_mem f b n) = True"
| "block_write c = False"

abbreviation block_writes :: "server \<Rightarrow> call list" where
  "block_writes st \<equiv> filter block_write (trace st)"

abbreviation send_reqs :: "u32 \<Rightarrow> (u64 \<times> int) list \<Rightarrow> request list" where
  "send_reqs i \<equiv> map (\<lambda>(b, sz). Send_req i b sz)"

abbreviation writes_to :: "int \<Rightarrow> (u64 \<times> int) list \<Rightarrow> call list" where
  "writes_to f \<equiv> map (\<lambda>(b, sz). Write_mem f b sz)"

section \<open>One turn\<close>

text \<open>A connected socket whose writes the operating system takes whole.\<close>

definition sendable :: "os \<Rightarrow> u32 \<Rightarrow> server \<Rightarrow> bool" where
  "sendable os i st \<longleftrightarrow> server_pipe os st \<and> sock_id (slot st (HASH_ID i)) = i \<and>
     sock_type (slot st (HASH_ID i)) = SOCKET_TYPE_CONNECTED \<and>
     protocol (slot st (HASH_ID i)) = PROTOCOL_TCP \<and> send_buffer_empty (slot st (HASH_ID i)) \<and>
     (\<forall>tr b sz. 0 \<le> sz \<longrightarrow> ret (os tr (Write_mem (fd (slot st (HASH_ID i))) b sz)) = sz)"

lemma sendable_trace [simp]: "sendable os i (st\<lparr>trace := tr\<rparr>) = sendable os i st"
  by (simp add: sendable_def)

lemma pipe_holds_emit_mem:
  "pipe_holds (emit (Write_mem f b n) st) reqs = pipe_holds st reqs"
  by (simp add: pipe_holds_def)

lemma post_turn:
  assumes "sendable os i st" and "pipe_holds st reqs" and "length pkg = 520" and "int32 sz"
  shows "\<exists>tr n. server_send os pkg i buf sz st = Some (n, st\<lparr>trace := tr\<rparr>) \<and>
    pipe_holds (st\<lparr>trace := tr\<rparr>) (reqs @ [Send_req i buf sz]) \<and>
    filter block_write tr = block_writes st"
proof -
  have s: "server_pipe os st" "sock_id (slot st (HASH_ID i)) = i"
      "sock_type (slot st (HASH_ID i)) \<noteq> SOCKET_TYPE_INVALID"
    using assms(1) by (simp_all add: sendable_def)
  obtain fr where fr: "server_send os pkg i buf sz st =
      map_option (\<lambda>st. (wb_size (slot st (HASH_ID i)), st)) (send_loop os fr st)"
      "is_frame fr (Send_req i buf sz)"
    using server_send_frame [OF assms(3,4) s(2,3), of os buf] by blast
  let ?tr = "trace st @ [Write (sendctrl_fd st) fr]"
  have "pipe_holds (st\<lparr>trace := ?tr\<rparr>) (reqs @ [Send_req i buf sz])"
    using pipe_holds_write [OF assms(2) fr(2) s(1)] send_loop_pipe [OF s(1), of fr] by (simp add: emit_def)
  then show ?thesis
    using fr(1) send_loop_pipe [OF s(1), of fr] by (intro exI [of _ ?tr]) (simp add: emit_def)
qed

lemma serve_turn:
  assumes "sendable os i st" and "pipe_holds st (Send_req i buf sz # reqs)" and "0 \<le> sz"
  shows "\<exists>tr. ctrl_cmd os stk st m = Some (no_message, st\<lparr>trace := tr\<rparr>, m) \<and>
    pipe_holds (st\<lparr>trace := tr\<rparr>) reqs \<and>
    filter block_write tr = block_writes st @ [Write_mem (fd (slot st (HASH_ID i))) buf sz]"
proof -
  have pipe: "server_pipe os st" using assms(1) by (simp add: sendable_def)
  obtain st' n where st': "ctrl_cmd os stk st m = handle os (Send_req i buf sz) st' m" "pipe_holds st' reqs"
      "st' = st\<lparr>trace := trace st @ [Read (recvctrl_fd st) 2, Read (recvctrl_fd st) n]\<rparr>"
    using pipe_holds_read [OF assms(2) pipe, of stk m] by blast
  have "send_socket os \<lparr>d_id = i, d_sz = sz, d_buffer = buf\<rparr> st' m =
      Some (no_message, emit (Write_mem (fd (slot st (HASH_ID i))) buf sz) st', m)"
    using assms(1,3) by (auto simp: send_socket_def st'(3) sendable_def Let_def sys_split)
  moreover have "pipe_holds (emit (Write_mem (fd (slot st (HASH_ID i))) buf sz) st') reqs"
    using st'(2) by (simp add: pipe_holds_emit_mem)
  ultimately show ?thesis
    using st'(1,3) by (intro exI [of _ "trace st' @ [Write_mem (fd (slot st (HASH_ID i))) buf sz]"]) (simp add: emit_def)
qed

section \<open>Schedules\<close>

lemma play_queue:
  assumes "sendable os i st" and "pipe_holds st (send_reqs i q)" and "\<forall>(b, sz) \<in> set q. 0 \<le> sz"
    and "list_all turn_ok ts" and "possible (length q) ts"
  shows "\<exists>tr. play os stk i ts st m = Some (st\<lparr>trace := tr\<rparr>, m) \<and>
    pipe_holds (st\<lparr>trace := tr\<rparr>) (send_reqs i (drop (served ts) (q @ posted ts))) \<and>
    filter block_write tr = block_writes st @
      writes_to (fd (slot st (HASH_ID i))) (take (served ts) (q @ posted ts))"
  using assms
proof (induction ts arbitrary: st q)
  case Nil
  then show ?case by (intro exI [of _ "trace st"]) simp
next
  case (Cons t ts)
  show ?case
  proof (cases t)
    case (Post pkg buf sz)
    obtain tr n where tr: "server_send os pkg i buf sz st = Some (n, st\<lparr>trace := tr\<rparr>)"
        "pipe_holds (st\<lparr>trace := tr\<rparr>) (send_reqs i (q @ [(buf, sz)]))" "filter block_write tr = block_writes st"
      using post_turn [OF Cons.prems(1,2), of pkg sz buf] Cons.prems(4) Post by auto
    show ?thesis
      using Cons.IH [of "st\<lparr>trace := tr\<rparr>" "q @ [(buf, sz)]"] Cons.prems tr Post by auto
  next
    case Serve
    then obtain b sz r where q: "q = (b, sz) # r" using Cons.prems(5) by (cases q) auto
    obtain tr where tr: "ctrl_cmd os stk st m = Some (no_message, st\<lparr>trace := tr\<rparr>, m)"
        "pipe_holds (st\<lparr>trace := tr\<rparr>) (send_reqs i r)"
        "filter block_write tr = block_writes st @ [Write_mem (fd (slot st (HASH_ID i))) b sz]"
      using serve_turn [OF Cons.prems(1), of b sz "send_reqs i r" stk m] Cons.prems(2,3) q by auto
    show ?thesis
      using Cons.IH [of "st\<lparr>trace := tr\<rparr>" r] Cons.prems tr Serve q by auto
  qed
qed


text \<open>Two threads send three blocks, and the first two have been taken.\<close>

definition send_os :: os where
  "send_os tr c = (case c of Write_mem f b n \<Rightarrow> null_reply\<lparr>ret := n\<rparr> | _ \<Rightarrow> pipe_os tr c)"

definition send_turns :: "send_turn list" where
  "send_turns = [Post (replicate 520 1) 4096 11, Post (replicate 520 2) 8192 7, Serve,
     Post (replicate 520 3) 4096 5, Serve]"

lemma send_os_sendable: "sendable send_os 3 (one_socket SOCKET_TYPE_CONNECTED)"
proof -
  have "srv_ok (one_socket SOCKET_TYPE_CONNECTED)" by (rule one_socket_ok) simp_all
  then have "send_buffer_empty (slot (one_socket SOCKET_TYPE_CONNECTED) 3)"
    using slot_empty [of "one_socket SOCKET_TYPE_CONNECTED" 3] by (simp add: MAX_SOCKET_def)
  moreover have "pipe_law send_os 5 4"
    using pipe_os_law by (simp add: pipe_law_def send_os_def)
  ultimately show ?thesis
    by (simp add: sendable_def HASH_3 blank_socket_def send_os_def null_reply_def)
       (simp add: one_socket_def blank_server_def)
qed


end
