(* ===== verification/Gate_Demo.thy ===== *)
theory Gate_Demo
  imports Socket_Theorems
begin

text \<open>
  The demonstration program of the gate server, \<^verbatim>\<open>gateserver/test.cpp\<close>: the main thread starts the
  server, opens a listener and prints what \<open>poll\<close> returns; a client thread connects to the
  listener through the same server and sends it a text. Sleeping has no effect on the state.
  The arguments \<open>pkg\<close> are the bytes left on the stack of each call.
\<close>

section \<open>The main thread\<close>

definition demo_start :: "os \<Rightarrow> byte list \<Rightarrow> byte list \<Rightarrow> server \<Rightarrow> (u32 \<times> server) option" where
  "demo_start os pkg pkg' st = do {
     st \<leftarrow> initialize os st;
     (l, st) \<leftarrow> server_listen os pkg 100 None 8888 32 st;
     st \<leftarrow> server_start os pkg' 101 l st;
     Some (l, st) }"

text \<open>\<^verbatim>\<open>%s\<close> of a null pointer is undefined, and so is a block without an end mark.\<close>

definition data_text :: "msg_data \<Rightarrow> string option" where
  "data_text d =
     (case d of
        Nullptr \<Rightarrow> None
      | Literal s \<Rightarrow> Some s
      | Info s \<Rightarrow> Some s
      | Heap p bs \<Rightarrow> c_string bs 0)"

text \<open>The text \<^verbatim>\<open>what(opaque) [id = n]\<close> all lines begin with.\<close>

definition line_head :: "string \<Rightarrow> message \<Rightarrow> string" where
  "line_head what m =
     what @ ''('' @ decimal (unat (msg_opaque m)) @ '') [id = '' @ show_int (sint (msg_id m)) @ '']''"

definition demo_print :: "int \<Rightarrow> message \<Rightarrow> string list option" where
  "demo_print ty m =
     (if ty = SOCKET_DATA then Some [line_head ''message'' m @ '' size = '' @ show_int (msg_ud m)]
      else if ty = SOCKET_CLOSE then Some [line_head ''close'' m]
      else if ty = SOCKET_OPEN then map_option (\<lambda>s. [line_head ''open'' m @ '', '' @ s]) (data_text (msg_data m))
      else if ty = SOCKET_ERROR then Some [line_head ''error'' m]
      else if ty = SOCKET_ACCEPT then Some [line_head ''accept'' m]
      else Some [])"

text \<open>
  The loop after at most \<open>n\<close> calls of \<open>poll\<close>: still running, or returned with \<open>-1\<close>. The lines printed
  are collected; the result is missing when a call of \<open>poll\<close> does not return.
\<close>

datatype demo = Running server message int "string list" | Exited server "string list"

fun demo_loop ::
  "os \<Rightarrow> (call list \<Rightarrow> byte list) \<Rightarrow> nat \<Rightarrow> server \<Rightarrow> message \<Rightarrow> int \<Rightarrow> string list \<Rightarrow> demo option" where
  "demo_loop os stk 0 st m mr out = Some (Running st m mr out)"
| "demo_loop os stk (Suc n) st m mr out = do {
     (ty, st, m, mr) \<leftarrow> poll os stk st m mr;
     if ty = SOCKET_EXIT then Some (Exited st out)
     else do {
       lines \<leftarrow> demo_print ty m;
       demo_loop os stk n st m mr (out @ lines) } }"

section \<open>The client thread\<close>

text \<open>Its two calls; the text is copied to a block of its length, and copying to null is undefined.\<close>

definition demo_connect :: "os \<Rightarrow> byte list \<Rightarrow> server \<Rightarrow> (u32 \<times> server) option" where
  "demo_connect os pkg st = server_connect os pkg 400 ''127.0.0.1'' 8888 st"

definition demo_send :: "os \<Rightarrow> byte list \<Rightarrow> u32 \<Rightarrow> server \<Rightarrow> server option" where
  "demo_send os pkg i st = do {
     let info = ''hello world'';
     let (p, st) = sys os (Malloc (int (length info))) st;
     if r_ptr p = 0 then None
     else do {
       (n, st) \<leftarrow> server_send os pkg i (r_ptr p) (int (length info)) st;
       Some st } }"

section \<open>Polling a request\<close>

lemma poll_serves:
  assumes "checkctrl st" and "server_pipe os st" and "pipe_holds st (req # reqs)"
    and "ret (os (trace st) (Select (recvctrl_fd st))) = 1"
  shows "\<exists>tr. pipe_holds (st\<lparr>trace := tr\<rparr>) reqs \<and>
    (\<forall>ty st' m'. handle os req (st\<lparr>trace := tr\<rparr>) m = Some (ty, st', m') \<longrightarrow>
      poll os stk st m mr = (if ty = no_message then poll os stk st' m' mr
        else Some (ty, clear_closed_event m' ty st', m', mr)))"
proof -
  define st0 where "st0 = emit (Select (recvctrl_fd st)) st"
  have "pipe_holds st0 (req # reqs)" "server_pipe os st0" using assms by (simp_all add: st0_def pipe_holds_def)
  from pipe_holds_read [OF this, of stk m] obtain st1 n where st1: "ctrl_cmd os stk st0 m = handle os req st1 m"
      "pipe_holds st1 reqs"
      "st1 = st0\<lparr>trace := trace st0 @ [Read (recvctrl_fd st0) 2, Read (recvctrl_fd st0) n]\<rparr>" by blast
  have eq: "st1 = st\<lparr>trace := trace st1\<rparr>" by (simp add: st1(3) st0_def emit_def)
  have "poll os stk st m mr = (if ty = no_message then poll os stk st' m' mr
      else Some (ty, clear_closed_event m' ty st', m', mr))"
    if "handle os req st1 m = Some (ty, st', m')" for ty st' m'
    using assms that st1(1)
    by (subst poll.simps) (simp add: poll_turn_def has_cmd_def sys_split ctrl_turn_def st0_def)
  then show ?thesis using st1(2) eq by metis
qed

lemma pipe_holds_waiting: "pipe_holds st (req # reqs) \<Longrightarrow> waiting_bytes st \<noteq> []"
  by (auto simp: pipe_holds_def list_all2_Cons2 is_frame_def)

section \<open>Starting up\<close>

lemma do_bind_frame:
  "do_bind os host port p st = Some (f, st') \<Longrightarrow>
   \<exists>tr. st' = st\<lparr>trace := tr\<rparr> \<and> pipe_bytes w r tr = pipe_bytes w r (trace st)"
  by (rule exI [of _ "trace st'"])
     (auto simp: do_bind_def Let_def sys_split bind_eq_Some_conv emit_def pipe_bytes_def
      split: if_splits list.splits)

lemma do_listen_frame:
  assumes "do_listen os host port b st = Some (f, st')"
  shows "\<exists>tr. st' = st\<lparr>trace := tr\<rparr> \<and> pipe_bytes w r tr = pipe_bytes w r (trace st)"
proof -
  obtain g st1 where st1: "do_bind os host port 6 st = Some (g, st1)"
    using assms by (auto simp: do_listen_def bind_eq_Some_conv)
  obtain tr where "st1 = st\<lparr>trace := tr\<rparr>" "pipe_bytes w r tr = pipe_bytes w r (trace st)"
    using do_bind_frame [OF st1] by blast
  with assms st1 show ?thesis
    by (intro exI [of _ "trace st'"])
       (auto simp: do_listen_def sys_split emit_def pipe_bytes_def split: if_splits)
qed

text \<open>The first number of a server without sockets is 1.\<close>

lemma reserve_loop_first:
  assumes "alloc_id st = 0" and "sock_type (slot st 1) = SOCKET_TYPE_INVALID"
  shows "reserve_loop (Suc n) st = (1, reserved 1 st)"
proof -
  have "HASH_ID 1 = 1" by (simp add: HASH_ID_def MAX_SOCKET_def)
  then show ?thesis using assms by (simp add: draw_id_def Let_def reserved_def del: One_nat_def)
qed

lemma reserve_first:
  assumes "alloc_id st = 0" and "sock_type (slot st 1) = SOCKET_TYPE_INVALID"
  shows "reserve_id st = (1, reserved 1 st)"
  using reserve_loop_first [OF assms, of 65535] by (simp add: reserve_id_def MAX_SOCKET_def)

lemma listen_request:
  assumes "sock_type (slot st (HASH_ID i)) = SOCKET_TYPE_RESERVE"
  shows "\<exists>st'. handle os (Listen_req opq i f) st m = Some (no_message, st', m) \<and>
    st' = st\<lparr>slot := (slot st)(HASH_ID i := (slot st (HASH_ID i))\<lparr>sock_id := i, fd := f,
      protocol := PROTOCOL_TCP, opaque := opq, sock_type := SOCKET_TYPE_PLISTEN\<rparr>)\<rparr>"
  using assms by (simp add: listen_socket_def new_socket_def Let_def set_type_def set_slot_def)

text \<open>What starting needs of the operating system: everything the three calls ask for succeeds.\<close>

definition select_law :: "os \<Rightarrow> int \<Rightarrow> int \<Rightarrow> bool" where
  "select_law os w r \<longleftrightarrow> (\<forall>tr. pipe_bytes w r tr \<noteq> [] \<longrightarrow> ret (os tr (Select r)) = 1)"

definition demo_comes_up :: "os \<Rightarrow> server \<Rightarrow> int \<Rightarrow> bool" where
  "demo_comes_up os st0 f \<longleftrightarrow> init_comes_up os st0 \<and> length (ev st0) = MAX_EVENT \<and> trace st0 = [] \<and>
     0 \<le> f \<and> int32 f \<and> (\<forall>tr e f p fl. ret (os tr (Epoll_add e f p fl)) \<noteq> - 1) \<and>
     (case initialize os st0 of
        None \<Rightarrow> False
      | Some st \<Rightarrow> server_pipe os st \<and> select_law os (sendctrl_fd st) (recvctrl_fd st) \<and>
          map_option fst (do_listen os None 8888 32 st) = Some f)"

lemma initialize_quiet:
  assumes "initialize os st0 = Some st" and "trace st0 = []"
  shows "pipe_bytes w r (trace st) = []"
  using assms by (auto simp: initialize_def ep_create_def ep_invalid_def ep_add_def ep_release_def sys_split
      Let_def init_slots_rest pipe_bytes_def emit_def split: if_splits)

lemma demo_posted:
  assumes "demo_comes_up os st0 f" and "length pkg = 520" and "length pkg' = 520"
  shows "\<exists>st. demo_start os pkg pkg' st0 = Some (1, st) \<and>
    pipe_holds st [Listen_req 100 1 f, Start_req 101 1] \<and> server_pipe os st \<and>
    select_law os (sendctrl_fd st) (recvctrl_fd st) \<and> checkctrl st \<and>
    sock_type (slot st 1) = SOCKET_TYPE_RESERVE"
proof -
  have up: "init_comes_up os st0" "length (ev st0) = MAX_EVENT" "trace st0 = []" "0 \<le> f" "int32 f"
    using assms(1) by (simp_all add: demo_comes_up_def)
  obtain st where st: "initialize os st0 = Some st" "checkctrl st" "alloc_id st = 0" "free_slot st 1"
    using initialize_up [OF up(1,2)] up(3) by (force simp: MAX_SOCKET_def)
  obtain st1 where st1: "server_pipe os st" "select_law os (sendctrl_fd st) (recvctrl_fd st)"
      "do_listen os None 8888 32 st = Some (f, st1)"
    using assms(1) st(1) by (auto simp: demo_comes_up_def)
  obtain tr where eq: "st1 = st\<lparr>trace := tr\<rparr>" "pipe_bytes (sendctrl_fd st) (recvctrl_fd st) tr = []"
    using do_listen_frame [OF st1(3)] initialize_quiet [OF st(1) up(3)] by metis
  define st2 where "st2 = reserved 1 st1"
  have first: "reserve_id st1 = (1, st2)" unfolding st2_def by (rule reserve_first) (simp_all add: eq st(3,4) del: One_nat_def)
  have H: "HASH_ID 1 = 1" by (simp add: HASH_ID_def MAX_SOCKET_def)
  have same: "trace st2 = tr" "sendctrl_fd st2 = sendctrl_fd st" "recvctrl_fd st2 = recvctrl_fd st"
      "checkctrl st2" "sock_type (slot st2 1) = SOCKET_TYPE_RESERVE"
    using st(2) by (simp_all add: st2_def eq(1) reserved_def set_slot_def H)
  have pipe2: "server_pipe os st2" "pipe_holds st2 []" using st1(1) eq(2) by (simp_all add: same pipe_holds_def)
  obtain fr where fr: "server_listen os pkg 100 None 8888 32 st =
      map_option (\<lambda>st. (1, st)) (send_loop os fr st2)" "is_frame fr (Listen_req 100 1 f)"
    using server_listen_frame [OF assms(2) up(5) st1(3) up(4) first, of 100] by auto
  define st3 where "st3 = emit (Write (sendctrl_fd st2) fr) st2"
  have holds3: "pipe_holds st3 [Listen_req 100 1 f]"
    using pipe_holds_write [OF pipe2(2) fr(2) pipe2(1)] send_loop_pipe [OF pipe2(1)] by (simp add: st3_def)
  have pipe3: "server_pipe os st3" using pipe2(1) by (simp add: st3_def)
  obtain fs where fs: "server_start os pkg' 101 1 st3 = send_loop os fs st3" "is_frame fs (Start_req 101 1)"
    using server_start_frame [OF assms(3)] by blast
  define st4 where "st4 = emit (Write (sendctrl_fd st3) fs) st3"
  have holds4: "pipe_holds st4 [Listen_req 100 1 f, Start_req 101 1]"
    using pipe_holds_write [OF holds3 fs(2) pipe3] send_loop_pipe [OF pipe3] by (simp add: st4_def)
  have "demo_start os pkg pkg' st0 = Some (1, st4)"
    using fr(1) fs(1) send_loop_pipe [OF pipe2(1)] send_loop_pipe [OF pipe3]
    by (simp add: demo_start_def st(1) st3_def st4_def)
  then show ?thesis
    using holds4 pipe3 st1(2) same by (auto simp: st3_def st4_def)
qed

text \<open>One call of \<open>poll\<close> serves a listen request, of which nothing is reported, and the start after it.\<close>

lemma poll_listen_start:
  assumes "pipe_holds st [Listen_req opq i f, Start_req opq' i]" and "server_pipe os st"
    and "select_law os (sendctrl_fd st) (recvctrl_fd st)" and "checkctrl st"
    and "sock_type (slot st (HASH_ID i)) = SOCKET_TYPE_RESERVE"
    and add: "\<forall>tr e f p fl. ret (os tr (Epoll_add e f p fl)) \<noteq> - 1"
  shows "\<exists>st' e. poll os stk st m mr = Some (SOCKET_OPEN, st',
      m\<lparr>msg_id := i, msg_opaque := opq', msg_ud := 0, msg_data := Literal ''start''\<rparr>, mr) \<and>
    sock_type (slot st' (HASH_ID i)) = SOCKET_TYPE_LISTEN \<and> fd (slot st' (HASH_ID i)) = f \<and>
    opaque (slot st' (HASH_ID i)) = opq' \<and> Epoll_add e f (Some (HASH_ID i)) EPOLLIN \<in> set (trace st')"
proof -
  let ?k = "HASH_ID i"
  have sel: "ret (os (trace st) (Select (recvctrl_fd st))) = 1"
    using assms(3) pipe_holds_waiting [OF assms(1)] by (simp add: select_law_def)
  obtain tr where tr: "pipe_holds (st\<lparr>trace := tr\<rparr>) [Start_req opq' i]"
      "\<And>ty st' m'. handle os (Listen_req opq i f) (st\<lparr>trace := tr\<rparr>) m = Some (ty, st', m') \<Longrightarrow>
        poll os stk st m mr = (if ty = no_message then poll os stk st' m' mr
          else Some (ty, clear_closed_event m' ty st', m', mr))"
    using poll_serves [OF assms(4,2,1) sel] by blast
  obtain st2 where st2: "poll os stk st m mr = poll os stk st2 m mr"
      "st2 = st\<lparr>trace := tr, slot := (slot st)(?k := (slot st ?k)\<lparr>sock_id := i, fd := f,
        protocol := PROTOCOL_TCP, opaque := opq, sock_type := SOCKET_TYPE_PLISTEN\<rparr>)\<rparr>"
    using tr(2) listen_request [of "st\<lparr>trace := tr\<rparr>" i os opq f m] assms(5) by auto
  have hold2: "pipe_holds st2 [Start_req opq' i]" using tr(1) by (simp add: st2(2) pipe_holds_def)
  have "ret (os (trace st2) (Select (recvctrl_fd st2))) = 1"
    using assms(3) pipe_holds_waiting [OF hold2] by (simp add: select_law_def st2(2))
  then obtain tr' where tr': "\<And>ty st' m'. handle os (Start_req opq' i) (st2\<lparr>trace := tr'\<rparr>) m = Some (ty, st', m') \<Longrightarrow>
        poll os stk st2 m mr = (if ty = no_message then poll os stk st' m' mr
          else Some (ty, clear_closed_event m' ty st', m', mr))"
    using poll_serves [OF _ _ hold2] assms(2,4) by (force simp: st2(2))
  show ?thesis
    using start_handled [of "st2\<lparr>trace := tr'\<rparr>" i os opq' m] add st2(1) tr'
    by (force simp: st2(2) clear_closed_event_def)
qed

text \<open>
  C30: what the demonstration prints first. When everything the main thread asks for at the start
  succeeds and \<^verbatim>\<open>select\<close> reports a pipe that holds bytes, the listener on the socket \<open>f\<close> that was bound
  gets the number 1; the first call of \<open>poll\<close> serves both requests and the line printed is
  \<^verbatim>\<open>open(101) [id = 1], start\<close>, whatever was on any stack and in the message; the slot of 1 is then a
  listener on \<open>f\<close> owned by 101, registered with epoll.
\<close>

theorem demo_opens:
  assumes "demo_comes_up os st0 f" and "length pkg = 520" and "length pkg' = 520"
  shows "\<exists>st st' m' e. demo_start os pkg pkg' st0 = Some (1, st) \<and>
    demo_loop os stk 1 st m mr [] = Some (Running st' m' mr [''open(101) [id = 1], start'']) \<and>
    sock_type (slot st' 1) = SOCKET_TYPE_LISTEN \<and> fd (slot st' 1) = f \<and> opaque (slot st' 1) = 101 \<and>
    Epoll_add e f (Some 1) EPOLLIN \<in> set (trace st')"
proof -
  have H: "HASH_ID 1 = 1" by (simp add: HASH_ID_def MAX_SOCKET_def)
  have add: "\<forall>tr e f p fl. ret (os tr (Epoll_add e f p fl)) \<noteq> - 1"
    using assms(1) by (simp add: demo_comes_up_def)
  obtain st where st: "demo_start os pkg pkg' st0 = Some (1, st)"
      "pipe_holds st [Listen_req 100 1 f, Start_req 101 1]" "server_pipe os st"
      "select_law os (sendctrl_fd st) (recvctrl_fd st)" "checkctrl st" "sock_type (slot st (HASH_ID 1)) = SOCKET_TYPE_RESERVE"
    using demo_posted [OF assms] by (auto simp: H)
  define m' where "m' = m\<lparr>msg_id := 1, msg_opaque := 101, msg_ud := 0, msg_data := Literal ''start''\<rparr>"
  obtain st' e where st': "poll os stk st m mr = Some (SOCKET_OPEN, st', m', mr)"
      "sock_type (slot st' 1) = SOCKET_TYPE_LISTEN" "fd (slot st' 1) = f" "opaque (slot st' 1) = 101"
      "Epoll_add e f (Some 1) EPOLLIN \<in> set (trace st')"
    using poll_listen_start [OF st(2-6) add, of stk m mr] unfolding H m'_def by blast
  have "demo_print SOCKET_OPEN m' = Some [''open(101) [id = 1], start'']"
    by (simp add: demo_print_def line_head_def data_text_def m'_def show_int_def decimal.simps char_of_def bit_0)
  then show ?thesis using st(1) st' by auto
qed

lemma kind_os_comes_up: "demo_comes_up kind_os blank_server 7"
proof -
  have up: "init_comes_up kind_os blank_server"
    by (simp add: init_comes_up_def kind_os_def null_reply_def blank_server_def FD_SETSIZE_def)
  then obtain st where st: "initialize kind_os blank_server = Some st"
    using initialize_up [OF _ blank_events(1)] blank_events(2) by force
  then have fds: "sendctrl_fd st = 5" "recvctrl_fd st = 4"
    by (auto simp: initialize_def ep_create_def ep_invalid_def ep_add_def sys_split Let_def init_slots_rest
        kind_os_def null_reply_def FD_SETSIZE_def split: if_splits)
  have "select_law kind_os 5 4" by (simp add: select_law_def kind_os_def)
  moreover have "map_option fst (do_listen kind_os None 8888 32 st) = Some 7"
    by (simp add: do_listen_def do_bind_def sys_split Let_def kind_os_def null_reply_def)
  ultimately show ?thesis
    using up kind_os_pipe by (simp add: demo_comes_up_def blank_events st fds int32_def kind_os_def null_reply_def)
qed

theorem demo_opens_witness:
  "\<exists>st st' m. demo_start kind_os (replicate 520 7) (replicate 520 9) blank_server = Some (1, st) \<and>
     demo_loop kind_os (\<lambda>_. [3]) 1 st blank_message 1 [] = Some (Running st' m 1 [''open(101) [id = 1], start'']) \<and>
     fd (slot st' 1) = 7"
  using demo_opens [OF kind_os_comes_up, of "replicate 520 7" "replicate 520 9" "\<lambda>_. [3]" blank_message 1]
  by (simp del: One_nat_def) blast

text \<open>The loop returns exactly when a call of \<open>poll\<close> says \<^verbatim>\<open>SOCKET_EXIT\<close>, and prints nothing for it.\<close>

lemma demo_loop_exits:
  "poll os stk st m mr = Some (SOCKET_EXIT, st', m', mr') \<Longrightarrow>
   demo_loop os stk (Suc n) st m mr out = Some (Exited st' out)"
  by simp

text \<open>
  A message that a socket has opened without a text cannot be printed; and when a connection is
  established and \<^verbatim>\<open>getpeername\<close> succeeds with 0, that is the message \<open>report_connect\<close> makes.
\<close>

lemma open_without_text:
  "poll os stk st m mr = Some (SOCKET_OPEN, st', m', mr') \<Longrightarrow> msg_data m' = Nullptr \<Longrightarrow>
   demo_loop os stk (Suc n) st m mr out = None"
  by (simp add: demo_print_def data_text_def)

lemma connect_prints_null:
  assumes "report_connect os k st m = Some (SOCKET_OPEN, st', m')" and "send_buffer_empty (slot st k)"
    and "\<forall>tr. ret (os tr (Getpeername (fd (slot st k)))) = 0"
  shows "demo_print SOCKET_OPEN m' = None"
proof -
  have "msg_data m' = Nullptr"
    using assms by (auto simp: report_connect_def Let_def sys_split set_type_def ep_write_def split: if_splits)
  then show ?thesis by (simp add: demo_print_def data_text_def)
qed

end
