(* ===== verification/Router_Pair.thy ===== *)
theory Router_Pair
  imports Zmq_Wire
begin

text \<open>
  The two programs that talk through pairs of ROUTER sockets, \<^verbatim>\<open>example/rrnode.cpp\<close> and
  \<^verbatim>\<open>example/rrclient.cpp\<close>. What ZeroMQ delivers is the inboxes of the four sockets; a ROUTER socket
  puts the identity of the sender in front of a message. Printing is the record of what was received.
\<close>

section \<open>The node\<close>

datatype node_port = Sink | Front

record node =
  node_sockets :: "node_port wire"
  node_shown :: "(frame \<times> frame) list"

definition node_sink :: "node \<Rightarrow> node option" where
  "node_sink b =
     (if readable Sink (node_sockets b)
      then do {
        (identity, w) \<leftarrow> canna_recv Sink (node_sockets b);
        (reply, w) \<leftarrow> canna_recv Sink w;
        let w = canna_send Sink ''ACK'' (canna_sendmore Sink ''APPPLE'' w);
        Some (b\<lparr>node_sockets := w, node_shown := node_shown b @ [(identity, reply)]\<rparr>) }
      else Some b)"

definition node_pass :: "node \<Rightarrow> node option" where
  "node_pass b = do {
     b \<leftarrow> node_sink b;
     let w = canna_send Front ''hello world'' (canna_sendmore Front ''APPPLE1'' (node_sockets b));
     Some (b\<lparr>node_sockets := w\<rparr>) }"

fun node_run :: "nat \<Rightarrow> node \<Rightarrow> node option" where
  "node_run 0 b = Some b"
| "node_run (Suc n) b = Option.bind (node_pass b) (node_run n)"

section \<open>The client\<close>

datatype peer_port = Sock | Back

record peer =
  peer_sockets :: "peer_port wire"
  peer_shown :: "(peer_port \<times> frame \<times> frame) list"

definition peer_read :: "peer_port \<Rightarrow> peer \<Rightarrow> peer option" where
  "peer_read p c =
     (if readable p (peer_sockets c)
      then do {
        (identity, w) \<leftarrow> canna_recv p (peer_sockets c);
        (reply, w) \<leftarrow> canna_recv p w;
        Some (c\<lparr>peer_sockets := w, peer_shown := peer_shown c @ [(p, identity, reply)]\<rparr>) }
      else Some c)"

text \<open>Both sockets are polled at once, before either is read; reading one leaves the other alone.\<close>

definition peer_pass :: "peer \<Rightarrow> peer option" where
  "peer_pass c = do {
     let w = canna_send Sock ''Hello World!!!'' (canna_sendmore Sock ''PURPLE'' (peer_sockets c));
     c \<leftarrow> peer_read Sock (c\<lparr>peer_sockets := w\<rparr>);
     peer_read Back c }"

fun peer_run :: "nat \<Rightarrow> peer \<Rightarrow> peer option" where
  "peer_run 0 c = Some c"
| "peer_run (Suc n) c = Option.bind (peer_pass c) (peer_run n)"

section \<open>What they do\<close>

text \<open>Messages of an identity and one frame, as they lie in an inbox.\<close>

definition pair_frames :: "(frame \<times> frame) list \<Rightarrow> (frame \<times> bool) list" where
  "pair_frames ms = concat (map (\<lambda>(i, d). parts [i, d]) ms)"

lemma pair_frames_simps [simp]:
  "pair_frames [] = []" "pair_frames ((i, d) # ms) = (i, True) # (d, False) # pair_frames ms"
  by (simp_all add: pair_frames_def)

text \<open>What a pass of the node sends: an acknowledgement if there was a message, and the greeting.\<close>

definition node_sends :: "bool \<Rightarrow> (node_port \<times> frame \<times> bool) list" where
  "node_sends got = (if got then post Sink [''APPPLE'', ''ACK''] else []) @ post Front [''APPPLE1'', ''hello world'']"

lemma node_pass_step:
  assumes "inbox (node_sockets b) Sink = pair_frames ms"
  shows "\<exists>b'. node_pass b = Some b' \<and> inbox (node_sockets b') Sink = pair_frames (tl ms) \<and>
    node_shown b' = node_shown b @ take 1 ms \<and>
    outbox (node_sockets b') = outbox (node_sockets b) @ node_sends (ms \<noteq> [])"
  using assms
  by (cases ms) (auto simp: node_pass_def node_sink_def readable_def canna_recv_def node_sends_def)

text \<open>
  The node, over any number of passes: it takes one message in each, in order, acknowledges exactly
  those, all to the one identity it knows, and sends its greeting in every pass.
\<close>

lemma node_run_acknowledges:
  assumes "inbox (node_sockets b) Sink = pair_frames ms"
  shows "\<exists>b'. node_run n b = Some b' \<and> inbox (node_sockets b') Sink = pair_frames (drop n ms) \<and>
    node_shown b' = node_shown b @ take n ms \<and>
    outbox (node_sockets b') =
      outbox (node_sockets b) @ concat (map (\<lambda>k. node_sends (k < length ms)) [0..<n])"
  using assms
proof (induction n arbitrary: b ms)
  case (Suc n)
  obtain b1 where b1: "node_pass b = Some b1" "inbox (node_sockets b1) Sink = pair_frames (tl ms)"
      "node_shown b1 = node_shown b @ take 1 ms"
      "outbox (node_sockets b1) = outbox (node_sockets b) @ node_sends (ms \<noteq> [])"
    using node_pass_step [OF Suc.prems] by blast
  obtain b2 where b2: "node_run n b1 = Some b2" "inbox (node_sockets b2) Sink = pair_frames (drop n (tl ms))"
      "node_shown b2 = node_shown b1 @ take n (tl ms)"
      "outbox (node_sockets b2) = outbox (node_sockets b1) @ concat (map (\<lambda>k. node_sends (k < length (tl ms))) [0..<n])"
    using Suc.IH [OF b1(2)] by blast
  have "map (\<lambda>k. node_sends (k < length ms)) [0..<Suc n] =
      node_sends (ms \<noteq> []) # map (\<lambda>k. node_sends (k < length (tl ms))) [0..<n]"
    by (simp add: map_upt_Suc del: upt_Suc) (auto simp: less_diff_conv)
  moreover have "take 1 ms @ take n (tl ms) = take (Suc n) ms" by (cases ms) simp_all
  moreover have "drop n (tl ms) = drop (Suc n) ms" by (simp add: drop_Suc)
  ultimately show ?case using b1 b2 by (simp del: upt_Suc)
qed (simp add: take_Suc_conv_app_nth)

text \<open>
  The client sends one message in each pass and takes at most one from each of its two sockets.
\<close>

lemma peer_pass_step:
  assumes "inbox (peer_sockets c) Sock = pair_frames as" and "inbox (peer_sockets c) Back = pair_frames bs"
  shows "\<exists>c'. peer_pass c = Some c' \<and> inbox (peer_sockets c') Sock = pair_frames (tl as) \<and>
    inbox (peer_sockets c') Back = pair_frames (tl bs) \<and>
    peer_shown c' = peer_shown c @ map (Pair Sock) (take 1 as) @ map (Pair Back) (take 1 bs) \<and>
    outbox (peer_sockets c') = outbox (peer_sockets c) @ post Sock [''PURPLE'', ''Hello World!!!'']"
  using assms
  by (cases as; cases bs) (auto simp: peer_pass_def peer_read_def readable_def canna_recv_def)

definition seen_at :: "peer_port \<Rightarrow> (peer_port \<times> frame \<times> frame) list \<Rightarrow> (frame \<times> frame) list" where
  "seen_at p xs = map snd (filter (\<lambda>x. fst x = p) xs)"

lemma seen_at_simps [simp]:
  "seen_at p (xs @ ys) = seen_at p xs @ seen_at p ys"
  "seen_at p (map (Pair q) ms) = (if p = q then ms else [])"
  by (auto simp: seen_at_def filter_map o_def)

lemma peer_run_exchanges:
  assumes "inbox (peer_sockets c) Sock = pair_frames as" and "inbox (peer_sockets c) Back = pair_frames bs"
  shows "\<exists>c'. peer_run n c = Some c' \<and> inbox (peer_sockets c') Sock = pair_frames (drop n as) \<and>
    inbox (peer_sockets c') Back = pair_frames (drop n bs) \<and>
    seen_at Sock (peer_shown c') = seen_at Sock (peer_shown c) @ take n as \<and>
    seen_at Back (peer_shown c') = seen_at Back (peer_shown c) @ take n bs \<and>
    outbox (peer_sockets c') = outbox (peer_sockets c) @
      concat (replicate n (post Sock [''PURPLE'', ''Hello World!!!'']))"
  using assms
proof (induction n arbitrary: c as bs)
  case (Suc n)
  have one: "take 1 xs @ take n (tl xs) = take (Suc n) xs" "drop n (tl xs) = drop (Suc n) xs"
    for xs :: "(frame \<times> frame) list" by (cases xs; simp add: drop_Suc)+
  obtain c1 where c1: "peer_pass c = Some c1" "inbox (peer_sockets c1) Sock = pair_frames (tl as)"
      "inbox (peer_sockets c1) Back = pair_frames (tl bs)"
      "peer_shown c1 = peer_shown c @ map (Pair Sock) (take 1 as) @ map (Pair Back) (take 1 bs)"
      "outbox (peer_sockets c1) = outbox (peer_sockets c) @ post Sock [''PURPLE'', ''Hello World!!!'']"
    using peer_pass_step [OF Suc.prems] by blast
  show ?case using Suc.IH [OF c1(2,3)] by (auto simp: c1(1,4,5) one [symmetric])
qed simp

end
