(* ===== verification/Socket_Reserve.thy ===== *)
theory Socket_Reserve
  imports Socket_Handlers Bounded_System
begin

text \<open>
  Reserving socket numbers from several threads at once. \<open>reserve_id\<close> of
  \<^verbatim>\<open>gateserver/socket_server.cpp\<close> runs without a lock: it draws a number with an atomic increment,
  looks at the slot, and takes it with a compare-and-swap. Here a call is a machine that makes one
  access to shared memory in each step, and any number of calls run interleaved, while the owners of the
  numbers use and free their slots.
\<close>

section \<open>One call\<close>

text \<open>
  Where a call is: about to draw its number, in turn \<open>i\<close> of the loop; about to mask a negative
  one; about to look at the type of its slot; about to swap it; about to store the number,
  and the descriptor; returned.
\<close>

datatype phase =
    Draw nat | Mask nat | Look nat u32 | Swap nat u32 | Store_id u32 | Store_fd u32 | Returned u32

definition call_step :: "phase \<Rightarrow> server \<Rightarrow> phase \<times> server" where
  "call_step p st =
     (case p of
        Draw i \<Rightarrow>
          if i < MAX_SOCKET
          then let a = alloc_id st + 1
            in (if sint a < 0 then Mask i else Look i a, st\<lparr>alloc_id := a\<rparr>)
          else (Returned (- 1), st)
      | Mask i \<Rightarrow> let a = alloc_id st AND 0x7fffffff in (Look i a, st\<lparr>alloc_id := a\<rparr>)
      | Look i a \<Rightarrow>
          (if sock_type (slot st (HASH_ID a)) = SOCKET_TYPE_INVALID then Swap i a else Draw (i + 1), st)
      | Swap i a \<Rightarrow>
          if sock_type (slot st (HASH_ID a)) = SOCKET_TYPE_INVALID
          then (Store_id a, set_slot (HASH_ID a) (\<lambda>s. s\<lparr>sock_type := SOCKET_TYPE_RESERVE\<rparr>) st)
          else (Draw i, st)
      | Store_id a \<Rightarrow> (Store_fd a, set_slot (HASH_ID a) (\<lambda>s. s\<lparr>sock_id := a\<rparr>) st)
      | Store_fd a \<Rightarrow> (Returned a, set_slot (HASH_ID a) (\<lambda>s. s\<lparr>fd := - 1\<rparr>) st)
      | Returned a \<Rightarrow> (Returned a, st))"

fun call_steps :: "nat \<Rightarrow> phase \<times> server \<Rightarrow> phase \<times> server" where
  "call_steps 0 c = c"
| "call_steps (Suc n) c = call_steps n (call_step (fst c) (snd c))"

lemma call_steps_add: "call_steps (m + n) c = call_steps n (call_steps m c)"
  by (induction m arbitrary: c) simp_all

text \<open>A call that runs alone does what the sequential definition says.\<close>

lemma draw_alone:
  assumes "i < MAX_SOCKET"
  shows "\<exists>n. call_steps n (Draw i, st) = (Look i (fst (draw_id st)), snd (draw_id st))"
proof (cases "sint (alloc_id st + 1) < 0")
  case True
  then show ?thesis using assms
    by (intro exI [of _ 2]) (simp add: numeral_2_eq_2 call_step_def draw_id_def Let_def)
next
  case False
  then show ?thesis using assms
    by (intro exI [of _ 1]) (simp add: call_step_def draw_id_def Let_def)
qed

lemma loop_alone:
  "n \<le> MAX_SOCKET \<Longrightarrow> \<exists>m. call_steps m (Draw (MAX_SOCKET - n), st) =
     (Returned (fst (reserve_loop n st)), snd (reserve_loop n st))"
proof (induction n arbitrary: st)
  case 0
  then show ?case by (intro exI [of _ 1]) (simp add: call_step_def)
next
  case (Suc n)
  obtain a st1 where d: "draw_id st = (a, st1)" by (cases "draw_id st")
  have less: "MAX_SOCKET - Suc n < MAX_SOCKET" using Suc.prems by simp
  obtain m where m: "call_steps m (Draw (MAX_SOCKET - Suc n), st) = (Look (MAX_SOCKET - Suc n) a, st1)"
    using draw_alone [OF less, of st] by (auto simp: d)
  show ?case
  proof (cases "free_slot st1 (HASH_ID a)")
    case True
    then have "call_steps 4 (Look (MAX_SOCKET - Suc n) a, st1) =
        (Returned a, set_slot (HASH_ID a) (\<lambda>s. s\<lparr>sock_type := SOCKET_TYPE_RESERVE, sock_id := a, fd := - 1\<rparr>) st1)"
      by (simp add: eval_nat_numeral call_step_def set_slot_def)
    with m True show ?thesis
      by (intro exI [of _ "m + 4"]) (simp add: call_steps_add d)
  next
    case False
    have "Suc (MAX_SOCKET - Suc n) = MAX_SOCKET - n" using Suc.prems by simp
    with False have "call_steps 1 (Look (MAX_SOCKET - Suc n) a, st1) = (Draw (MAX_SOCKET - n), st1)"
      by (simp add: call_step_def)
    moreover from Suc obtain m' where "call_steps m' (Draw (MAX_SOCKET - n), st1) =
        (Returned (fst (reserve_loop n st1)), snd (reserve_loop n st1))" by fastforce
    ultimately show ?thesis using m False
      by (intro exI [of _ "m + 1 + m'"]) (simp only: call_steps_add, simp add: d)
  qed
qed

lemma call_alone: "\<exists>m. call_steps m (Draw 0, st) = (Returned (fst (reserve_id st)), snd (reserve_id st))"
  using loop_alone [of MAX_SOCKET st] by (simp add: reserve_id_def)

section \<open>Many calls\<close>

text \<open>
  The calls under way, the numbers that are held, that is, returned and not given back yet, and how
  often an owner of a number has acted. The owner of a number may store anything in its slot but
  another number or the type of a free slot, and frees it by storing that type.
\<close>

record reserving =
  table :: server
  calls :: "phase list"
  held :: "u32 list"
  outside :: nat

fun returns :: "phase \<Rightarrow> u32 list" where
  "returns (Returned a) = (if a = - 1 then [] else [a])"
| "returns _ = []"

inductive reserving_step :: "reserving \<Rightarrow> reserving \<Rightarrow> bool" where
  call: "k < length (calls s) \<Longrightarrow> (\<forall>r. calls s ! k \<noteq> Returned r) \<Longrightarrow>
    call_step (calls s ! k) (table s) = (p, st) \<Longrightarrow>
    reserving_step s (s\<lparr>table := st, calls := (calls s)[k := p], held := held s @ returns p\<rparr>)"
| owner_uses: "a \<in> set (held s) \<Longrightarrow> sock_id sk = a \<Longrightarrow> sock_type sk \<noteq> SOCKET_TYPE_INVALID \<Longrightarrow>
    reserving_step s (s\<lparr>table := set_slot (HASH_ID a) (\<lambda>_. sk) (table s), outside := outside s + 1\<rparr>)"
| owner_frees: "a \<in> set (held s) \<Longrightarrow>
    reserving_step s (s\<lparr>table := set_slot (HASH_ID a) (\<lambda>sk. sk\<lparr>sock_type := SOCKET_TYPE_INVALID\<rparr>) (table s),
      held := remove1 a (held s), outside := outside s + 1\<rparr>)"

definition reserving_start :: "nat \<Rightarrow> u32 list \<Rightarrow> server \<Rightarrow> reserving" where
  "reserving_start n hs st = \<lparr>table = st, calls = replicate n (Draw 0), held = hs, outside = 0\<rparr>"

section \<open>Who owns a slot\<close>

text \<open>The number of a slot that a call has taken but not returned yet, and the number it works on.\<close>

fun claims :: "phase \<Rightarrow> u32 option" where
  "claims (Store_id a) = Some a"
| "claims (Store_fd a) = Some a"
| "claims _ = None"

fun number_of :: "phase \<Rightarrow> u32 option" where
  "number_of (Look i a) = Some a"
| "number_of (Swap i a) = Some a"
| "number_of (Store_id a) = Some a"
| "number_of (Store_fd a) = Some a"
| "number_of (Returned a) = (if a = - 1 then None else Some a)"
| "number_of _ = None"

text \<open>How many held numbers and calls a slot belongs to.\<close>

definition claims_slot :: "nat \<Rightarrow> phase \<Rightarrow> bool" where
  "claims_slot j p \<longleftrightarrow> (case claims p of None \<Rightarrow> False | Some a \<Rightarrow> HASH_ID a = j)"

definition owners :: "reserving \<Rightarrow> nat \<Rightarrow> nat" where
  "owners s j = length (filter (\<lambda>a. HASH_ID a = j) (held s)) + length (filter (claims_slot j) (calls s))"

definition phase_ok :: "server \<Rightarrow> phase \<Rightarrow> bool" where
  "phase_ok st p \<longleftrightarrow> (\<forall>a. number_of p = Some a \<longrightarrow> 0 \<le> sint a) \<and>
     (\<forall>a. claims p = Some a \<longrightarrow> sock_type (slot st (HASH_ID a)) = SOCKET_TYPE_RESERVE) \<and>
     (\<forall>a. p = Store_fd a \<longrightarrow> sock_id (slot st (HASH_ID a)) = a)"

definition reserving_inv :: "reserving \<Rightarrow> bool" where
  "reserving_inv s \<longleftrightarrow>
     (\<forall>j < MAX_SOCKET. owners s j = (if free_slot (table s) j then 0 else 1)) \<and>
     (\<forall>a \<in> set (held s). sock_id (slot (table s) (HASH_ID a)) = a) \<and>
     (\<forall>k < length (calls s). phase_ok (table s) (calls s ! k))"

lemma masked_sint: "0 \<le> sint (a AND 0x7fffffff :: u32)"
proof -
  have "a AND 0x7fffffff = take_bit 31 a"
    by (simp add: take_bit_eq_mask mask_eq_exp_minus_1)
  moreover have "unat (take_bit 31 a) = take_bit 31 (unat a)" by (rule unsigned_take_bit_eq)
  moreover have "take_bit 31 (unat a) < 2 ^ 31" by (rule take_bit_nat_less_exp)
  ultimately have "unat (a AND 0x7fffffff) < 2147483648" by simp
  then show ?thesis by (simp add: sint_small)
qed

lemma filter_update:
  assumes "k < length xs"
  shows "length (filter P (xs[k := y])) + (if P (xs ! k) then 1 else 0) =
    length (filter P xs) + (if P y then 1 else 0)"
  using assms
proof (induction xs arbitrary: k)
  case (Cons x xs)
  then show ?case by (cases k) auto
qed simp

lemma filter_two:
  assumes "k < length xs" and "l < length xs" and "k \<noteq> l" and "P (xs ! k)" and "P (xs ! l)"
  shows "2 \<le> length (filter P xs)"
proof -
  have "{k, l} \<subseteq> {i. i < length xs \<and> P (xs ! i)}" using assms by blast
  then have "card {k, l} \<le> card {i. i < length xs \<and> P (xs ! i)}" by (intro card_mono) simp_all
  then show ?thesis using assms(3) by (simp add: length_filter_conv_card)
qed

lemma distinct_counts:
  "\<forall>x \<in> set xs. length (filter (\<lambda>a. f a = f x) xs) \<le> 1 \<Longrightarrow> distinct (map f xs)"
proof (induction xs)
  case (Cons x xs)
  have "filter (\<lambda>a. f a = f x) xs = []" using Cons.prems by simp
  then have "f x \<notin> f ` set xs" by (auto simp: filter_empty_conv)
  moreover have "\<forall>y \<in> set xs. length (filter (\<lambda>a. f a = f y) xs) \<le> 1"
  proof
    fix y assume "y \<in> set xs"
    then have "y \<in> set (x # xs)" by simp
    from bspec [OF Cons.prems this] show "length (filter (\<lambda>a. f a = f y) xs) \<le> 1" by (simp only: filter.simps) (simp split: if_splits)
  qed
  ultimately show ?case using Cons.IH by auto
qed simp

text \<open>The steps before the swap touch no slot.\<close>

fun claim_steps :: "server \<Rightarrow> phase \<Rightarrow> bool" where
  "claim_steps st (Swap i a) = free_slot st (HASH_ID a)"
| "claim_steps st (Store_id a) = True"
| "claim_steps st (Store_fd a) = True"
| "claim_steps st p = False"

lemma call_step_silent:
  assumes "call_step p st = (q, st')" and "\<not> claim_steps st p" and "\<forall>r. p \<noteq> Returned r"
  shows "slot st' = slot st" and "claims q = None" and "claims p = None" and "returns q = []"
    and "number_of p = Some a \<Longrightarrow> 0 \<le> sint a \<Longrightarrow> number_of q = Some b \<Longrightarrow> 0 \<le> sint b"
  using assms masked_sint [of "alloc_id st"]
  by (cases p; simp add: call_step_def Let_def split: if_splits prod.splits; force)+

lemma phase_ok_same:
  "phase_ok st p \<Longrightarrow> (\<And>j. sock_type (slot st' j) = sock_type (slot st j) \<and> sock_id (slot st' j) = sock_id (slot st j)) \<Longrightarrow>
   phase_ok st' p"
  by (simp add: phase_ok_def)

text \<open>The invariant, kept by steps that touch no slot, by steps that touch one slot, and by the owners.\<close>

lemma owner_of_claim:
  assumes "reserving_inv s" and "k < length (calls s)" and "claims (calls s ! k) = Some a"
  shows "filter (\<lambda>b. HASH_ID b = HASH_ID a) (held s) = []"
    and "\<And>l b. l < length (calls s) \<Longrightarrow> claims (calls s ! l) = Some b \<Longrightarrow> HASH_ID b = HASH_ID a \<Longrightarrow> l = k"
proof -
  have "sock_type (slot (table s) (HASH_ID a)) = SOCKET_TYPE_RESERVE"
    using assms by (simp add: reserving_inv_def phase_ok_def)
  then have one: "owners s (HASH_ID a) = 1" using assms(1) by (simp add: reserving_inv_def)
  have "calls s ! k \<in> set (filter (claims_slot (HASH_ID a)) (calls s))"
    using assms(2,3) by (simp add: claims_slot_def)
  then have "filter (claims_slot (HASH_ID a)) (calls s) \<noteq> []" by force
  then have "length (filter (claims_slot (HASH_ID a)) (calls s)) \<noteq> 0" by simp
  with one show "filter (\<lambda>b. HASH_ID b = HASH_ID a) (held s) = []"
    unfolding owners_def by (simp only: length_0_conv [symmetric])
  fix l b assume l: "l < length (calls s)" "claims (calls s ! l) = Some b" "HASH_ID b = HASH_ID a"
  show "l = k"
  proof (rule ccontr)
    assume "l \<noteq> k"
    with l assms(2,3) have "2 \<le> length (filter (claims_slot (HASH_ID a)) (calls s))"
      by (intro filter_two [of l _ k]) (simp_all add: claims_slot_def)
    with one show False by (simp add: owners_def)
  qed
qed

lemma inv_update:
  assumes "\<And>j. j < MAX_SOCKET \<Longrightarrow> owners s' j = (if free_slot (table s') j then 0 else 1)"
    and "\<And>a. a \<in> set (held s') \<Longrightarrow> sock_id (slot (table s') (HASH_ID a)) = a"
    and "k < length (calls s)" and "calls s' = (calls s)[k := q]" and "phase_ok (table s') q"
    and "\<And>l. l < length (calls s) \<Longrightarrow> l \<noteq> k \<Longrightarrow> phase_ok (table s') (calls s ! l)"
  shows "reserving_inv s'"
  using assms by (simp add: reserving_inv_def nth_list_update)

lemma inv_silent:
  assumes "reserving_inv s" and "k < length (calls s)" and "slot st = slot (table s)"
    and "claims (calls s ! k) = None" and "claims q = None" and "\<forall>a. number_of q = Some a \<longrightarrow> 0 \<le> sint a"
  shows "reserving_inv (s\<lparr>table := st, calls := (calls s)[k := q]\<rparr>)"
proof -
  have "length (filter (claims_slot j) ((calls s)[k := q])) = length (filter (claims_slot j) (calls s))" for j
    using filter_update [OF assms(2), of "claims_slot j" q] assms(4,5) by (simp add: claims_slot_def)
  then have "owners (s\<lparr>table := st, calls := (calls s)[k := q]\<rparr>) j = owners s j" for j
    by (simp add: owners_def)
  moreover have "phase_ok st q" using assms(5,6) by (cases q) (simp_all add: phase_ok_def)
  moreover have "phase_ok st p = phase_ok (table s) p" for p by (simp add: phase_ok_def assms(3))
  ultimately show ?thesis using assms by (auto simp: reserving_inv_def nth_list_update)
qed

lemma inv_claim:
  assumes "reserving_inv s" and "k < length (calls s)" and "calls s ! k = Swap i a"
    and "free_slot (table s) (HASH_ID a)"
  shows "reserving_inv (s\<lparr>table := set_slot (HASH_ID a) (\<lambda>sk. sk\<lparr>sock_type := SOCKET_TYPE_RESERVE\<rparr>) (table s),
    calls := (calls s)[k := Store_id a]\<rparr>)"
proof -
  let ?st = "set_slot (HASH_ID a) (\<lambda>sk. sk\<lparr>sock_type := SOCKET_TYPE_RESERVE\<rparr>) (table s)"
  have none: "owners s (HASH_ID a) = 0" using assms(1,4) by (simp add: reserving_inv_def)
  have "owners (s\<lparr>table := ?st, calls := (calls s)[k := Store_id a]\<rparr>) j =
      owners s j + (if j = HASH_ID a then 1 else 0)" for j
    using filter_update [OF assms(2), of "claims_slot j" "Store_id a"] assms(3)
    by (auto simp: owners_def claims_slot_def split: if_splits)
  moreover have "phase_ok ?st (Store_id a)"
    using assms(1,2,3) by (simp add: reserving_inv_def phase_ok_def)
  moreover have "phase_ok ?st p" if "phase_ok (table s) p" for p
    using that assms(4) by (cases p) (auto simp: phase_ok_def)
  ultimately show ?thesis
    using assms none by (auto simp: reserving_inv_def nth_list_update)
qed

lemma inv_store:
  assumes "reserving_inv s" and "k < length (calls s)" and "calls s ! k = Store_id a"
  shows "reserving_inv (s\<lparr>table := set_slot (HASH_ID a) (\<lambda>sk. sk\<lparr>sock_id := a\<rparr>) (table s),
    calls := (calls s)[k := Store_fd a]\<rparr>)"
proof -
  let ?st = "set_slot (HASH_ID a) (\<lambda>sk. sk\<lparr>sock_id := a\<rparr>) (table s)"
  have c: "claims (calls s ! k) = Some a" using assms(3) by simp
  note own = owner_of_claim [OF assms(1,2) c]
  have "length (filter (claims_slot j) ((calls s)[k := Store_fd a])) = length (filter (claims_slot j) (calls s))" for j
    using filter_update [OF assms(2), of "claims_slot j" "Store_fd a"] assms(3)
    by (simp add: claims_slot_def split: if_splits)
  then have "owners (s\<lparr>table := ?st, calls := (calls s)[k := Store_fd a]\<rparr>) j = owners s j" for j
    by (simp add: owners_def)
  moreover have "phase_ok ?st (Store_fd a)"
    using assms by (auto simp: reserving_inv_def phase_ok_def)
  moreover have "phase_ok ?st (calls s ! l)" if "l < length (calls s)" "l \<noteq> k" for l
    using assms(1) that own(2) [OF that(1)] by (cases "calls s ! l") (auto simp: reserving_inv_def phase_ok_def)
  moreover have "HASH_ID b \<noteq> HASH_ID a" if "b \<in> set (held s)" for b
    using own(1) that by (auto simp: filter_empty_conv)
  ultimately show ?thesis
    using assms(1,2) by (intro inv_update [where s = s and k = k and q = "Store_fd a"]) (auto simp: reserving_inv_def)
qed

lemma inv_return:
  assumes "reserving_inv s" and "k < length (calls s)" and "calls s ! k = Store_fd a"
  shows "reserving_inv (s\<lparr>table := set_slot (HASH_ID a) (\<lambda>sk. sk\<lparr>fd := - 1\<rparr>) (table s),
    calls := (calls s)[k := Returned a], held := held s @ returns (Returned a)\<rparr>)"
proof -
  let ?st = "set_slot (HASH_ID a) (\<lambda>sk. sk\<lparr>fd := - 1\<rparr>) (table s)"
  have ok: "phase_ok (table s) (Store_fd a)" using assms by (metis reserving_inv_def)
  then have a: "0 \<le> sint a" "sock_id (slot (table s) (HASH_ID a)) = a" by (simp_all add: phase_ok_def)
  then have ret: "returns (Returned a) = [a]" by auto
  let ?s' = "s\<lparr>table := ?st, calls := (calls s)[k := Returned a], held := held s @ [a]\<rparr>"
  have own: "owners ?s' j = owners s j" for j
    using filter_update [OF assms(2), of "claims_slot j" "Returned a"] assms(3)
    by (simp add: claims_slot_def owners_def split: if_splits)
  have "reserving_inv ?s'"
  proof (rule inv_update [where s = s and k = k and q = "Returned a"])
    show "owners ?s' j = (if free_slot (table ?s') j then 0 else 1)" if "j < MAX_SOCKET" for j
      using assms(1) that unfolding own by (simp add: reserving_inv_def)
    show "sock_id (slot (table ?s') (HASH_ID b)) = b" if "b \<in> set (held ?s')" for b
    proof -
      have "b \<in> set (held s) \<or> b = a" using that by auto
      moreover have "sock_id (slot (table s) (HASH_ID c)) = c" if "c \<in> set (held s)" for c
        using assms(1) that by (simp add: reserving_inv_def)
      ultimately have "sock_id (slot (table s) (HASH_ID b)) = b" using a(2) by metis
      then show ?thesis by simp metis
    qed
    show "phase_ok (table ?s') (Returned a)" using a by (simp add: phase_ok_def)
    show "phase_ok (table ?s') (calls s ! l)" if "l < length (calls s)" for l
    proof -
      have "phase_ok (table s) (calls s ! l)" using assms(1) that by (simp add: reserving_inv_def)
      then show ?thesis by (rule phase_ok_same) simp
    qed
  qed (use assms(2) in simp_all)
  then show ?thesis by (simp only: ret)
qed

text \<open>The slot of a held number belongs to nobody else.\<close>

lemma owner_of_held:
  assumes "reserving_inv s" and "a \<in> set (held s)"
  shows "\<not> free_slot (table s) (HASH_ID a)" and "owners s (HASH_ID a) = 1"
    and "length (filter (\<lambda>b. HASH_ID b = HASH_ID a) (held s)) = 1"
    and "\<And>p. p \<in> set (calls s) \<Longrightarrow> \<not> claims_slot (HASH_ID a) p"
proof -
  have "a \<in> set (filter (\<lambda>b. HASH_ID b = HASH_ID a) (held s))" using assms(2) by simp
  then have pos: "length (filter (\<lambda>b. HASH_ID b = HASH_ID a) (held s)) \<noteq> 0" by (cases "filter (\<lambda>b. HASH_ID b = HASH_ID a) (held s)") simp_all
  have own: "owners s (HASH_ID a) = (if free_slot (table s) (HASH_ID a) then 0 else 1)"
    using assms(1) by (simp add: reserving_inv_def)
  then show "\<not> free_slot (table s) (HASH_ID a)" using pos by (auto simp: owners_def split: if_splits)
  then show one: "owners s (HASH_ID a) = 1" using own by simp
  then show "length (filter (\<lambda>b. HASH_ID b = HASH_ID a) (held s)) = 1" using pos unfolding owners_def by linarith
  have "length (filter (claims_slot (HASH_ID a)) (calls s)) = 0" using one pos unfolding owners_def by linarith
  then show "\<not> claims_slot (HASH_ID a) p" if "p \<in> set (calls s)" for p
    using that by (simp add: filter_empty_conv)
qed

lemma distinct_held:
  assumes "reserving_inv s"
  shows "distinct (map HASH_ID (held s))"
  by (rule distinct_counts) (use owner_of_held(3) [OF assms] in fastforce)

lemma phase_ok_elsewhere:
  "phase_ok st p \<Longrightarrow> \<not> claims_slot j p \<Longrightarrow> phase_ok (set_slot j f st) p"
  by (cases p) (auto simp: phase_ok_def claims_slot_def)

lemma inv_use:
  assumes "reserving_inv s" and "a \<in> set (held s)" and "sock_id sk = a" and "sock_type sk \<noteq> SOCKET_TYPE_INVALID"
  shows "reserving_inv (s\<lparr>table := set_slot (HASH_ID a) (\<lambda>_. sk) (table s), outside := n\<rparr>)"
proof -
  note own = owner_of_held [OF assms(1,2)]
  have "owners (s\<lparr>table := set_slot (HASH_ID a) (\<lambda>_. sk) (table s), outside := n\<rparr>) j = owners s j" for j
    by (simp add: owners_def)
  moreover have "b = a" if "b \<in> set (held s)" "HASH_ID b = HASH_ID a" for b
    using distinct_held [OF assms(1)] that assms(2) by (auto simp: distinct_map inj_on_def)
  ultimately show ?thesis
    using assms own(1,2) phase_ok_elsewhere own(4) by (auto simp: reserving_inv_def)
qed

lemma inv_free:
  assumes "reserving_inv s" and "a \<in> set (held s)"
  shows "reserving_inv (s\<lparr>table := set_slot (HASH_ID a) (\<lambda>sk. sk\<lparr>sock_type := SOCKET_TYPE_INVALID\<rparr>) (table s),
    held := remove1 a (held s), outside := n\<rparr>)" (is "reserving_inv ?s'")
proof -
  note own = owner_of_held [OF assms]
  have "length (filter (\<lambda>b. HASH_ID b = j) (remove1 a (held s))) =
      length (filter (\<lambda>b. HASH_ID b = j) (held s)) - (if HASH_ID a = j then 1 else 0)" for j
    using assms(2) by (simp add: filter_remove1 length_remove1)
  then have cnt: "owners ?s' j = owners s j - (if HASH_ID a = j then 1 else 0)" for j
    using own(3) by (auto simp: owners_def)
  have "b \<in> set (held s) \<and> HASH_ID b \<noteq> HASH_ID a" if "b \<in> set (remove1 a (held s))" for b
    using distinct_held [OF assms(1)] that assms(2) by (auto simp: distinct_map inj_on_def)
  then show ?thesis
    using assms own(1,2) phase_ok_elsewhere own(4) cnt by (simp add: reserving_inv_def)
qed

lemma inv_call:
  assumes "reserving_inv s" and "k < length (calls s)" and "\<forall>r. calls s ! k \<noteq> Returned r"
    and "call_step (calls s ! k) (table s) = (p, st)"
  shows "reserving_inv (s\<lparr>table := st, calls := (calls s)[k := p], held := held s @ returns p\<rparr>)"
proof (cases "claim_steps (table s) (calls s ! k)")
  case False
  note silent = call_step_silent [OF assms(4) False assms(3)]
  have "phase_ok (table s) (calls s ! k)" using assms(1,2) by (simp add: reserving_inv_def)
  then have "\<forall>a. number_of p = Some a \<longrightarrow> 0 \<le> sint a"
    using assms(3,4) False masked_sint [of "alloc_id (table s)"]
    by (cases "calls s ! k") (auto simp: call_step_def phase_ok_def Let_def split: if_splits)
  from inv_silent [OF assms(1,2) silent(1,3,2) this] silent(4) show ?thesis by simp
next
  case True
  show ?thesis
  proof (cases "calls s ! k")
    case (Swap i a)
    from inv_claim [OF assms(1,2) this] True Swap assms(4) show ?thesis by (auto simp: call_step_def)
  next
    case (Store_id a)
    from inv_store [OF assms(1,2) this] Store_id assms(4) show ?thesis by (auto simp: call_step_def)
  next
    case (Store_fd a)
    from inv_return [OF assms(1,2) this] Store_fd assms(4) show ?thesis by (auto simp: call_step_def)
  qed (use True in simp_all)
qed

lemma reserving_step_inv: "reserving_step s t \<Longrightarrow> reserving_inv s \<Longrightarrow> reserving_inv t"
proof (induction rule: reserving_step.induct)
  case (call k s p st)
  then show ?case using inv_call by blast
qed (use inv_use inv_free in blast)+

lemma reserving_start_inv:
  assumes "table_ok st" and "distinct hs" and "set hs = live_ids st"
  shows "reserving_inv (reserving_start n hs st)"
proof -
  have id: "sock_id (slot st (HASH_ID a)) = a \<and> \<not> free_slot st (HASH_ID a)" if "a \<in> set hs" for a
    using that assms(1) unfolding assms(3) by (auto simp: live_ids_def table_ok_def)
  have "length (filter (\<lambda>a. HASH_ID a = j) hs) = (if free_slot st j then 0 else 1)" if j: "j < MAX_SOCKET" for j
  proof (cases "free_slot st j")
    case True
    then show ?thesis using id by (auto simp: filter_empty_conv)
  next
    case False
    with j assms(1,3) have "sock_id (slot st j) \<in> set hs" "HASH_ID (sock_id (slot st j)) = j"
      by (auto simp: live_ids_def table_ok_def)
    moreover have "a = sock_id (slot st j)" if "a \<in> set hs" "HASH_ID a = j" for a
      using id [OF that(1)] that(2) by simp
    ultimately have "{a \<in> set hs. HASH_ID a = j} = {sock_id (slot st j)}" by blast
    then have "length (filter (\<lambda>a. HASH_ID a = j) hs) = 1"
      using assms(2) distinct_card [of "filter (\<lambda>a. HASH_ID a = j) hs"] by simp
    with False show ?thesis by simp
  qed
  moreover have "claims_slot j (Draw 0) = False" for j by (simp add: claims_slot_def)
  moreover have "phase_ok st (Draw 0)" by (simp add: phase_ok_def)
  moreover have "\<forall>a \<in> set hs. sock_id (slot st (HASH_ID a)) = a" using id by blast
  ultimately show ?thesis
    by (simp add: reserving_inv_def reserving_start_def owners_def)
qed

section \<open>Progress\<close>

text \<open>
  What a call has still to do. A call that is about to swap a slot another one has just taken
  falls back; every fall is paid for by the call that took the slot, which takes no other.
\<close>

definition to_do :: "server \<Rightarrow> phase \<Rightarrow> nat" where
  "to_do st p =
     (case p of
        Draw i \<Rightarrow> 4 * (MAX_SOCKET - i) + 3
      | Mask i \<Rightarrow> 4 * (MAX_SOCKET - i) + 2
      | Look i a \<Rightarrow> 4 * (MAX_SOCKET - i) + 1
      | Swap i a \<Rightarrow> 4 * (MAX_SOCKET - i) + (if free_slot st (HASH_ID a) then 0 else 4)
      | Store_id a \<Rightarrow> 2
      | Store_fd a \<Rightarrow> 1
      | Returned a \<Rightarrow> 0)"

fun before_swap :: "phase \<Rightarrow> bool" where
  "before_swap (Draw i) = True"
| "before_swap (Mask i) = True"
| "before_swap (Look i a) = True"
| "before_swap (Swap i a) = True"
| "before_swap _ = False"

text \<open>The turn of the loop a call is in stays below the bound until the last check.\<close>

fun turn_ok :: "phase \<Rightarrow> bool" where
  "turn_ok (Draw i) = (i \<le> MAX_SOCKET)"
| "turn_ok (Mask i) = (i < MAX_SOCKET)"
| "turn_ok (Look i a) = (i < MAX_SOCKET)"
| "turn_ok (Swap i a) = (i < MAX_SOCKET)"
| "turn_ok _ = True"

definition call_effort :: "nat \<Rightarrow> server \<Rightarrow> phase \<Rightarrow> nat" where
  "call_effort n st p = to_do st p + (if before_swap p then 4 * n else 0)"

definition reserving_effort :: "reserving \<Rightarrow> nat" where
  "reserving_effort s = (\<Sum>p \<leftarrow> calls s. call_effort (length (calls s)) (table s) p)"

text \<open>The steps of one call, by what they do to the others.\<close>

lemma own_effort:
  assumes "call_step p st = (q, st')" and "\<forall>r. p \<noteq> Returned r" and "turn_ok p"
  shows "turn_ok q \<and> call_effort n st' q + 1 + (if before_swap p \<and> \<not> before_swap q \<and> claims q \<noteq> None then 4 * n else 0) \<le> call_effort n st p"
  using assms by (cases p) (auto simp: call_step_def call_effort_def to_do_def Let_def split: if_splits)

lemma other_effort:
  assumes "call_step p st = (q, st')" and "\<forall>r. p \<noteq> Returned r"
  shows "call_effort n st' o' \<le> call_effort n st o' + (if before_swap p \<and> \<not> before_swap q \<and> claims q \<noteq> None then 4 else 0)"
  using assms by (cases p; cases o') (auto simp: call_step_def call_effort_def to_do_def Let_def split: if_splits)

lemma sum_list_shift:
  fixes f g :: "'a \<Rightarrow> nat"
  shows "(\<And>x. x \<in> set xs \<Longrightarrow> g x \<le> f x + c) \<Longrightarrow> (\<Sum>x \<leftarrow> xs. g x) \<le> (\<Sum>x \<leftarrow> xs. f x) + c * length xs"
proof (induction xs)
  case (Cons x xs)
  have "g x \<le> f x + c" using Cons.prems by simp
  moreover have "(\<Sum>x \<leftarrow> xs. g x) \<le> (\<Sum>x \<leftarrow> xs. f x) + c * length xs" using Cons by simp
  ultimately show ?case by simp
qed simp

lemma sum_list_update_less:
  fixes f g :: "'a \<Rightarrow> nat"
  assumes "k < length xs" and "g y + 1 + c * length xs \<le> f (xs ! k)" and "\<And>x. x \<in> set xs \<Longrightarrow> g x \<le> f x + c"
  shows "(\<Sum>x \<leftarrow> xs[k := y]. g x) + 1 \<le> (\<Sum>x \<leftarrow> xs. f x)"
proof -
  let ?a = "take k xs" and ?b = "drop (Suc k) xs"
  have "set ?a \<subseteq> set xs" "set ?b \<subseteq> set xs" by (rule set_take_subset, rule set_drop_subset)
  then have a: "(\<Sum>x \<leftarrow> ?a. g x) \<le> (\<Sum>x \<leftarrow> ?a. f x) + c * length ?a"
    and b: "(\<Sum>x \<leftarrow> ?b. g x) \<le> (\<Sum>x \<leftarrow> ?b. f x) + c * length ?b"
    using assms(3) by (intro sum_list_shift; blast)+
  have "c * length ?a + c * length ?b \<le> c * length xs"
    using assms(1) by (simp add: distrib_left [symmetric])
  moreover have "(\<Sum>x \<leftarrow> xs. f x) = (\<Sum>x \<leftarrow> ?a. f x) + f (xs ! k) + (\<Sum>x \<leftarrow> ?b. f x)"
    by (subst id_take_nth_drop [OF assms(1)]) simp
  moreover have "(\<Sum>x \<leftarrow> xs[k := y]. g x) = (\<Sum>x \<leftarrow> ?a. g x) + g y + (\<Sum>x \<leftarrow> ?b. g x)"
    using assms(1) by (simp add: upd_conv_take_nth_drop)
  ultimately show ?thesis using a b assms(2) by linarith
qed

definition reserving_ok :: "reserving \<Rightarrow> bool" where
  "reserving_ok s \<longleftrightarrow> reserving_inv s \<and> (\<forall>p \<in> set (calls s). turn_ok p)"

lemma call_effort_step:
  assumes "k < length (calls s)" and "\<forall>r. calls s ! k \<noteq> Returned r" and "turn_ok (calls s ! k)"
    and "call_step (calls s ! k) (table s) = (p, st)"
  shows "(\<Sum>q \<leftarrow> (calls s)[k := p]. call_effort (length (calls s)) st q) + 1 \<le> reserving_effort s"
  unfolding reserving_effort_def
  using assms own_effort [OF assms(4,2,3), of "length (calls s)"] other_effort [OF assms(4,2), of "length (calls s)"]
  by (intro sum_list_update_less [where
      c = "if before_swap (calls s ! k) \<and> \<not> before_swap p \<and> claims p \<noteq> None then 4 else 0"]) (auto split: if_splits)

lemma owner_effort:
  assumes "sock_type sk \<noteq> SOCKET_TYPE_INVALID \<Longrightarrow> \<not> free_slot st j" and "f (slot st j) = sk"
  shows "call_effort n (set_slot j f st) p \<le> call_effort n st p"
  using assms by (cases p) (auto simp: call_effort_def to_do_def)

lemma reserving_step_effort:
  assumes "reserving_step s t" and "reserving_ok s"
  shows "reserving_ok t \<and> reserving_effort t + 1 + outside s \<le> reserving_effort s + outside t"
  using assms
proof (induction rule: reserving_step.induct)
  case (call k s p st)
  have turn: "turn_ok (calls s ! k)" using call by (simp add: reserving_ok_def)
  then have "turn_ok p" using own_effort [OF call.hyps(3,2)] by blast
  then have "\<forall>q \<in> set ((calls s)[k := p]). turn_ok q"
    using call.prems set_update_subset_insert [of "calls s" k p] by (auto simp: reserving_ok_def)
  with call_effort_step [OF call.hyps(1,2) turn call.hyps(3)] inv_call [OF _ call.hyps] call.prems
  show ?case by (simp add: reserving_ok_def reserving_effort_def)
next
  case (owner_uses a s sk)
  then have inv: "reserving_inv s" by (simp add: reserving_ok_def)
  have "(\<Sum>q \<leftarrow> calls s. call_effort n (set_slot (HASH_ID a) (\<lambda>_. sk) (table s)) q) \<le> (\<Sum>q \<leftarrow> calls s. call_effort n (table s) q)" for n
    by (intro sum_list_mono owner_effort [where sk = sk]) (use owner_of_held(1) [OF inv owner_uses(1)] in simp_all)
  with inv_use [OF inv owner_uses(1-3)] owner_uses(4) show ?case by (simp add: reserving_ok_def reserving_effort_def)
next
  case (owner_frees a s)
  then have inv: "reserving_inv s" by (simp add: reserving_ok_def)
  have "(\<Sum>q \<leftarrow> calls s. call_effort n (set_slot (HASH_ID a) (\<lambda>sk. sk\<lparr>sock_type := SOCKET_TYPE_INVALID\<rparr>) (table s)) q)
      \<le> (\<Sum>q \<leftarrow> calls s. call_effort n (table s) q)" for n
    by (intro sum_list_mono owner_effort [OF _ refl]) simp
  with inv_free [OF inv owner_frees(1)] owner_frees(2) show ?case by (simp add: reserving_ok_def reserving_effort_def)
qed

interpretation reserving: bounded_system reserving_step "\<lambda>s (_ :: unit). reserving_ok s" "\<lambda>s _. reserving_effort s" outside
  by unfold_locales (use reserving_step_effort in auto)

section \<open>Properties\<close>

text \<open>A schedule of calls, for concrete runs.\<close>

fun schedule :: "nat list \<Rightarrow> reserving \<Rightarrow> reserving" where
  "schedule [] s = s"
| "schedule (k # ks) s = (let (p, st) = call_step (calls s ! k) (table s) in
     schedule ks (s\<lparr>table := st, calls := (calls s)[k := p], held := held s @ returns p\<rparr>))"

fun runnable :: "nat list \<Rightarrow> reserving \<Rightarrow> bool" where
  "runnable [] s = True"
| "runnable (k # ks) s = (k < length (calls s) \<and> (\<forall>r. calls s ! k \<noteq> Returned r) \<and> runnable ks (schedule [k] s))"

lemma schedule_run: "runnable ks s \<Longrightarrow> (reserving_step ^^ length ks) s (schedule ks s)"
proof (induction ks arbitrary: s)
  case (Cons k ks)
  obtain p st where p: "call_step (calls s ! k) (table s) = (p, st)" by fastforce
  have "reserving_step s (schedule [k] s)"
    using Cons.prems reserving_step.call [OF _ _ p] by (simp add: p)
  moreover have "schedule (k # ks) s = schedule ks (schedule [k] s)" by (simp add: p)
  ultimately show ?case using Cons by (simp only: length_Cons relpowp_Suc_I2 runnable.simps)
qed simp

text \<open>
  C6: reserving without a lock. Start with a well-formed table, any owners of its numbers, and any
  number of calls of \<open>reserve_id\<close>. In every state an interleaving of their atomic steps with the
  owners' actions reaches: no two numbers that are held share a slot, so they are distinct, and
  each is stored in its slot, which is not free; a slot is in use exactly when a held number or one call about to
  return has it, never both nor two of them, so none is lost and none given twice; and
  every number returned is non-negative or \<open>-1\<close>.
\<close>

theorem reserve_concurrently:
  assumes "table_ok st" and "distinct hs" and "set hs = live_ids st"
    and "reserving_step\<^sup>*\<^sup>* (reserving_start n hs st) s"
  shows "distinct (map HASH_ID (held s)) \<and>
    (\<forall>a \<in> set (held s). sock_id (slot (table s) (HASH_ID a)) = a \<and> \<not> free_slot (table s) (HASH_ID a)) \<and>
    (\<forall>j < MAX_SOCKET. length (filter (\<lambda>a. HASH_ID a = j) (held s)) + length (filter (claims_slot j) (calls s)) =
       (if free_slot (table s) j then 0 else 1)) \<and>
    (\<forall>a. Returned a \<in> set (calls s) \<longrightarrow> a = - 1 \<or> 0 \<le> sint a)"
proof -
  have inv: "reserving_inv s"
    using assms(4) by (induction rule: rtranclp_induct) (use reserving_start_inv [OF assms(1-3)] reserving_step_inv in blast)+
  have "a = - 1 \<or> 0 \<le> sint a" if ret: "Returned a \<in> set (calls s)" for a
  proof -
    obtain k where "k < length (calls s)" "calls s ! k = Returned a" using ret by (auto simp: in_set_conv_nth)
    then have "phase_ok (table s) (Returned a)" using inv by (metis reserving_inv_def)
    then show ?thesis by (cases "a = - 1") (simp_all add: phase_ok_def)
  qed
  moreover have "\<forall>a \<in> set (held s). sock_id (slot (table s) (HASH_ID a)) = a"
    "\<forall>j < MAX_SOCKET. owners s j = (if free_slot (table s) j then 0 else 1)"
    using inv by (simp_all add: reserving_inv_def)
  ultimately show ?thesis
    using distinct_held [OF inv] owner_of_held(1) [OF inv] unfolding owners_def by blast
qed

text \<open>
  Two calls at the end of the counter: both find it negative, both mask it, and both draw the
  number 1, while 0 is skipped. The swap decides; the other call draws the next number.
\<close>

definition full_counter :: server where
  "full_counter = blank_server\<lparr>alloc_id := 0x7fffffff\<rparr>"

lemma full_counter_ok: "table_ok full_counter" "live_ids full_counter = {}"
  by (simp_all add: table_ok_def alloc_ok_def live_ids_def full_counter_def blank_server_def blank_socket_def)

definition race :: "nat list" where
  "race = [0, 1, 0, 1, 0, 1, 0, 1, 0, 0, 1, 1, 1, 1, 1]"

lemma small_hash: "HASH_ID 1 = 1" "HASH_ID 2 = 2" "replicate 2 x = [x, x]"
  by (simp_all add: HASH_ID_def MAX_SOCKET_def) (simp add: numeral_2_eq_2)

lemma race_runs:
  "runnable race (reserving_start 2 [] full_counter)"
  "calls (schedule (take 4 race) (reserving_start 2 [] full_counter)) = [Look 0 1, Look 0 1]"
  "calls (schedule race (reserving_start 2 [] full_counter)) = [Returned 1, Returned 2]"
  "held (schedule race (reserving_start 2 [] full_counter)) = [1, 2]"
  by (simp_all add: race_def reserving_start_def full_counter_def blank_server_def blank_socket_def
      call_step_def Let_def small_hash MAX_SOCKET_def)

theorem reserve_concurrently_witness:
  "\<exists>s. reserving_step\<^sup>*\<^sup>* (reserving_start 2 [] full_counter) s \<and> held s = [1, 2] \<and>
     sock_id (slot (table s) 1) = 1 \<and> sock_id (slot (table s) 2) = 2"
proof -
  let ?s = "schedule race (reserving_start 2 [] full_counter)"
  have run: "reserving_step\<^sup>*\<^sup>* (reserving_start 2 [] full_counter) ?s"
    using schedule_run [OF race_runs(1)] by (rule relpowp_imp_rtranclp)
  show ?thesis
    using reserve_concurrently [OF full_counter_ok(1) _ _ run] run race_runs(4) full_counter_ok(2)
    by (auto simp: small_hash)
qed

text \<open>
  C13: no call is held up for ever. In a run of \<open>n\<close> concurrent calls the calls together make at most
  \<open>n * (4 * 65536 + 3 + 4 * n)\<close> steps, however often the owners of numbers act in between; and as
  long as a call has not returned, there is a step that it can make. So every call returns, without waiting for
  another.
\<close>

theorem reserve_lock_free:
  assumes "table_ok st" and "distinct hs" and "set hs = live_ids st"
    and "(reserving_step ^^ m) (reserving_start n hs st) s"
  shows "m \<le> n * (4 * MAX_SOCKET + 3 + 4 * n) + outside s \<and>
    (\<forall>k < length (calls s). (\<exists>r. calls s ! k = Returned r) \<or>
       (\<exists>t. reserving_step s t \<and> outside t = outside s \<and> calls t ! k \<noteq> calls s ! k))"
proof -
  have "reserving_ok (reserving_start n hs st)"
    using reserving_start_inv [OF assms(1-3)] by (simp add: reserving_ok_def reserving_start_def)
  from reserving.run_bound [OF assms(4) this] have
    "m \<le> reserving_effort (reserving_start n hs st) + outside s" by (simp add: reserving_start_def)
  also have "reserving_effort (reserving_start n hs st) = n * (4 * MAX_SOCKET + 3 + 4 * n)"
    by (simp add: reserving_effort_def reserving_start_def call_effort_def to_do_def sum_list_replicate)
  finally have bound: "m \<le> n * (4 * MAX_SOCKET + 3 + 4 * n) + outside s" .
  have "\<exists>t. reserving_step s t \<and> outside t = outside s \<and> calls t ! k \<noteq> calls s ! k"
    if "k < length (calls s)" "\<nexists>r. calls s ! k = Returned r" for k
  proof -
    obtain p st' where p: "call_step (calls s ! k) (table s) = (p, st')" by fastforce
    have "p \<noteq> calls s ! k"
    proof (cases "calls s ! k")
      case (Returned r)
      with that(2) show ?thesis by blast
    qed (use p in \<open>auto simp: call_step_def Let_def split: if_splits\<close>)
    moreover have "reserving_step s (s\<lparr>table := st', calls := (calls s)[k := p], held := held s @ returns p\<rparr>)"
      using reserving_step.call [OF that(1) _ p] that(2) by blast
    ultimately show ?thesis
      using that(1) by (intro exI [of _ "s\<lparr>table := st', calls := (calls s)[k := p], held := held s @ returns p\<rparr>"]) simp
  qed
  with bound show ?thesis by blast
qed

theorem reserve_lock_free_witness:
  "(reserving_step ^^ 15) (reserving_start 2 [] full_counter) (schedule race (reserving_start 2 [] full_counter)) \<and>
     15 \<le> 2 * (4 * MAX_SOCKET + 3 + 4 * 2) + outside (schedule race (reserving_start 2 [] full_counter))"
proof -
  have "length race = 15" by (simp add: race_def)
  with schedule_run [OF race_runs(1)] have run: "(reserving_step ^^ 15) (reserving_start 2 [] full_counter)
      (schedule race (reserving_start 2 [] full_counter))" by (simp only:)
  have "15 \<le> 2 * (4 * MAX_SOCKET + 3 + 4 * 2) + outside (schedule race (reserving_start 2 [] full_counter))"
    using reserve_lock_free [OF full_counter_ok(1) _ _ run] full_counter_ok(2) by auto
  with run show ?thesis by blast
qed

text \<open>
  The number is stored after the slot is taken. In between the slot still shows the number it had
  before, so a second close request with that number, which otherwise is answered and ignored,
  passes the check of \<open>close_socket\<close> and fails its assertion that no reserved slot is closed.
\<close>

lemma stale_close_aborts:
  assumes "free_slot st (HASH_ID a)" and "sock_id (slot st (HASH_ID a)) = b" and "HASH_ID b = HASH_ID a" and "a \<noteq> b"
    and "send_buffer_empty (slot st (HASH_ID a))"
    and "call_step (Swap i a) st = (p, st1)" and "call_step p st1 = (q, st2)"
  shows "close_socket os \<lparr>k_id = b, k_opaque = opq\<rparr> st1 m = None" and
    "close_socket os \<lparr>k_id = b, k_opaque = opq\<rparr> st2 m =
      Some (SOCKET_CLOSE, st2, m\<lparr>msg_id := b, msg_opaque := opq, msg_ud := 0, msg_data := Nullptr\<rparr>)"
  using assms by (auto simp: call_step_def close_socket_def force_close_def send_buffer_empty_def Let_def)

end
