(* ===== verification/Write_List.thy ===== *)
theory Write_List
  imports Socket_Handlers
begin

text \<open>
  The lists of write buffers as they lie in memory, \<^verbatim>\<open>struct wb_list\<close> of \<^verbatim>\<open>gateserver/socket_server.h\<close>: nodes with
  a pointer to the next, and the list's two pointers. The operations on nodes are shown to implement the ones on
  lists in \<open>Socket_Handlers\<close>. A pointer is an address, 0 being null; following one to memory that is not, or no
  longer, allocated is undefined and has no result.
\<close>

section \<open>The code\<close>

type_synonym nodes = "u64 \<rightharpoonup> write_buffer \<times> u64"

record wb_list =
  head :: u64
  tail :: u64

definition wb_clear :: "wb_list \<Rightarrow> wb_list" where
  "wb_clear l = l\<lparr>head := 0, tail := 0\<rparr>"

text \<open>The loop of \<open>wb_free\<close> from a node on; the buffers it frees, in their order.\<close>

partial_function (option) wb_free_loop :: "u64 \<Rightarrow> nodes \<Rightarrow> u64 list \<Rightarrow> (nodes \<times> u64 list) option" where
  "wb_free_loop wb h freed =
     (if wb = 0 then Some (h, freed)
      else case h wb of
          None \<Rightarrow> None
        | Some (w, nx) \<Rightarrow> wb_free_loop nx (h(wb := None)) (freed @ [wb_buffer w]))"

definition wb_free :: "wb_list \<Rightarrow> nodes \<Rightarrow> (wb_list \<times> nodes \<times> u64 list) option" where
  "wb_free l h = map_option (\<lambda>(h, freed). (l\<lparr>head := 0, tail := 0\<rparr>, h, freed)) (wb_free_loop (head l) h [])"

definition nodes_empty :: "wb_list \<Rightarrow> wb_list \<Rightarrow> bool" where
  "nodes_empty hi lo \<longleftrightarrow> head hi = 0 \<and> head lo = 0"

definition nodes_uncomplete :: "nodes \<Rightarrow> wb_list \<Rightarrow> bool option" where
  "nodes_uncomplete h l =
     (if head l = 0 then Some False else map_option (\<lambda>(w, nx). wb_ptr w \<noteq> wb_buffer w) (h (head l)))"

definition nodes_raise :: "nodes \<Rightarrow> wb_list \<Rightarrow> wb_list \<Rightarrow> (nodes \<times> wb_list \<times> wb_list) option" where
  "nodes_raise h hi lo =
     (let tmp = head lo in
      case h tmp of
        None \<Rightarrow> None
      | Some (w, nx) \<Rightarrow>
          let lo = lo\<lparr>head := nx\<rparr>;
              lo = (if head lo = 0 then lo\<lparr>tail := 0\<rparr> else lo)
          in if head hi \<noteq> 0 then None
             else Some (h(tmp \<mapsto> (w, 0)), hi\<lparr>head := tmp, tail := tmp\<rparr>, lo))"

text \<open>The loop of \<open>send_list_tcp\<close>; closing the socket clears its lists.\<close>

partial_function (option) send_nodes ::
  "os \<Rightarrow> nat \<Rightarrow> nodes \<Rightarrow> wb_list \<Rightarrow> server \<Rightarrow> message \<Rightarrow> (int \<times> nodes \<times> wb_list \<times> server \<times> message) option" where
  "send_nodes os k h l st m =
     (if head l = 0 then Some (no_message, h, l\<lparr>tail := 0\<rparr>, st, m)
      else case h (head l) of
          None \<Rightarrow> None
        | Some (w, nx) \<Rightarrow> do {
            (res, st) \<leftarrow> write_retry os (fd (slot st k)) (wb_ptr w) (wb_sz w) st;
            (case res of
               Again \<Rightarrow> Some (no_message, h, l, st, m)
             | Broken \<Rightarrow> map_option
                 (\<lambda>(st', m). (SOCKET_CLOSE, h, if sock_type (slot st k) = SOCKET_TYPE_INVALID then l else wb_clear l, st', m))
                 (force_close k st m)
             | Wrote n \<Rightarrow>
                 let st = set_slot k (\<lambda>s. s\<lparr>wb_size := wb_size s - n\<rparr>) st in
                 if n \<noteq> wb_sz w
                 then Some (no_message, h(head l \<mapsto> (w\<lparr>wb_ptr := wb_ptr w + word_of_int n, wb_sz := wb_sz w - n\<rparr>, nx)), l, st, m)
                 else send_nodes os k (h(head l := None)) (l\<lparr>head := nx\<rparr>) (emit (Free (wb_buffer w)) st) m) })"

section \<open>Lists in memory\<close>

text \<open>The nodes at addresses \<open>as\<close>, holding \<open>ws\<close>, linked from \<open>p\<close> to null.\<close>

fun linked_from :: "nodes \<Rightarrow> u64 \<Rightarrow> u64 list \<Rightarrow> write_buffer list \<Rightarrow> bool" where
  "linked_from h p [] [] \<longleftrightarrow> p = 0"
| "linked_from h p (a # as) (w # ws) \<longleftrightarrow> p = a \<and> a \<noteq> 0 \<and> (\<exists>nx. h a = Some (w, nx) \<and> linked_from h nx as ws)"
| "linked_from h p as ws \<longleftrightarrow> False"

definition holds :: "nodes \<Rightarrow> wb_list \<Rightarrow> u64 list \<Rightarrow> write_buffer list \<Rightarrow> bool" where
  "holds h l as ws \<longleftrightarrow> linked_from h (head l) as ws \<and> distinct as \<and> tail l = (if as = [] then 0 else last as)"

lemma linked_from_upd: "a \<notin> set as \<Longrightarrow> linked_from (h(a := x)) p as ws \<longleftrightarrow> linked_from h p as ws"
  by (induction h p as ws rule: linked_from.induct) auto

lemma linked_from_null [simp]: "linked_from h 0 as ws \<longleftrightarrow> as = [] \<and> ws = []"
  by (cases as; cases ws) auto

lemma linked_from_node:
  "p \<noteq> 0 \<Longrightarrow> linked_from h p as ws \<longleftrightarrow>
     (\<exists>w nx as' ws'. as = p # as' \<and> ws = w # ws' \<and> h p = Some (w, nx) \<and> linked_from h nx as' ws')"
  by (cases as; cases ws) auto

lemma linked_from_lengths: "linked_from h p as ws \<Longrightarrow> length as = length ws"
  by (induction h p as ws rule: linked_from.induct) auto

lemma wb_free_loop_list:
  "linked_from h p as ws \<Longrightarrow> distinct as \<Longrightarrow>
   wb_free_loop p h freed = Some (h |` (- set as), freed @ map wb_buffer ws)"
proof (induction as arbitrary: h p ws freed)
  case Nil
  then show ?case by (cases ws) (simp_all add: wb_free_loop.simps restrict_map_def fun_eq_iff)
next
  case (Cons a as)
  then obtain w nx ws' where w: "p = a" "a \<noteq> 0" "ws = w # ws'" "h a = Some (w, nx)" "linked_from h nx as ws'"
    by (cases ws) auto
  have "linked_from (h(a := None)) nx as ws'" using w(5) Cons.prems(2) by (simp add: linked_from_upd)
  moreover have "distinct as" using Cons.prems(2) by simp
  ultimately have "wb_free_loop nx (h(a := None)) (freed @ [wb_buffer w]) =
      Some ((h(a := None)) |` (- set as), (freed @ [wb_buffer w]) @ map wb_buffer ws')" by (rule Cons.IH)
  moreover have "wb_free_loop a h freed = wb_free_loop nx (h(a := None)) (freed @ [wb_buffer w])"
    by (subst wb_free_loop.simps) (simp add: w(2,4))
  moreover have "(h(a := None)) |` (- set as) = h |` (- set (a # as))" by (auto simp: restrict_map_def)
  ultimately show ?case unfolding w(1,3) by (simp only: list.map append_assoc append.simps)
qed

section \<open>Refinement\<close>

lemma free_list: "holds h l as ws \<Longrightarrow> wb_free l h = Some (wb_clear l, h |` (- set as), map wb_buffer ws)"
  using wb_free_loop_list [of h "head l" as ws "[]"] by (simp add: wb_free_def holds_def wb_clear_def)

lemma uncomplete_list: "holds h l as ws \<Longrightarrow> nodes_uncomplete h l = Some (list_uncomplete ws)"
  by (cases ws; cases as) (auto simp: nodes_uncomplete_def list_uncomplete_def holds_def)

lemma empty_lists:
  "holds h hi as (high s) \<Longrightarrow> holds h lo bs (low s) \<Longrightarrow> nodes_empty hi lo \<longleftrightarrow> send_buffer_empty s"
  by (cases "high s"; cases "low s"; cases as; cases bs) (auto simp: nodes_empty_def send_buffer_empty_def holds_def)

lemma raise_list:
  assumes "holds h hi as (high (slot st k))" and "holds h lo bs (low (slot st k))" and "set as \<inter> set bs = {}" and "h 0 = None"
  shows "case raise_uncomplete k st of
      None \<Rightarrow> nodes_raise h hi lo = None
    | Some st' \<Rightarrow> \<exists>h' hi' lo' b bs'. nodes_raise h hi lo = Some (h', hi', lo') \<and> bs = b # bs' \<and> dom h' = dom h \<and>
        holds h' hi' [b] (high (slot st' k)) \<and> holds h' lo' bs' (low (slot st' k))"
proof (cases bs)
  case Nil
  then have "low (slot st k) = []" "head lo = 0" using assms(2) by (auto simp: holds_def elim: linked_from.elims)
  then show ?thesis using assms(4) by (simp add: raise_uncomplete_def nodes_raise_def Let_def)
next
  case (Cons b bs')
  then obtain w nx ws where w: "low (slot st k) = w # ws" "head lo = b" "b \<noteq> 0" "h b = Some (w, nx)" "linked_from h nx bs' ws"
    using assms(2) by (cases "low (slot st k)") (auto simp: holds_def)
  have "b \<notin> set bs'" "distinct bs'" using assms(2) by (simp_all add: holds_def Cons)
  moreover have "nx = 0 \<longleftrightarrow> bs' = []" using w(5) by (cases bs'; cases ws) auto
  moreover have "head hi = 0 \<longleftrightarrow> high (slot st k) = []"
    using assms(1) by (cases as; cases "high (slot st k)") (auto simp: holds_def)
  ultimately show ?thesis
    using w assms(2) Cons
    by (auto simp: raise_uncomplete_def nodes_raise_def Let_def set_slot_def holds_def linked_from_upd)
qed

text \<open>Where the list stands in memory and in the slot when a send returns.\<close>

inductive sent_as ::
  "nat \<Rightarrow> (write_buffer list \<Rightarrow> socket \<Rightarrow> socket) \<Rightarrow> nodes \<Rightarrow> u64 list \<Rightarrow> outcome \<Rightarrow>
   (int \<times> nodes \<times> wb_list \<times> server \<times> message) option \<Rightarrow> bool"
  for k upd where
  no_result: "sent_as k upd h as None None"
| closed: "as = bs @ cs \<Longrightarrow> dom h' = dom h - set bs \<Longrightarrow>
    sent_as k upd h as (Some (SOCKET_CLOSE, st, m)) (Some (SOCKET_CLOSE, h', l', st, m))"
| stays: "as = bs @ cs \<Longrightarrow> dom h' = dom h - set bs \<Longrightarrow> holds h' l' cs ws \<Longrightarrow>
    sent_as k upd h as (Some (no_message, set_slot k (upd ws) st, m)) (Some (no_message, h', l', st, m))"

lemma sent_as_more:
  assumes "sent_as k upd (h(x := None)) as a c"
  shows "sent_as k upd h (x # as) a c"
  using assms
proof cases
  case (closed bs cs h' st m l')
  then show ?thesis unfolding closed(1,2) by (intro sent_as.closed [where bs = "x # bs"]) auto
next
  case (stays bs cs h' l' ws st m)
  then show ?thesis unfolding stays(1,2) by (intro sent_as.stays [where bs = "x # bs"]) auto
qed (simp add: no_result)

text \<open>While the loop runs, the tail pointer of a list that has become empty still points to its last node.\<close>

definition held_open :: "nodes \<Rightarrow> wb_list \<Rightarrow> u64 list \<Rightarrow> write_buffer list \<Rightarrow> bool" where
  "held_open h l as ws \<longleftrightarrow> linked_from h (head l) as ws \<and> distinct as \<and> (as \<noteq> [] \<longrightarrow> tail l = last as)"

lemma send_nodes_list:
  "held_open h l as ws \<Longrightarrow> sent_as k upd h as (send_list_tcp os k upd ws st m) (send_nodes os k h l st m)"
proof (induction ws arbitrary: h l as st)
  case Nil
  then have "as = []" "head l = 0" by (auto simp: held_open_def elim: linked_from.elims)
  then show ?case
    by (subst send_nodes.simps) (simp, rule stays [where bs = "[]"], auto simp: holds_def)
next
  case (Cons w ws)
  then obtain a as' nx where a: "as = a # as'" "head l = a" "a \<noteq> 0" "h a = Some (w, nx)" "linked_from h nx as' ws"
    by (cases as) (auto simp: held_open_def)
  have held: "holds h l as (w # ws)" "a \<notin> set as'" using Cons.prems by (auto simp: held_open_def holds_def a(1))
  note step = send_nodes.simps [of os k h l st m]
  show ?case
  proof (cases "write_retry os (fd (slot st k)) (wb_ptr w) (wb_sz w) st")
    case None
    then show ?thesis by (simp add: step a no_result)
  next
    case (Some r)
    obtain res st1 where r: "r = (res, st1)" by (cases r)
    show ?thesis
    proof (cases res)
      case Again
      then show ?thesis
        using stays [of as "[]" as h h l "w # ws" k upd st1 m] held(1) by (simp add: step a Some r)
    next
      case Broken
      then show ?thesis
        by (cases "force_close k st1 m") (auto simp: step a Some r intro: no_result closed [where bs = "[]"])
    next
      case (Wrote n)
      let ?st = "set_slot k (\<lambda>s. s\<lparr>wb_size := wb_size s - n\<rparr>) st1"
      let ?w = "w\<lparr>wb_ptr := wb_ptr w + word_of_int n, wb_sz := wb_sz w - n\<rparr>"
      show ?thesis
      proof (cases "n = wb_sz w")
        case True
        have "held_open (h(a := None)) (l\<lparr>head := nx\<rparr>) as' ws"
          using Cons.prems a(5) by (auto simp: held_open_def a(1) linked_from_upd)
        note IH = sent_as_more [OF Cons.IH [OF this, of "emit (Free (wb_buffer w)) ?st"]]
        have "send_list_tcp os k upd (w # ws) st m = send_list_tcp os k upd ws (emit (Free (wb_buffer w)) ?st) m"
          by (simp add: Some r Wrote True Let_def)
        moreover have "send_nodes os k h l st m =
            send_nodes os k (h(a := None)) (l\<lparr>head := nx\<rparr>) (emit (Free (wb_buffer w)) ?st) m"
          by (simp add: step a Some r Wrote True Let_def)
        ultimately show ?thesis using IH by (simp only: a(1))
      next
        case False
        have "holds (h(a \<mapsto> (?w, nx))) l as (?w # ws)"
          using held a(5) by (auto simp: holds_def a(1-3) linked_from_upd)
        from stays [OF _ _ this, of as "[]" h k upd ?st m] False show ?thesis
          using a(4) by (simp add: step a Some r Wrote Let_def insert_absorb domI)
      qed
    qed
  qed
qed

text \<open>
  C11: the write buffers in memory. A list of nodes that ends, is laid out once and has its tail pointer right is handled
  like the list of its buffers: sending from it does what the sending of the list does, with the same system
  calls, removes exactly the nodes sent in full from memory and leaves a proper list of the rest; the tests
  agree; raising an incomplete buffer moves its node; and \<open>wb_free\<close> frees each node and each
  buffer once.
\<close>

theorem write_lists_refine:
  assumes "holds h hi as (high (slot st k))" and "holds h lo bs (low (slot st k))" and "set as \<inter> set bs = {}" and "h 0 = None"
  shows "sent_as k (\<lambda>ws s. s\<lparr>high := ws\<rparr>) h as
      (send_list_tcp os k (\<lambda>ws s. s\<lparr>high := ws\<rparr>) (high (slot st k)) st m) (send_nodes os k h hi st m) \<and>
    nodes_empty hi lo = send_buffer_empty (slot st k) \<and>
    nodes_uncomplete h lo = Some (list_uncomplete (low (slot st k))) \<and>
    (case raise_uncomplete k st of
       None \<Rightarrow> nodes_raise h hi lo = None
     | Some st' \<Rightarrow> \<exists>h' hi' lo' b bs'. nodes_raise h hi lo = Some (h', hi', lo') \<and> bs = b # bs' \<and> dom h' = dom h \<and>
         holds h' hi' [b] (high (slot st' k)) \<and> holds h' lo' bs' (low (slot st' k))) \<and>
    wb_free lo h = Some (wb_clear lo, h |` (- set bs), map wb_buffer (low (slot st k)))"
proof -
  have "held_open h hi as (high (slot st k))" using assms(1) by (auto simp: held_open_def holds_def)
  then show ?thesis
    using send_nodes_list empty_lists [OF assms(1,2)] uncomplete_list [OF assms(2)] raise_list [OF assms] free_list [OF assms(2)]
    by blast
qed

definition two_buffers :: "write_buffer list" where
  "two_buffers = [\<lparr>wb_buffer = 100, wb_ptr = 101, wb_sz = 3\<rparr>, \<lparr>wb_buffer = 200, wb_ptr = 200, wb_sz = 5\<rparr>]"

definition two_nodes :: nodes where
  "two_nodes = [1 \<mapsto> (two_buffers ! 0, 2), 2 \<mapsto> (two_buffers ! 1, 0)]"

theorem write_lists_refine_witness:
  "wb_free \<lparr>head = 1, tail = 2\<rparr> two_nodes = Some (\<lparr>head = 0, tail = 0\<rparr>, two_nodes |` (- {1, 2}), [100, 200]) \<and>
   (\<exists>h lo. nodes_raise two_nodes \<lparr>head = 0, tail = 0\<rparr> \<lparr>head = 1, tail = 2\<rparr> = Some (h, \<lparr>head = 1, tail = 1\<rparr>, lo) \<and>
      holds h lo [2] [two_buffers ! 1])"
proof -
  let ?st = "set_slot 0 (\<lambda>s. s\<lparr>high := [], low := two_buffers\<rparr>) blank_server"
  let ?lo = "\<lparr>head = 1, tail = 2\<rparr> :: wb_list" and ?hi = "\<lparr>head = 0, tail = 0\<rparr> :: wb_list"
  have a: "holds two_nodes ?hi [] (high (slot ?st 0))" "holds two_nodes ?lo [1, 2] (low (slot ?st 0))" "two_nodes 0 = None"
    by (simp_all add: holds_def two_nodes_def two_buffers_def set_slot_def)
  note t = write_lists_refine [OF a(1,2) _ a(3), where os = undefined and m = undefined]
  have "low (slot ?st 0) = two_buffers" by (simp add: set_slot_def)
  then have free: "wb_free ?lo two_nodes = Some (wb_clear ?lo, two_nodes |` (- {1, 2}), [100, 200])"
    using t by (simp add: two_buffers_def)
  have "raise_uncomplete 0 ?st = Some (set_slot 0 (\<lambda>s. s\<lparr>low := [two_buffers ! 1], high := [two_buffers ! 0]\<rparr>) ?st)"
    by (simp add: raise_uncomplete_def set_slot_def two_buffers_def)
  then obtain h hi lo where "nodes_raise two_nodes ?hi ?lo = Some (h, hi, lo)" "holds h hi [1] [two_buffers ! 0]"
      "holds h lo [2] [two_buffers ! 1]"
    using t by (auto simp: set_slot_def)
  then show ?thesis using free by (auto simp: wb_clear_def holds_def)
qed

end
