(* ===== verification/Broker_Setup.thy ===== *)
theory Broker_Setup
  imports Peering_Broker Cluster_Broker Message_Demos
begin

text \<open>
  How the brokers that are started by name set up their sockets: \<^verbatim>\<open>example/peering1.cpp\<close>,
  \<^verbatim>\<open>example/cluster.cpp\<close> and \<^verbatim>\<open>example/peering.cpp\<close>. A broker is given its own name and the names of its
  peers; every address is printed into a buffer of 64 characters, and a text that does not fit is undefined
  and has no result. What is asked of ZeroMQ is the list of operations on the sockets.
\<close>

section \<open>Addresses\<close>

definition ipc_address :: "string \<Rightarrow> string \<Rightarrow> string option" where
  "ipc_address name suffix = print_into 64 (''ipc://'' @ name @ suffix)"

fun connect_peers :: "'s \<Rightarrow> string \<Rightarrow> string list \<Rightarrow> 's operation list option" where
  "connect_peers s suffix [] = Some []"
| "connect_peers s suffix (peer # peers) = do {
     addr \<leftarrow> ipc_address peer suffix;
     ops \<leftarrow> connect_peers s suffix peers;
     Some (Connect_to s addr # ops) }"

section \<open>The peering broker\<close>

text \<open>
  The identity of the backend is the name with \<^verbatim>\<open>be\<close> appended. The global \<^verbatim>\<open>cloud\<close> ends as the last peer. The
  result is \<open>Some None\<close> when the program prints its usage and stops.
\<close>

definition peering_setup ::
  "string list \<Rightarrow> (Peering_Broker.port operation list \<times> pb) option option" where
  "peering_setup argv =
     (case argv of
        prog # self # peers \<Rightarrow> do {
          cloudfe \<leftarrow> ipc_address self ''-cloud.ipc'';
          links \<leftarrow> connect_peers Peering_Broker.Cloudbe ''-cloud.ipc'' peers;
          localfe \<leftarrow> ipc_address self ''-localfe.ipc'';
          localbe \<leftarrow> ipc_address self ''-localbe.ipc'';
          Some (Some ([Identify Peering_Broker.Cloudfe self, Bind_at Peering_Broker.Cloudfe cloudfe, Identify Peering_Broker.Cloudbe (self @ ''be'')] @ links @
            [Bind_at Peering_Broker.Localfe localfe, Bind_at Peering_Broker.Localbe localbe],
            pb_start (if peers = [] then None else Some (last peers)))) }
      | _ \<Rightarrow> Some None)"

definition peering_client_connects :: "string \<Rightarrow> string option" where
  "peering_client_connects self = ipc_address self ''-localfe.ipc''"

definition peering_worker_connects :: "string \<Rightarrow> string option" where
  "peering_worker_connects self = ipc_address self ''-localbe.ipc''"

section \<open>The cluster broker\<close>

text \<open>The address of the cloud backend is printed but not used.\<close>

definition cluster_setup :: "string list \<Rightarrow> Cluster_Broker.port operation list option option" where
  "cluster_setup argv =
     (case argv of
        prog # self # peers \<Rightarrow> do {
          localfe \<leftarrow> ipc_address self ''-localfe.ipc'';
          localbe \<leftarrow> ipc_address self ''-localbe.ipc'';
          cloudfe \<leftarrow> ipc_address self ''-cloud.ipc'';
          cloudbe \<leftarrow> ipc_address self ''-cloudbe.ipc'';
          clouds \<leftarrow> connect_peers Cluster_Broker.Cloudbe ''-cloud.ipc'' peers;
          statebe \<leftarrow> ipc_address self ''-state.ipc'';
          states \<leftarrow> connect_peers Cluster_Broker.Statefe ''-state.ipc'' peers;
          monitor \<leftarrow> ipc_address self ''-monitor.ipc'';
          Some (Some ([Bind_at Cluster_Broker.Localfe localfe, Bind_at Cluster_Broker.Localbe localbe,
              Identify Cluster_Broker.Cloudfe self, Bind_at Cluster_Broker.Cloudfe cloudfe, Identify Cluster_Broker.Cloudbe self] @ clouds @
            [Bind_at Cluster_Broker.Statebe statebe, Subscribe_to Cluster_Broker.Statefe ''''] @ states @
            [Bind_at Monitor monitor])) }
      | _ \<Rightarrow> Some None)"

definition cluster_client_connects :: "string \<Rightarrow> (string \<times> string) option" where
  "cluster_client_connects self = do {
     client \<leftarrow> ipc_address self ''-localfe.ipc'';
     monitor \<leftarrow> ipc_address self ''-monitor.ipc'';
     Some (client, monitor) }"

definition cluster_worker_connects :: "string \<Rightarrow> string option" where
  "cluster_worker_connects self = ipc_address self ''-localbe.ipc''"

section \<open>The state exchange\<close>

definition exchange_setup :: "string list \<Rightarrow> state_port operation list option option" where
  "exchange_setup argv =
     (case argv of
        prog # self # peers \<Rightarrow> do {
          statebe \<leftarrow> ipc_address self ''-state.ipc'';
          states \<leftarrow> connect_peers Message_Demos.Statefe ''-state.ipc'' peers;
          Some (Some ([Bind_at Message_Demos.Statebe statebe, Subscribe_to Message_Demos.Statefe ''''] @ states)) }
      | _ \<Rightarrow> Some None)"

section \<open>What they do\<close>

lemma ipc_address_iff: "ipc_address name suffix \<noteq> None \<longleftrightarrow> length name + length suffix < 58"
  by (auto simp: ipc_address_def print_into_def)

lemma ipc_address_Some: "ipc_address name suffix = Some a \<Longrightarrow> a = ''ipc://'' @ name @ suffix"
  by (auto simp: ipc_address_def print_into_def split: if_splits)

lemma connect_peers_iff:
  "connect_peers s suffix peers \<noteq> None \<longleftrightarrow> (\<forall>p \<in> set peers. length p + length suffix < 58)"
proof (induction peers)
  case (Cons p ps)
  then show ?case using ipc_address_iff [of p suffix] by (auto simp: bind_eq_Some_conv)
qed simp

lemma ipc_address_ex: "(\<exists>a. ipc_address self s = Some a) \<longleftrightarrow> length self + length s < 58"
  using ipc_address_iff [of self s] by auto

lemma connect_peers_ex:
  "(\<exists>a. connect_peers t s peers = Some a) \<longleftrightarrow> (\<forall>p \<in> set peers. length p + length s < 58)"
  using connect_peers_iff [of t s peers] by auto

lemma bind_defined: "Option.bind x f \<noteq> None \<longleftrightarrow> (\<exists>a. x = Some a \<and> f a \<noteq> None)"
  by (cases x) simp_all

lemma connect_peers_set:
  "connect_peers s suffix peers = Some ops \<Longrightarrow>
   set ops = (\<lambda>p. Connect_to s (''ipc://'' @ p @ suffix)) ` set peers"
  by (induction peers arbitrary: ops) (auto simp: bind_eq_Some_conv dest: ipc_address_Some)

text \<open>
  C39: names and buffers. The set-up of the peering broker is defined exactly when its own name has
  at most 45 characters and every peer's name at most 47; that of the cluster broker under the same
  bound of 45 and 47; a longer name on the command line writes past a buffer.
\<close>

theorem names_fit:
  "(peering_setup (prog # self # peers) \<noteq> None \<longleftrightarrow> length self < 46 \<and> (\<forall>p \<in> set peers. length p < 48)) \<and>
   (cluster_setup (prog # self # peers) \<noteq> None \<longleftrightarrow> length self < 46 \<and> (\<forall>p \<in> set peers. length p < 48)) \<and>
   (exchange_setup (prog # self # peers) \<noteq> None \<longleftrightarrow> length self < 48 \<and> (\<forall>p \<in> set peers. length p < 48))"
  unfolding peering_setup_def cluster_setup_def exchange_setup_def
  by (simp only: list.case bind_defined ex_simps ipc_address_ex connect_peers_ex option.distinct
      not_False_eq_True simp_thms) auto

theorem names_fit_witness:
  "peering_setup [''peering1'', replicate 46 (CHR ''a'')] = None \<and>
   peering_setup [''peering1'', replicate 45 (CHR ''a''), ''you''] \<noteq> None"
  using names_fit [of "''peering1''" "replicate 46 (CHR ''a'')" "[]"]
    names_fit [of "''peering1''" "replicate 45 (CHR ''a'')" "[''you'']"] by auto

lemma suffix_inject:
  assumes "n @ s = n' @ s'" and "s \<in> {''-cloud.ipc'', ''-localfe.ipc'', ''-localbe.ipc''}"
    and "s' \<in> {''-cloud.ipc'', ''-localfe.ipc'', ''-localbe.ipc''}"
  shows "n = n' \<and> s = s'"
proof -
  have "rev s @ rev n = rev s' @ rev n'" using assms(1) by (simp flip: rev_append)
  then have "s = s'" using assms(2,3) by auto
  with assms(1) show ?thesis by simp
qed

lemma peering_setup_ops:
  assumes "peering_setup (prog # self # peers) = Some (Some (ops, b))"
  shows "set ops = {Identify Peering_Broker.Cloudfe self, Bind_at Peering_Broker.Cloudfe (''ipc://'' @ self @ ''-cloud.ipc''),
      Identify Peering_Broker.Cloudbe (self @ ''be''), Bind_at Peering_Broker.Localfe (''ipc://'' @ self @ ''-localfe.ipc''),
      Bind_at Peering_Broker.Localbe (''ipc://'' @ self @ ''-localbe.ipc'')} \<union>
      (\<lambda>p. Connect_to Peering_Broker.Cloudbe (''ipc://'' @ p @ ''-cloud.ipc'')) ` set peers"
    and "b = pb_start (if peers = [] then None else Some (last peers))"
  using assms
  by (auto simp: peering_setup_def bind_eq_Some_conv dest!: ipc_address_Some connect_peers_set)

text \<open>
  C25: the brokers meet. When two peering brokers with different names have set up their sockets
  and the second is a peer of the first, the backend of the first is connected to the address the
  frontend of the second is bound to, which carries the second's name as identity, the name the first
  addresses its peers by; each broker's clients and workers connect to addresses it is bound to; and no two
  sockets, of one broker or of both, are bound to the same address.
\<close>

theorem brokers_meet:
  assumes "peering_setup (p # a # as) = Some (Some (ops, b0))" and "peering_setup (q # b # bs) = Some (Some (ops', b1))"
    and "b \<in> set as" and "a \<noteq> b"
  shows "(\<exists>addr. Connect_to Peering_Broker.Cloudbe addr \<in> set ops \<and> Bind_at Peering_Broker.Cloudfe addr \<in> set ops' \<and>
      Identify Peering_Broker.Cloudfe b \<in> set ops') \<and> (\<exists>c \<in> set as. cloud b0 = Some c) \<and>
    (\<exists>x y. peering_client_connects a = Some x \<and> Bind_at Peering_Broker.Localfe x \<in> set ops \<and>
       peering_worker_connects a = Some y \<and> Bind_at Peering_Broker.Localbe y \<in> set ops) \<and>
    (\<forall>s t x. Bind_at s x \<in> set ops \<and> Bind_at t x \<in> set ops \<longrightarrow> s = t) \<and>
    (\<forall>s t x. Bind_at s x \<in> set ops \<longrightarrow> Bind_at t x \<notin> set ops')"
proof -
  note ops = peering_setup_ops [OF assms(1)] peering_setup_ops [OF assms(2)]
  have bound: "\<exists>suf. x = ''ipc://'' @ a @ suf \<and> (s, suf) \<in> {(Peering_Broker.Cloudfe, ''-cloud.ipc''),
      (Peering_Broker.Localfe, ''-localfe.ipc''), (Peering_Broker.Localbe, ''-localbe.ipc'')}" if "Bind_at s x \<in> set ops" for s x
    using that unfolding ops(1) by auto
  have bound': "\<exists>suf. x = ''ipc://'' @ b @ suf \<and> (s, suf) \<in> {(Peering_Broker.Cloudfe, ''-cloud.ipc''),
      (Peering_Broker.Localfe, ''-localfe.ipc''), (Peering_Broker.Localbe, ''-localbe.ipc'')}" if "Bind_at s x \<in> set ops'" for s x
    using that unfolding ops(3) by auto
  have "s = t" if "Bind_at s x \<in> set ops" "Bind_at t x \<in> set ops" for s t x
  proof -
    from bound [OF that(1)] bound [OF that(2)] obtain s1 s2 where s12: "x = ''ipc://'' @ a @ s1" "x = ''ipc://'' @ a @ s2"
      "(s, s1) \<in> {(Peering_Broker.Cloudfe, ''-cloud.ipc''), (Peering_Broker.Localfe, ''-localfe.ipc''), (Peering_Broker.Localbe, ''-localbe.ipc'')}"
      "(t, s2) \<in> {(Peering_Broker.Cloudfe, ''-cloud.ipc''), (Peering_Broker.Localfe, ''-localfe.ipc''), (Peering_Broker.Localbe, ''-localbe.ipc'')}"
      by blast
    then have "s1 = s2" by simp
    with s12(3,4) show ?thesis by auto
  qed
  moreover have "Bind_at t x \<notin> set ops'" if "Bind_at s x \<in> set ops" for s t x
  proof
    assume "Bind_at t x \<in> set ops'"
    from bound' [OF this] obtain s2 where s2: "x = ''ipc://'' @ b @ s2" "(t, s2) \<in> {(Peering_Broker.Cloudfe, ''-cloud.ipc''),
        (Peering_Broker.Localfe, ''-localfe.ipc''), (Peering_Broker.Localbe, ''-localbe.ipc'')}" by blast
    from bound [OF that] obtain s1 where s1: "x = ''ipc://'' @ a @ s1" "(s, s1) \<in> {(Peering_Broker.Cloudfe, ''-cloud.ipc''),
        (Peering_Broker.Localfe, ''-localfe.ipc''), (Peering_Broker.Localbe, ''-localbe.ipc'')}" by blast
    have "a @ s1 = b @ s2" using s1(1) s2(1) by simp
    moreover have "s1 \<in> {''-cloud.ipc'', ''-localfe.ipc'', ''-localbe.ipc''}" "s2 \<in> {''-cloud.ipc'', ''-localfe.ipc'', ''-localbe.ipc''}"
      using s1(2) s2(2) by blast+
    ultimately have "a = b" using suffix_inject by blast
    with assms(4) show False by simp
  qed
  moreover obtain x y where "ipc_address a ''-localfe.ipc'' = Some x" "ipc_address a ''-localbe.ipc'' = Some y"
    using assms(1) by (auto simp: peering_setup_def bind_eq_Some_conv)
  then have "\<exists>x y. peering_client_connects a = Some x \<and> Bind_at Peering_Broker.Localfe x \<in> set ops \<and>
       peering_worker_connects a = Some y \<and> Bind_at Peering_Broker.Localbe y \<in> set ops"
    unfolding ops(1) peering_client_connects_def peering_worker_connects_def
    using ipc_address_Some [of a "''-localfe.ipc''"] ipc_address_Some [of a "''-localbe.ipc''"] by blast
  moreover have "\<exists>addr. Connect_to Peering_Broker.Cloudbe addr \<in> set ops \<and> Bind_at Peering_Broker.Cloudfe addr \<in> set ops' \<and>
      Identify Peering_Broker.Cloudfe b \<in> set ops'"
    using assms(3) unfolding ops(1,3) by blast
  moreover have "\<exists>c \<in> set as. cloud b0 = Some c"
    using assms(3) unfolding ops(2) by (auto simp: pb_start_def)
  ultimately show ?thesis by blast
qed

theorem brokers_meet_witness:
  "\<exists>ops ops' b0 b1. peering_setup [''peering1'', ''me'', ''you''] = Some (Some (ops, b0)) \<and>
     peering_setup [''peering1'', ''you'', ''me''] = Some (Some (ops', b1)) \<and>
     Connect_to Peering_Broker.Cloudbe ''ipc://you-cloud.ipc'' \<in> set ops \<and> Bind_at Peering_Broker.Cloudfe ''ipc://you-cloud.ipc'' \<in> set ops'"
proof -
  have defined: "\<exists>ops b. peering_setup [''peering1'', x, y] = Some (Some (ops, b))"
    if "length x < 46" "length y < 48" for x y
    using that by (simp add: peering_setup_def ipc_address_def print_into_def)
  obtain ops b0 where a: "peering_setup [''peering1'', ''me'', ''you''] = Some (Some (ops, b0))"
    using defined [of "''me''" "''you''"] by auto
  obtain ops' b1 where b: "peering_setup [''peering1'', ''you'', ''me''] = Some (Some (ops', b1))"
    using defined [of "''you''" "''me''"] by auto
  have "\<exists>addr. Connect_to Peering_Broker.Cloudbe addr \<in> set ops \<and> Bind_at Peering_Broker.Cloudfe addr \<in> set ops'"
    using brokers_meet [OF a b] by auto
  with a b show ?thesis using peering_setup_ops [OF a] by auto
qed

end
