(* ===== verification/Peering_System.thy ===== *)
theory Peering_System
  imports Peering_Broker Bounded_System
begin

text \<open>
  The peering broker of \<^verbatim>\<open>example/peering1.cpp\<close> together with its client and worker threads, for any
  number of each, and peers that send what they like. A client asks again once it has its
  answer, a worker announces itself once and then sends every order back.
\<close>

section \<open>The threads\<close>

text \<open>
  What the two REQ sockets send; the delimiter in front is added and taken off by ZeroMQ. A
  worker that is sent anything but three frames waits for ever for the rest, or leaves some behind.
\<close>

definition client_sends :: "frame list" where
  "client_sends = [''HELLO'']"

definition client_gets :: "frame list \<Rightarrow> frame option" where
  "client_gets received = (case received of [reply] \<Rightarrow> Some reply | _ \<Rightarrow> None)"

definition worker_announces :: "frame list" where
  "worker_announces = [''READY'']"

definition worker_sends_back :: "frame list \<Rightarrow> frame list option" where
  "worker_sends_back received =
     (case received of
        [address, delim, reply] \<Rightarrow> Some [address, [], reply]
      | _ \<Rightarrow> None)"

section \<open>What ZeroMQ delivers\<close>

definition mail :: "port \<Rightarrow> frame \<Rightarrow> pb \<Rightarrow> frame list list" where
  "mail p i b = delivered p i (sockets b)"

section \<open>The system\<close>

text \<open>What has arrived at the broker and the passes it made, its state, and the answers clients have got.\<close>

record peering =
  acts :: "action list"
  node :: pb
  got :: "(frame \<times> frame) list"

definition asked :: "peering \<Rightarrow> frame \<Rightarrow> nat" where
  "asked s c = length (filter (\<lambda>a. sender a = c) (arrived Localfe (acts s)))"

definition answered :: "peering \<Rightarrow> frame \<Rightarrow> nat" where
  "answered s c = length (filter (\<lambda>g. fst g = c) (got s))"

fun is_reply :: "arrival \<Rightarrow> bool" where
  "is_reply (Reply w c r) = True"
| "is_reply a = False"

definition worked :: "peering \<Rightarrow> frame \<Rightarrow> nat" where
  "worked s w = length (filter (\<lambda>a. is_reply a \<and> sender a = w) (arrived Localbe (acts s)))"

definition settled :: "pb \<Rightarrow> bool" where
  "settled b \<longleftrightarrow> \<not> readable Localbe (sockets b) \<and> (readable Localfe (sockets b) \<longrightarrow> worker_queue b = [])"

definition occurs :: "arrival \<Rightarrow> peering \<Rightarrow> peering" where
  "occurs m s = s\<lparr>acts := acts s @ [Arrive m],
     node := (node s)\<lparr>sockets := arrive (arrival_port m) (arrival_frames m) (sockets (node s))\<rparr>\<rparr>"

text \<open>
  The broker makes passes without end; those with nothing to do are left out once it is settled.
\<close>

inductive peering_step :: "frame list \<Rightarrow> frame list \<Rightarrow> peering \<Rightarrow> peering \<Rightarrow> bool"
  for cs :: "frame list" and ws :: "frame list" where
  ask: "c \<in> set cs \<Longrightarrow> asked s c = answered s c \<Longrightarrow> client_sends = [q] \<Longrightarrow>
    peering_step cs ws s (occurs (Ask c q) s)"
| get: "c \<in> set cs \<Longrightarrow> answered s c < asked s c \<Longrightarrow> answered s c < length (mail Localfe c (node s)) \<Longrightarrow>
    req_takes (mail Localfe c (node s) ! answered s c) = Some received \<Longrightarrow> client_gets received = Some reply \<Longrightarrow>
    peering_step cs ws s (s\<lparr>got := got s @ [(c, reply)]\<rparr>)"
| announce: "w \<in> set ws \<Longrightarrow> Ready w \<notin> set (arrived Localbe (acts s)) \<Longrightarrow> worker_announces = [''READY''] \<Longrightarrow>
    peering_step cs ws s (occurs (Ready w) s)"
| work: "w \<in> set ws \<Longrightarrow> Ready w \<in> set (arrived Localbe (acts s)) \<Longrightarrow> worked s w < length (mail Localbe w (node s)) \<Longrightarrow>
    req_takes (mail Localbe w (node s) ! worked s w) = Some received \<Longrightarrow>
    worker_sends_back received = Some [addr, [], r] \<Longrightarrow>
    peering_step cs ws s (occurs (Reply w addr r) s)"
| pass: "\<not> settled (node s) \<Longrightarrow> pb_pass (node s) = Some b \<Longrightarrow>
    peering_step cs ws s (s\<lparr>acts := acts s @ [Pass], node := b\<rparr>)"
| peer: "m = Peer_asks p x \<or> m = Peer_answers p x \<Longrightarrow> peering_step cs ws s (occurs m s)"

definition peering_begin :: "frame \<Rightarrow> peering" where
  "peering_begin peer_name = \<lparr>acts = [], node = pb_start (Some peer_name), got = []\<rparr>"

section \<open>Mail\<close>

text \<open>The clients a worker has been given, and the replies to a client that were passed on.\<close>

definition orders_for :: "action list \<Rightarrow> nat \<Rightarrow> frame \<Rightarrow> frame list" where
  "orders_for as k w = map (\<lambda>i. sender (arrived Localfe as ! i))
     (filter (\<lambda>i. sender (arrived Localbe as ! i) = w) [0..<k])"

fun reply_to :: "frame \<Rightarrow> arrival \<Rightarrow> bool" where
  "reply_to c (Reply w c' r) = (c' = c)"
| "reply_to c a = False"

definition answers_for :: "action list \<Rightarrow> nat \<Rightarrow> frame \<Rightarrow> nat" where
  "answers_for as n c = length (filter (reply_to c) (take n (arrived Localbe as)))"

lemma mail_orders:
  assumes "dispatched as n k b"
  shows "mail Localbe w b = map (\<lambda>c. [[], c, [], ''WORLD'']) (orders_for as k w)"
proof -
  let ?m = "\<lambda>i. [sender (arrived Localbe as ! i), [], sender (arrived Localfe as ! i), [], ''WORLD'']"
  have "map snd (sent_from Localbe b) = concat (map parts (map ?m [0..<k]))"
    using assms by (simp add: dispatched_def order_def post_def map_concat o_def)
  then have "whole (map snd (sent_from Localbe b)) = map ?m [0..<k]"
    by (simp only: whole_concat) (rule whole_concat, simp)
  then show ?thesis by (simp add: mail_def delivered_def sent_from_def [symmetric] orders_for_def filter_map o_def)
qed

lemma passed_on_parts: "concat (map (map snd \<circ> passed_on) xs) =
    concat (map parts (map (\<lambda>a. case a of Reply w c r \<Rightarrow> [c, [], ''SUCCESS''] | _ \<Rightarrow> []) (filter is_reply xs)))"
  by (induction xs) (auto simp: post_def split: arrival.splits)

lemma mail_answers:
  assumes "dispatched as n k b"
  shows "mail Localfe c b = replicate (answers_for as n c) [[], ''SUCCESS'']"
proof -
  let ?f = "\<lambda>a. case a of Reply w c r \<Rightarrow> [c, [], ''SUCCESS''] | _ \<Rightarrow> []"
  let ?xs = "take n (arrived Localbe as)"
  have "map snd (sent_from Localfe b) = concat (map parts (map ?f (filter is_reply ?xs)))"
    using assms passed_on_parts [of ?xs] by (simp add: dispatched_def map_concat o_def)
  moreover have "\<forall>m \<in> set (map ?f (filter is_reply ?xs)). m \<noteq> []" by (auto split: arrival.splits)
  ultimately have "whole (map snd (sent_from Localfe b)) = map ?f (filter is_reply ?xs)"
    by (simp only: whole_concat)
  moreover have "map tl (filter (\<lambda>m. hd m = c) (map ?f (filter is_reply ys))) =
      replicate (length (filter (reply_to c) ys)) [[], ''SUCCESS'']" for ys
    by (induction ys) (auto split: arrival.splits)
  ultimately show ?thesis by (simp add: mail_def delivered_def sent_from_def [symmetric] answers_for_def)
qed

section \<open>The invariant\<close>

text \<open>Arrivals counted by sender.\<close>

lemma filter_by_sender:
  assumes "finite S" and "\<forall>x \<in> set xs. P x \<longrightarrow> f x \<in> S"
  shows "length (filter P xs) = (\<Sum>w \<in> S. length (filter (\<lambda>x. P x \<and> f x = w) xs))"
  using assms(2)
proof (induction xs)
  case (Cons x xs)
  have "(\<Sum>w \<in> S. length (filter (\<lambda>y. P y \<and> f y = w) (x # xs))) =
      (\<Sum>w \<in> S. (if P x \<and> f x = w then 1 else 0)) + (\<Sum>w \<in> S. length (filter (\<lambda>y. P y \<and> f y = w) xs))"
    unfolding sum.distrib [symmetric] by (rule sum.cong) auto
  moreover have "(\<Sum>w \<in> S. (if P x \<and> f x = w then 1 else 0)) = (if P x then 1 else 0 :: nat)"
    using Cons.prems assms(1) by (cases "P x") (simp_all add: sum.delta)
  ultimately show ?case using Cons by simp
qed simp

fun replied_to :: "arrival \<Rightarrow> frame" where
  "replied_to (Reply w c r) = c"
| "replied_to a = []"

definition replies_of :: "action list \<Rightarrow> frame \<Rightarrow> frame list" where
  "replies_of as w = map replied_to (filter (\<lambda>a. is_reply a \<and> sender a = w) (arrived Localbe as))"

definition peering_inv :: "frame list \<Rightarrow> frame list \<Rightarrow> peering \<Rightarrow> (port \<Rightarrow> nat) \<Rightarrow> bool" where
  "peering_inv cs ws s n \<longleftrightarrow> proper (acts s) \<and> pb_inv (acts s) n (node s) \<and>
     (\<forall>a \<in> set (arrived Localfe (acts s)). sender a \<in> set cs) \<and>
     (\<forall>a \<in> set (arrived Localbe (acts s)). sender a \<in> set ws) \<and>
     (\<forall>w \<in> set ws. length (filter ((=) (Ready w)) (arrived Localbe (acts s))) \<le> 1 \<and>
        (worked s w \<noteq> 0 \<longrightarrow> Ready w \<in> set (arrived Localbe (acts s)))) \<and>
     (\<forall>w. replies_of (acts s) w = take (worked s w) (orders_for (acts s) (n Localfe) w) \<and>
        worked s w \<le> length (orders_for (acts s) (n Localfe) w)) \<and>
     (\<forall>c. answered s c \<le> answers_for (acts s) (n Localbe) c \<and> answered s c \<le> asked s c \<and> asked s c \<le> Suc (answered s c)) \<and>
     (\<forall>g \<in> set (got s). fst g \<in> set cs \<and> snd g = ''SUCCESS'')"

lemma peering_invD:
  assumes "peering_inv cs ws s n"
  shows "proper (acts s)" and "pb_inv (acts s) n (node s)"
    and "a \<in> set (arrived Localfe (acts s)) \<Longrightarrow> sender a \<in> set cs"
    and "a \<in> set (arrived Localbe (acts s)) \<Longrightarrow> sender a \<in> set ws"
    and "w \<in> set ws \<Longrightarrow> length (filter ((=) (Ready w)) (arrived Localbe (acts s))) \<le> 1"
    and "w \<in> set ws \<Longrightarrow> worked s w \<noteq> 0 \<Longrightarrow> Ready w \<in> set (arrived Localbe (acts s))"
    and "replies_of (acts s) w = take (worked s w) (orders_for (acts s) (n Localfe) w)"
    and "worked s w \<le> length (orders_for (acts s) (n Localfe) w)"
    and "answered s c \<le> answers_for (acts s) (n Localbe) c"
    and "answered s c \<le> asked s c" and "asked s c \<le> Suc (answered s c)"
    and "g \<in> set (got s) \<Longrightarrow> fst g \<in> set cs \<and> snd g = ''SUCCESS''"
  using assms unfolding peering_inv_def by blast+

lemma orders_for_more:
  assumes "k \<le> length (arrived Localfe as)" and "k \<le> length (arrived Localbe as)"
  shows "orders_for (as @ [a]) k w = orders_for as k w"
proof -
  have "\<exists>xs. arrived p (as @ [a]) = arrived p as @ xs" for p by (cases a) (simp_all add: arrived_append)
  then obtain f where "\<And>p. arrived p (as @ [a]) = arrived p as @ f p" by metis
  then show ?thesis
    using assms unfolding orders_for_def
    by (auto simp: nth_append intro!: map_cong filter_cong)
qed

lemma answers_for_more: "n \<le> length (arrived Localbe as) \<Longrightarrow> answers_for (as @ [a]) n c = answers_for as n c"
  by (cases a) (simp_all add: answers_for_def arrived_append)

lemma orders_for_prefix: "k \<le> l \<Longrightarrow> \<exists>xs. orders_for as l w = orders_for as k w @ xs"
proof -
  assume "k \<le> l"
  then obtain d where "l = k + d" by (metis le_iff_add)
  then have "[0..<l] = [0..<k] @ [k..<l]" using upt_add_eq_append [of 0 k d] by simp
  then show ?thesis by (simp add: orders_for_def)
qed

lemma answers_for_mono: "n \<le> m \<Longrightarrow> answers_for as n c \<le> answers_for as m c"
proof -
  assume "n \<le> m"
  then have "take m xs = take n xs @ take (m - n) (drop n xs)" for xs :: "arrival list"
    using take_add [of n "m - n" xs] by simp
  then show ?thesis by (simp add: answers_for_def)
qed

text \<open>An arrival leaves what the broker has sent as it was.\<close>

lemma occurs_inv:
  assumes "pb_inv (acts s) n (node s)" and "proper (acts s)" and "\<forall>w r. m \<noteq> Reply w ''READY'' r"
  shows "pb_inv (acts (occurs m s)) n (node (occurs m s)) \<and> proper (acts (occurs m s)) \<and>
    orders_for (acts (occurs m s)) (n Localfe) w = orders_for (acts s) (n Localfe) w \<and>
    answers_for (acts (occurs m s)) (n Localbe) c = answers_for (acts s) (n Localbe) c"
proof -
  note cnt = inv_counts [OF assms(1)]
  have ok: "proper (acts s @ [Arrive m])" using assms(2,3) by (auto simp: proper_def)
  have "pb_inv (acts s @ [Arrive m]) n (node (occurs m s))"
    using assms(1) by (auto simp: pb_inv_def pb_mid_def pending_def arrived_append le_SucI
        arrive_def occurs_def intro: dispatched_later)
  moreover have "n Localfe \<le> length (arrived Localbe (acts s))" using cnt(3,4) by linarith
  ultimately show ?thesis
    using ok cnt orders_for_more [of "n Localfe" "acts s" "Arrive m" w] answers_for_more [of "n Localbe" "acts s" "Arrive m" c]
    by (simp add: occurs_def)
qed

lemma peering_begin_inv: "peering_inv cs ws (peering_begin p) (\<lambda>_. 0)"
  by (simp add: peering_inv_def peering_begin_def proper_def pb_inv_def pb_mid_def pending_def dispatched_def
      pb_start_def arrived_def sent_from_def worked_def orders_for_def replies_of_def answers_for_def answered_def asked_def)

lemma arrived_occurs: "arrived p (acts (occurs m s)) = arrived p (acts s) @ (if arrival_port m = p then [m] else [])"
  by (simp add: occurs_def arrived_append)

lemma occurs_got [simp]: "got (occurs m s) = got s" "answered (occurs m s) = answered s"
  by (simp_all add: occurs_def answered_def fun_eq_iff)

text \<open>Which steps count what.\<close>

definition pass_units :: "nat \<Rightarrow> nat \<Rightarrow> nat \<Rightarrow> nat \<Rightarrow> nat \<Rightarrow> nat \<Rightarrow> bool \<Rightarrow> nat" where
  "pass_units Q k L n R x i = 6 * (Q - k) + 4 * (k - R) + 3 * (L - n) + x + (if (if i then Q - k else L - n) = 0 then 1 else 0)"

definition effort :: "frame list \<Rightarrow> peering \<Rightarrow> (port \<Rightarrow> nat) \<Rightarrow> nat" where
  "effort ws s n =
     pass_units (length (arrived Localfe (acts s))) (n Localfe) (length (arrived Localbe (acts s))) (n Localbe)
       (length (filter is_reply (arrived Localbe (acts s))))
       (length (filter is_reply (take (n Localbe) (arrived Localbe (acts s)))) - length (got s)) (inner (node s)) +
     4 * (length ws - length (filter (\<lambda>a. \<not> is_reply a) (arrived Localbe (acts s))))"

definition credit :: "peering \<Rightarrow> nat" where
  "credit s = 7 * length (arrived Localfe (acts s)) + length (arrived Cloudfe (acts s)) + length (arrived Cloudbe (acts s))"

text \<open>Totals from the counts of each worker and each client.\<close>

lemma total_orders:
  assumes "\<forall>a \<in> set (arrived Localbe as). sender a \<in> set ws" and "k \<le> length (arrived Localbe as)"
  shows "(\<Sum>w \<in> set ws. length (orders_for as k w)) = k"
proof -
  have "length (filter (\<lambda>i. True) [0..<k]) =
      (\<Sum>w \<in> set ws. length (filter (\<lambda>i. True \<and> sender (arrived Localbe as ! i) = w) [0..<k]))"
    using assms by (intro filter_by_sender) auto
  then show ?thesis by (simp add: orders_for_def)
qed

lemma total_worked:
  assumes "\<forall>a \<in> set (arrived Localbe (acts s)). sender a \<in> set ws"
  shows "length (filter is_reply (arrived Localbe (acts s))) = (\<Sum>w \<in> set ws. worked s w)"
  unfolding worked_def using assms by (intro filter_by_sender) auto

lemma total_answers:
  assumes "\<forall>a \<in> set xs. is_reply a \<longrightarrow> replied_to a \<in> set cs"
  shows "length (filter is_reply xs) = (\<Sum>c \<in> set cs. length (filter (reply_to c) xs))"
proof -
  have "reply_to c = (\<lambda>a. is_reply a \<and> replied_to a = c)" for c
  proof
    show "reply_to c a = (is_reply a \<and> replied_to a = c)" for a by (cases a) auto
  qed
  then show ?thesis using filter_by_sender [of "set cs" xs is_reply replied_to] assms by simp
qed

lemma total_got:
  assumes "\<forall>g \<in> set (got s). fst g \<in> set cs"
  shows "length (got s) = (\<Sum>c \<in> set cs. answered s c)"
  using filter_by_sender [of "set cs" "got s" "\<lambda>_. True" fst] assms by (simp add: answered_def)

text \<open>Clients that are replied to have asked.\<close>

lemma replied_client:
  assumes "peering_inv cs ws s n" and "a \<in> set (arrived Localbe (acts s))" and "is_reply a"
  shows "replied_to a \<in> set cs"
proof -
  note inv = peering_invD [OF assms(1)]
  have "replied_to a \<in> set (replies_of (acts s) (sender a))" using assms(2,3) by (auto simp: replies_of_def)
  then have "replied_to a \<in> set (orders_for (acts s) (n Localfe) (sender a))"
    unfolding inv(7) by (rule in_set_takeD)
  then obtain i where "i < n Localfe" "replied_to a = sender (arrived Localfe (acts s) ! i)"
    by (auto simp: orders_for_def)
  moreover have "n Localfe \<le> length (arrived Localfe (acts s))" by (rule inv_counts(5) [OF inv(2)])
  ultimately show ?thesis using inv(3) by simp
qed

lemma replies_le:
  assumes "peering_inv cs ws s n"
  shows "length (filter is_reply (arrived Localbe (acts s))) \<le> n Localfe"
    and "w \<in> set ws \<Longrightarrow> worked s w < length (orders_for (acts s) (n Localfe) w) \<Longrightarrow>
      length (filter is_reply (arrived Localbe (acts s))) < n Localfe"
proof -
  note inv = peering_invD [OF assms]
  have k: "(\<Sum>w \<in> set ws. length (orders_for (acts s) (n Localfe) w)) = n Localfe"
    using inv(4) inv_counts(3,4) [OF inv(2)] by (intro total_orders) auto
  have r: "length (filter is_reply (arrived Localbe (acts s))) = (\<Sum>w \<in> set ws. worked s w)"
    using inv(4) by (intro total_worked) blast
  show "length (filter is_reply (arrived Localbe (acts s))) \<le> n Localfe"
    using r k sum_mono [of "set ws" "worked s" "\<lambda>w. length (orders_for (acts s) (n Localfe) w)"] inv(8) by simp
  show "length (filter is_reply (arrived Localbe (acts s))) < n Localfe"
    if "w \<in> set ws" "worked s w < length (orders_for (acts s) (n Localfe) w)"
  proof -
    have "(\<Sum>w \<in> set ws. worked s w) < (\<Sum>w \<in> set ws. length (orders_for (acts s) (n Localfe) w))"
      using that inv(8) by (intro sum_strict_mono_ex1) auto
    then show ?thesis using r k by simp
  qed
qed

lemma got_le:
  assumes "peering_inv cs ws s n"
  shows "length (got s) \<le> length (filter is_reply (take (n Localbe) (arrived Localbe (acts s))))"
    and "c \<in> set cs \<Longrightarrow> answered s c < answers_for (acts s) (n Localbe) c \<Longrightarrow>
      length (got s) < length (filter is_reply (take (n Localbe) (arrived Localbe (acts s))))"
proof -
  note inv = peering_invD [OF assms]
  have g: "length (got s) = (\<Sum>c \<in> set cs. answered s c)" using inv(12) by (intro total_got) blast
  have a: "length (filter is_reply (take (n Localbe) (arrived Localbe (acts s)))) =
      (\<Sum>c \<in> set cs. answers_for (acts s) (n Localbe) c)"
    unfolding answers_for_def using replied_client [OF assms] by (intro total_answers) (blast dest: in_set_takeD)
  show "length (got s) \<le> length (filter is_reply (take (n Localbe) (arrived Localbe (acts s))))"
    unfolding g a by (intro sum_mono inv(9))
  show "length (got s) < length (filter is_reply (take (n Localbe) (arrived Localbe (acts s))))"
    if "c \<in> set cs" "answered s c < answers_for (acts s) (n Localbe) c"
    unfolding g a using that inv(9) by (intro sum_strict_mono_ex1) auto
qed

lemma announced_less:
  assumes "peering_inv cs ws s n" and "distinct ws"
  shows "length (filter (\<lambda>a. \<not> is_reply a) (arrived Localbe (acts s))) \<le> length ws"
    and "w \<in> set ws \<Longrightarrow> Ready w \<notin> set (arrived Localbe (acts s)) \<Longrightarrow>
      length (filter (\<lambda>a. \<not> is_reply a) (arrived Localbe (acts s))) < length ws"
    and "\<forall>w \<in> set ws. Ready w \<in> set (arrived Localbe (acts s)) \<Longrightarrow>
      length (filter (\<lambda>a. \<not> is_reply a) (arrived Localbe (acts s))) = length ws"
proof -
  note inv = peering_invD [OF assms(1)]
  let ?xs = "arrived Localbe (acts s)"
  have ready: "(\<not> is_reply a \<and> sender a = w) = (Ready w = a)" if "a \<in> set ?xs" for a w
    using arrived_port [OF that] by (cases a) auto
  have "length (filter (\<lambda>a. \<not> is_reply a) ?xs) = (\<Sum>w \<in> set ws. length (filter (\<lambda>a. \<not> is_reply a \<and> sender a = w) ?xs))"
    using inv(4) by (intro filter_by_sender) auto
  also have "\<dots> = (\<Sum>w \<in> set ws. length (filter ((=) (Ready w)) ?xs))"
    by (intro sum.cong refl arg_cong [where f = length] filter_cong ready)
  finally have n: "length (filter (\<lambda>a. \<not> is_reply a) ?xs) = (\<Sum>w \<in> set ws. length (filter ((=) (Ready w)) ?xs))" .
  have l: "length ws = (\<Sum>w \<in> set ws. 1)" using assms(2) by (simp add: distinct_card)
  show "length (filter (\<lambda>a. \<not> is_reply a) ?xs) \<le> length ws"
    unfolding n l by (intro sum_mono inv(5))
  show "length (filter (\<lambda>a. \<not> is_reply a) ?xs) < length ws" if "w \<in> set ws" "Ready w \<notin> set ?xs"
  proof -
    have "length (filter ((=) (Ready w)) ?xs) < 1" using that(2) by (auto simp: filter_empty_conv)
    then show ?thesis unfolding n l using that(1) inv(5) by (intro sum_strict_mono_ex1) auto
  qed
  show "length (filter (\<lambda>a. \<not> is_reply a) ?xs) = length ws" if all: "\<forall>w \<in> set ws. Ready w \<in> set ?xs"
  proof -
    have "length (filter ((=) (Ready w)) ?xs) = 1" if "w \<in> set ws" for w
    proof -
      have "Ready w \<in> set (filter ((=) (Ready w)) ?xs)" using all that by simp
      then have "length (filter ((=) (Ready w)) ?xs) \<noteq> 0" by (cases "filter ((=) (Ready w)) ?xs") simp_all
      with inv(5) [OF that] show ?thesis by linarith
    qed
    then show ?thesis unfolding n l by (intro sum.cong) auto
  qed
qed

section \<open>The steps\<close>

lemma pass_units_Suc:
  "pass_units Q k L n R (Suc x) i = Suc (pass_units Q k L n R x i)"
  "k \<le> Q \<Longrightarrow> pass_units (Suc Q) k L n R x i \<le> pass_units Q k L n R x i + 6"
  "n \<le> L \<Longrightarrow> pass_units Q k (Suc L) n R x i \<le> pass_units Q k L n R x i + 3"
  "R < k \<Longrightarrow> pass_units Q k L n (Suc R) x i + 4 = pass_units Q k L n R x i"
  by (auto simp: pass_units_def Suc_diff_le Suc_diff_Suc [symmetric])

lemma step_ask:
  assumes "peering_inv cs ws s n" and "c \<in> set cs" and "asked s c = answered s c"
  shows "peering_inv cs ws (occurs (Ask c q) s) n \<and>
    effort ws (occurs (Ask c q) s) n + 1 + credit s \<le> effort ws s n + credit (occurs (Ask c q) s)"
proof
  note inv = peering_invD [OF assms(1)]
  note keep = occurs_inv [OF inv(2,1), of "Ask c q"]
  have "worked (occurs (Ask c q) s) = worked s" "replies_of (acts (occurs (Ask c q) s)) = replies_of (acts s)"
    by (simp_all add: worked_def replies_of_def arrived_occurs fun_eq_iff)
  moreover have "asked (occurs (Ask c q) s) d = asked s d + (if d = c then 1 else 0)" for d
    by (simp add: asked_def arrived_occurs)
  ultimately show "peering_inv cs ws (occurs (Ask c q) s) n"
    unfolding peering_inv_def using keep inv assms(2,3) by (auto simp: arrived_occurs)
  show "effort ws (occurs (Ask c q) s) n + 1 + credit s \<le> effort ws s n + credit (occurs (Ask c q) s)"
    using pass_units_Suc(2) [OF inv_counts(5) [OF inv(2)], where L = "length (arrived Localbe (acts s))" and n = "n Localbe" and R = "length (filter is_reply (arrived Localbe (acts s)))" and
      x = "length (filter is_reply (take (n Localbe) (arrived Localbe (acts s)))) - length (got s)" and i = "inner (node s)"] by (simp add: effort_def credit_def arrived_occurs) (simp add: occurs_def)
qed

lemma step_peer:
  assumes "peering_inv cs ws s n" and "m = Peer_asks p x \<or> m = Peer_answers p x"
  shows "peering_inv cs ws (occurs m s) n \<and> effort ws (occurs m s) n + 1 + credit s \<le> effort ws s n + credit (occurs m s)"
proof
  note inv = peering_invD [OF assms(1)]
  have "\<forall>w r. m \<noteq> Reply w ''READY'' r" using assms(2) by auto
  note keep = occurs_inv [OF inv(2,1) this]
  have arr: "arrived Localbe (acts (occurs m s)) = arrived Localbe (acts s)"
      "arrived Localfe (acts (occurs m s)) = arrived Localfe (acts s)"
    using assms(2) by (auto simp: arrived_occurs)
  then have "worked (occurs m s) = worked s" "replies_of (acts (occurs m s)) = replies_of (acts s)"
      "asked (occurs m s) = asked s"
    by (simp_all add: worked_def replies_of_def asked_def fun_eq_iff)
  then show "peering_inv cs ws (occurs m s) n"
    unfolding peering_inv_def arr using keep inv by simp
  show "effort ws (occurs m s) n + 1 + credit s \<le> effort ws s n + credit (occurs m s)"
    using assms(2) by (auto simp: effort_def credit_def arr) (auto simp: occurs_def arrived_append)
qed

lemma step_announce:
  assumes "peering_inv cs ws s n" and "w \<in> set ws" and "Ready w \<notin> set (arrived Localbe (acts s))" and "distinct ws"
  shows "peering_inv cs ws (occurs (Ready w) s) n \<and>
    effort ws (occurs (Ready w) s) n + 1 + credit s \<le> effort ws s n + credit (occurs (Ready w) s)"
proof
  note inv = peering_invD [OF assms(1)]
  note keep = occurs_inv [OF inv(2,1), of "Ready w"]
  have "worked (occurs (Ready w) s) = worked s" "replies_of (acts (occurs (Ready w) s)) = replies_of (acts s)"
      "asked (occurs (Ready w) s) = asked s"
    by (simp_all add: worked_def replies_of_def asked_def arrived_occurs fun_eq_iff)
  moreover have "filter ((=) (Ready w)) (arrived Localbe (acts s)) = []"
    using assms(3) by (auto simp: filter_empty_conv)
  ultimately show "peering_inv cs ws (occurs (Ready w) s) n"
    unfolding peering_inv_def using keep inv assms(2) by (auto simp: arrived_occurs)
  show "effort ws (occurs (Ready w) s) n + 1 + credit s \<le> effort ws s n + credit (occurs (Ready w) s)"
    using inv_counts(4) [OF inv(2)] pass_units_Suc(3) [OF inv_counts(4) [OF inv(2)], where Q = "length (arrived Localfe (acts s))" and k = "n Localfe" and R = "length (filter is_reply (arrived Localbe (acts s)))" and
      x = "length (filter is_reply (take (n Localbe) (arrived Localbe (acts s)))) - length (got s)" and i = "inner (node s)"]
      Suc_diff_Suc [OF announced_less(2) [OF assms(1,4,2,3)]]
    by (simp add: effort_def credit_def arrived_occurs) (simp add: occurs_def)
qed

lemma step_get:
  assumes "peering_inv cs ws s n" and "c \<in> set cs" and "answered s c < asked s c"
    and "answered s c < length (mail Localfe c (node s))"
    and "req_takes (mail Localfe c (node s) ! answered s c) = Some received" and "client_gets received = Some reply"
  shows "peering_inv cs ws (s\<lparr>got := got s @ [(c, reply)]\<rparr>) n \<and>
    effort ws (s\<lparr>got := got s @ [(c, reply)]\<rparr>) n + 1 + credit s \<le> effort ws s n + credit (s\<lparr>got := got s @ [(c, reply)]\<rparr>)"
proof
  note inv = peering_invD [OF assms(1)]
  let ?t = "s\<lparr>got := got s @ [(c, reply)]\<rparr>"
  have d: "dispatched (acts s) (n Localbe) (n Localfe) (node s)" using inv(2) by (simp add: pb_inv_def pb_mid_def)
  have less: "answered s c < answers_for (acts s) (n Localbe) c" using assms(4) by (simp add: mail_answers [OF d])
  then have "reply = ''SUCCESS''"
    using assms(5,6) by (auto simp: mail_answers [OF d] req_takes_def client_gets_def)
  moreover have "answered ?t e = answered s e + (if e = c then 1 else 0)" for e
    by (simp add: answered_def)
  moreover have "worked ?t = worked s" "asked ?t = asked s" by (simp_all add: worked_def asked_def fun_eq_iff)
  ultimately show "peering_inv cs ws ?t n"
    unfolding peering_inv_def using inv less assms(2,3) by (auto intro: le_SucI)
  show "effort ws ?t n + 1 + credit s \<le> effort ws s n + credit ?t"
    by (simp add: effort_def credit_def Suc_diff_Suc [OF got_le(2) [OF assms(1,2) less], symmetric] pass_units_Suc(1))
qed

lemma step_work:
  assumes "peering_inv cs ws s n" and "w \<in> set ws" and "Ready w \<in> set (arrived Localbe (acts s))"
    and "worked s w < length (mail Localbe w (node s))"
    and "req_takes (mail Localbe w (node s) ! worked s w) = Some received"
    and "worker_sends_back received = Some [addr, [], r]" and "''READY'' \<notin> set cs"
  shows "peering_inv cs ws (occurs (Reply w addr r) s) n \<and>
    effort ws (occurs (Reply w addr r) s) n + 1 + credit s \<le> effort ws s n + credit (occurs (Reply w addr r) s)"
proof
  note inv = peering_invD [OF assms(1)]
  let ?t = "occurs (Reply w addr r) s" and ?o = "orders_for (acts s) (n Localfe)"
  have d: "dispatched (acts s) (n Localbe) (n Localfe) (node s)" using inv(2) by (simp add: pb_inv_def pb_mid_def)
  have less: "worked s w < length (?o w)" using assms(4) by (simp add: mail_orders [OF d])
  then have addr: "addr = ?o w ! worked s w"
    using assms(5,6) by (auto simp: mail_orders [OF d] req_takes_def worker_sends_back_def)
  have "addr \<in> set (?o w)" using less by (simp add: addr)
  then obtain i where "i < n Localfe" "addr = sender (arrived Localfe (acts s) ! i)" by (auto simp: orders_for_def)
  then have "addr \<in> set cs" using inv(3) inv_counts(5) [OF inv(2)] by simp
  then have "addr \<noteq> ''READY''" using assms(7) by auto
  then have keep: "pb_inv (acts ?t) n (node ?t)" "proper (acts ?t)"
      "orders_for (acts ?t) (n Localfe) v = ?o v" "answers_for (acts ?t) (n Localbe) c = answers_for (acts s) (n Localbe) c" for v c
    using occurs_inv [OF inv(2,1), of "Reply w addr r"] by auto
  have w: "worked ?t v = worked s v + (if v = w then 1 else 0)" for v by (simp add: worked_def arrived_occurs)
  have a: "asked ?t = asked s" by (simp add: asked_def arrived_occurs fun_eq_iff)
  have rep: "replies_of (acts ?t) v = replies_of (acts s) v @ (if v = w then [addr] else [])" for v
    by (simp add: replies_of_def arrived_occurs)
  have "replies_of (acts ?t) v = take (worked ?t v) (?o v) \<and> worked ?t v \<le> length (?o v)" for v
    using inv(7,8) [of v] less by (cases "v = w") (simp_all add: rep w take_Suc_conv_app_nth addr [symmetric])
  then show "peering_inv cs ws ?t n"
    unfolding peering_inv_def keep(3,4) a using keep(1,2) inv assms(2,3) w by (auto simp: arrived_occurs)
  show "effort ws ?t n + 1 + credit s \<le> effort ws s n + credit ?t"
    using inv_counts(4) [OF inv(2)] pass_units_Suc(3) [OF inv_counts(4) [OF inv(2)], where Q = "length (arrived Localfe (acts s))" and k = "n Localfe" and R = "Suc (length (filter is_reply (arrived Localbe (acts s))))" and
      x = "length (filter is_reply (take (n Localbe) (arrived Localbe (acts s)))) - length (got s)" and i = "inner (node s)"]
      pass_units_Suc(4) [OF replies_le(2) [OF assms(1,2) less], where Q = "length (arrived Localfe (acts s))" and L = "length (arrived Localbe (acts s))" and n = "n Localbe" and
      x = "length (filter is_reply (take (n Localbe) (arrived Localbe (acts s)))) - length (got s)" and i = "inner (node s)"]
    by (simp add: effort_def credit_def arrived_occurs) (simp add: occurs_def)
qed

lemma pass_effort:
  assumes "n < L \<or> k < Q \<and> k \<noteq> n" and "k \<le> n" and "n \<le> L" and "k \<le> Q" and "R \<le> k" and "y \<le> x + (if \<not> i \<and> n < L then 1 else 0)"
  shows "pass_units Q (k + (if i \<and> k < Q then 1 else 0)) L (n + (if \<not> i \<and> n < L then 1 else 0)) R y
      (\<not> (i \<and> \<not> k < Q) \<and> k + (if i \<and> k < Q then 1 else 0) < n + (if \<not> i \<and> n < L then 1 else 0)) + 1
    \<le> pass_units Q k L n R x i"
proof -
  obtain q l r where e: "Q = k + q" "L = n + l" "k = R + r"
    using assms(3-5) by (metis le_iff_add)
  show ?thesis
    using assms unfolding e by (cases i; cases q; cases l) (simp_all add: pass_units_def)
qed

lemma step_pass:
  assumes "peering_inv cs ws s n" and "\<not> settled (node s)" and "pb_pass (node s) = Some b"
  shows "\<exists>n'. peering_inv cs ws (s\<lparr>acts := acts s @ [Pass], node := b\<rparr>) n' \<and>
    effort ws (s\<lparr>acts := acts s @ [Pass], node := b\<rparr>) n' + 1 + credit s \<le>
      effort ws s n + credit (s\<lparr>acts := acts s @ [Pass], node := b\<rparr>)"
proof -
  note inv = peering_invD [OF assms(1)]
  let ?t = "s\<lparr>acts := acts s @ [Pass], node := b\<rparr>"
  let ?L = "arrived Localbe (acts s)" and ?Q = "arrived Localfe (acts s)"
  from pass_step [OF inv(2,1)] assms(3) obtain n' where p: "pb_inv (acts s) n' b"
    "n' Localbe = n Localbe + (if \<not> inner (node s) \<and> readable Localbe (sockets (node s)) then 1 else 0)"
    "n' Localfe = n Localfe + (if inner (node s) \<and> readable Localfe (sockets (node s)) then 1 else 0)"
    "inner b = (\<not> (inner (node s) \<and> \<not> readable Localfe (sockets (node s))) \<and> capacity b \<noteq> 0)" by auto
  note c = inv_counts [OF inv(2)] and c' = inv_counts [OF p(1)]
  have arr: "arrived q (acts s @ [Pass]) = arrived q (acts s)" for q by (simp add: arrived_append)
  have ok: "proper (acts s @ [Pass])" using inv(1) by (simp add: proper_def)
  have "dispatched (acts s @ [Pass]) (n' Localbe) (n' Localfe) b"
    using p(1) by (intro dispatched_later [where b = b and i = "inbox (sockets b)"]) (simp_all add: pb_inv_def pb_mid_def)
  then have b: "pb_inv (acts s @ [Pass]) n' b"
    using p(1) by (simp add: pb_inv_def pb_mid_def pending_def arr)
  have same: "worked ?t = worked s" "asked ?t = asked s" "answered ?t = answered s"
      "replies_of (acts ?t) = replies_of (acts s)" "\<And>k w. orders_for (acts ?t) k w = orders_for (acts s) k w"
      "\<And>k c. answers_for (acts ?t) k c = answers_for (acts s) k c"
    by (simp_all add: worked_def asked_def answered_def replies_of_def orders_for_def answers_for_def arr fun_eq_iff)
  have ge: "n Localbe \<le> n' Localbe" "n Localfe \<le> n' Localfe" using p(2,3) by simp_all
  have ord: "take (worked s w) (orders_for (acts s) (n' Localfe) w) = take (worked s w) (orders_for (acts s) (n Localfe) w) \<and>
      worked s w \<le> length (orders_for (acts s) (n' Localfe) w)" for w
    using orders_for_prefix [OF ge(2), of "acts s" w] inv(8) [of w] by auto
  have ans: "answered s e \<le> answers_for (acts s) (n' Localbe) e" for e
    using answers_for_mono [OF ge(1), of "acts s" e] inv(9) [of e] by linarith
  have "peering_inv cs ws ?t n'"
    unfolding peering_inv_def same using b ok inv ord ans by (simp add: arr)
  moreover have queue: "worker_queue (node s) = [] \<longleftrightarrow> n Localfe = n Localbe"
    using inv(2) c(3,4) by (auto simp: pb_inv_def pb_mid_def dispatched_def)
  have "length (filter is_reply (take (Suc k) xs)) \<le> length (filter is_reply (take k xs)) + 1" for k xs
    by (cases "k < length xs") (simp_all add: take_Suc_conv_app_nth)
  then have "length (filter is_reply (take (n' Localbe) ?L)) \<le> length (filter is_reply (take (n Localbe) ?L)) + (n' Localbe - n Localbe)"
    using p(2) by (auto split: if_splits)
  then have t: "length (filter is_reply (take (n' Localbe) ?L)) - length (got s) \<le>
      length (filter is_reply (take (n Localbe) ?L)) - length (got s) + (if \<not> inner (node s) \<and> n Localbe < length ?L then 1 else 0)"
    using p(2) unfolding c(1) by (auto split: if_splits)
  have busy: "n Localbe < length ?L \<or> n Localfe < length ?Q \<and> n Localfe \<noteq> n Localbe"
    using assms(2) queue by (simp add: settled_def c(1))
  have "inner b = (\<not> (inner (node s) \<and> \<not> n Localfe < length ?Q) \<and> n' Localfe < n' Localbe)"
    using p(4) unfolding c(1) c'(2) .
  then have "pass_units (length ?Q) (n' Localfe) (length ?L) (n' Localbe) (length (filter is_reply ?L))
      (length (filter is_reply (take (n' Localbe) ?L)) - length (got s)) (inner b) + 1
    \<le> pass_units (length ?Q) (n Localfe) (length ?L) (n Localbe) (length (filter is_reply ?L))
      (length (filter is_reply (take (n Localbe) ?L)) - length (got s)) (inner (node s))"
    using pass_effort [OF busy c(3-5) replies_le(1) [OF assms(1)] t] p(2,3) unfolding c(1) by (simp only:)
  then have "effort ws ?t n' + 1 + credit s \<le> effort ws s n + credit ?t"
    by (simp add: effort_def credit_def arr)
  ultimately show ?thesis by blast
qed

lemma step_any:
  assumes "peering_step cs ws s t" and "peering_inv cs ws s n" and "distinct ws" and "''READY'' \<notin> set cs"
  shows "\<exists>n'. peering_inv cs ws t n' \<and> effort ws t n' + 1 + credit s \<le> effort ws s n + credit t"
  using assms(1)
proof cases
  case (ask c q)
  then show ?thesis using step_ask [OF assms(2)] by blast
next
  case (get c received reply)
  then show ?thesis using step_get [OF assms(2)] by blast
next
  case (announce w)
  then show ?thesis using step_announce [OF assms(2) _ _ assms(3)] by blast
next
  case (work w received addr r)
  then show ?thesis using step_work [OF assms(2) _ _ _ _ _ assms(4)] by blast
next
  case (pass b)
  then show ?thesis using step_pass [OF assms(2)] by blast
next
  case (peer m p x)
  then show ?thesis using step_peer [OF assms(2)] by blast
qed

interpretation peers: bounded_system "peering_step cs ws"
    "\<lambda>s n. peering_inv cs ws s n \<and> distinct ws \<and> ''READY'' \<notin> set cs" "effort ws" credit
  for cs ws
  by unfold_locales (use step_any in blast)

section \<open>Nobody waits for ever\<close>

lemma filter_nth: "length (filter (\<lambda>i. P (xs ! i)) [0..<length xs]) = length (filter P xs)"
proof -
  have "filter P xs = map ((!) xs) (filter (P \<circ> (!) xs) [0..<length xs])"
    by (simp only: filter_map [symmetric] map_nth)
  then show ?thesis by (simp add: o_def)
qed

text \<open>When every order has been sent back, there is a reply for every question.\<close>

lemma all_answered:
  assumes "peering_inv cs ws s n" and "\<forall>w \<in> set ws. worked s w = length (orders_for (acts s) (n Localfe) w)"
    and "n Localfe = length (arrived Localfe (acts s))" and "n Localbe = length (arrived Localbe (acts s))"
  shows "answers_for (acts s) (n Localbe) c = asked s c"
proof -
  note inv = peering_invD [OF assms(1)]
  let ?L = "arrived Localbe (acts s)" and ?Q = "arrived Localfe (acts s)" and ?k = "n Localfe"
  have r: "reply_to c a = (is_reply a \<and> replied_to a = c)" for a by (cases a) auto
  have "answers_for (acts s) (n Localbe) c = (\<Sum>w \<in> set ws. length (filter (\<lambda>a. reply_to c a \<and> sender a = w) ?L))"
    unfolding answers_for_def assms(4) using inv(4) by (simp, intro filter_by_sender) auto
  also have "\<dots> = (\<Sum>w \<in> set ws. length (filter ((=) c) (replies_of (acts s) w)))"
    unfolding replies_of_def by (intro sum.cong refl) (auto simp: filter_map o_def r intro!: arg_cong [where f = length] filter_cong)
  also have "\<dots> = (\<Sum>w \<in> set ws. length (filter (\<lambda>i. sender (?Q ! i) = c \<and> sender (?L ! i) = w) [0..<?k]))"
    using inv(7) assms(2) by (intro sum.cong refl)
      (auto simp: orders_for_def filter_map o_def intro!: arg_cong [where f = length] filter_cong)
  also have "\<dots> = length (filter (\<lambda>i. sender (?Q ! i) = c) [0..<?k])"
    using inv(4) inv_counts(3,4) [OF inv(2)] by (intro filter_by_sender [symmetric]) auto
  also have "\<dots> = asked s c" unfolding assms(3) asked_def by (rule filter_nth)
  finally show ?thesis .
qed

text \<open>Only clients and peers have something to send.\<close>

definition waits_for_outside :: "frame list \<Rightarrow> frame list \<Rightarrow> peering \<Rightarrow> bool" where
  "waits_for_outside cs ws s \<longleftrightarrow>
     (\<forall>t. peering_step cs ws s t \<longrightarrow> (\<exists>m. t = occurs m s \<and> arrival_port m \<noteq> Localbe))"

lemma occurs_inject: "occurs a s = occurs b s \<Longrightarrow> a = b"
  by (drule arg_cong [where f = acts]) (simp add: occurs_def)

lemma waits_settled:
  assumes "peering_inv cs ws s n" and "waits_for_outside cs ws s"
  shows "settled (node s)" and "\<forall>w \<in> set ws. Ready w \<in> set (arrived Localbe (acts s))"
    and "w \<in> set ws \<Longrightarrow> worked s w = length (orders_for (acts s) (n Localfe) w)"
    and "c \<in> set cs \<Longrightarrow> answered s c < asked s c \<Longrightarrow> answered s c = answers_for (acts s) (n Localbe) c"
proof -
  note inv = peering_invD [OF assms(1)]
  note out = assms(2) [unfolded waits_for_outside_def, rule_format]
  have d: "dispatched (acts s) (n Localbe) (n Localfe) (node s)" using inv(2) by (simp add: pb_inv_def pb_mid_def)
  obtain b where b: "pb_pass (node s) = Some b" using pass_step [OF inv(2,1)] by blast
  show "settled (node s)"
  proof (rule ccontr)
    assume "\<not> settled (node s)"
    from out [OF peering_step.pass [OF this b]]
    obtain m where "s\<lparr>acts := acts s @ [Pass], node := b\<rparr> = occurs m s" by blast
    from arg_cong [OF this, of acts] show False by (simp add: occurs_def)
  qed
  show ready: "\<forall>w \<in> set ws. Ready w \<in> set (arrived Localbe (acts s))"
    using out [OF peering_step.announce] by (fastforce simp: worker_announces_def dest: occurs_inject)
  show "worked s w = length (orders_for (acts s) (n Localfe) w)" if w: "w \<in> set ws"
  proof (rule ccontr)
    assume "\<not> ?thesis"
    then have less: "worked s w < length (orders_for (acts s) (n Localfe) w)" using inv(8) [of w] by simp
    then have "req_takes (mail Localbe w (node s) ! worked s w) = Some [orders_for (acts s) (n Localfe) w ! worked s w, [], ''WORLD'']"
      by (simp add: mail_orders [OF d] req_takes_def)
    from out [OF peering_step.work [OF w _ _ this]] less ready w show False
      by (fastforce simp: mail_orders [OF d] worker_sends_back_def dest: occurs_inject)
  qed
  show "answered s c = answers_for (acts s) (n Localbe) c" if c: "c \<in> set cs" "answered s c < asked s c"
  proof (rule ccontr)
    assume "\<not> ?thesis"
    then have less: "answered s c < answers_for (acts s) (n Localbe) c" using inv(9) [of c] by simp
    then have "req_takes (mail Localfe c (node s) ! answered s c) = Some [''SUCCESS'']"
      by (simp add: mail_answers [OF d] req_takes_def)
    from out [OF peering_step.get [OF c _ this]] less
    obtain m where "s\<lparr>got := got s @ [(c, ''SUCCESS'')]\<rparr> = occurs m s"
      by (auto simp: mail_answers [OF d] client_gets_def)
    from arg_cong [OF this, of acts] show False by (simp add: occurs_def)
  qed
qed

lemma asked_client:
  assumes "peering_inv cs ws s n" and "asked s c \<noteq> 0"
  shows "c \<in> set cs"
  using peering_invD(3) [OF assms(1)] assms(2) by (auto simp: asked_def filter_empty_conv)

lemma waits_answered:
  assumes "peering_inv cs ws s n" and "waits_for_outside cs ws s" and "ws \<noteq> []" and "distinct ws"
  shows "answered s c = asked s c"
proof -
  note inv = peering_invD [OF assms(1)] and waits = waits_settled [OF assms(1,2)]
  note cnt = inv_counts [OF inv(2)]
  let ?L = "arrived Localbe (acts s)"
  have "(\<Sum>w \<in> set ws. worked s w) = (\<Sum>w \<in> set ws. length (orders_for (acts s) (n Localfe) w))"
    using waits(3) by (intro sum.cong refl) blast
  then have r: "length (filter is_reply ?L) = n Localfe"
    using total_worked [of s ws] total_orders [of "acts s" ws "n Localfe"] inv(4) cnt(3,4) by simp
  have "length (filter (\<lambda>a. \<not> is_reply a) ?L) = length ws"
    by (rule announced_less(3) [OF assms(1,4) waits(2)])
  then have l: "length ?L = n Localfe + length ws"
    using r sum_length_filter_compl [of is_reply ?L] by simp
  have be: "n Localbe = length ?L" using waits(1) cnt(1,4) by (simp add: settled_def)
  then have "worker_queue (node s) \<noteq> []"
    using inv(2) l assms(3) by (auto simp: pb_inv_def pb_mid_def dispatched_def)
  then have fe: "n Localfe = length (arrived Localfe (acts s))"
    using waits(1) cnt(1,5) by (simp add: settled_def)
  have "answers_for (acts s) (n Localbe) c = asked s c"
    using waits(3) fe be by (intro all_answered [OF assms(1)]) auto
  then show ?thesis
    using waits(4) [of c] inv(10) [of c] asked_client [OF assms(1), of c] by fastforce
qed

text \<open>
  C12: Clients and workers of the peering broker run in any order, with messages of peers in between.
  However they run, every client asks one question at a time and gets nothing but
  \<^verbatim>\<open>SUCCESS\<close>, at most once for a question, and the broker can always make a pass. The number of
  steps is bounded by the workers, the questions and the messages of peers, so the system comes to
  rest when no more are asked; and where it rests, with a worker at least, every client has its answer.
\<close>

theorem peering_answers_all:
  assumes "(peering_step cs ws ^^ m) (peering_begin p) s" and "distinct ws" and "''READY'' \<notin> set cs"
  shows "m \<le> 4 * length ws + 1 + 7 * length (arrived Localfe (acts s)) +
      length (arrived Cloudfe (acts s)) + length (arrived Cloudbe (acts s)) \<and>
    (\<forall>g \<in> set (got s). fst g \<in> set cs \<and> snd g = ''SUCCESS'') \<and>
    answered s c \<le> asked s c \<and> asked s c \<le> answered s c + 1 \<and>
    pb_pass (node s) \<noteq> None \<and>
    (ws \<noteq> [] \<and> waits_for_outside cs ws s \<longrightarrow> answered s c = asked s c)"
proof -
  have "peering_inv cs ws (peering_begin p) (\<lambda>_. 0) \<and> distinct ws \<and> ''READY'' \<notin> set cs"
    using assms(2,3) peering_begin_inv by blast
  from peers.run_effort [OF assms(1) this] obtain n where
    n: "peering_inv cs ws s n" "m + credit (peering_begin p) \<le> effort ws (peering_begin p) (\<lambda>_. 0) + credit s" by auto
  note inv = peering_invD [OF n(1)]
  have "m \<le> 4 * length ws + 1 + credit s"
    using n(2) by (simp add: peering_begin_def effort_def credit_def pass_units_def pb_start_def arrived_def)
  moreover have "pb_pass (node s) \<noteq> None" using pass_step [OF inv(2,1)] by auto
  ultimately show ?thesis
    using inv(10-12) waits_answered [OF n(1) _ _ assms(2)] by (auto simp: credit_def)
qed

text \<open>One client, one worker and one question, step by step.\<close>

definition passes :: "peering \<Rightarrow> peering" where
  "passes s = s\<lparr>acts := acts s @ [Pass], node := the (pb_pass (node s))\<rparr>"

definition worker_waits :: peering where
  "worker_waits = passes (occurs (Ready ''w'') (peering_begin ''p''))"

definition worker_works :: peering where
  "worker_works = passes (occurs (Ask ''c'' ''HELLO'') worker_waits)"

definition client_waits :: peering where
  "client_waits = passes (occurs (Reply ''w'' ''c'' ''WORLD'') worker_works)"

definition client_done :: peering where
  "client_done = client_waits\<lparr>got := got client_waits @ [(''c'', ''SUCCESS'')]\<rparr>"

lemma passes_step: "\<not> settled (node s) \<Longrightarrow> pb_pass (node s) \<noteq> None \<Longrightarrow> peering_step cs ws s (passes s)"
  by (auto simp: passes_def intro: peering_step.pass)

lemma one_question: "(peering_step [''c''] [''w''] ^^ 7) (peering_begin ''p'') client_done"
proof -
  let ?R = "peering_step [''c''] [''w'']"
  have "?R (peering_begin ''p'') (occurs (Ready ''w'') (peering_begin ''p''))"
    by (rule peering_step.announce) code_simp+
  moreover have "?R (occurs (Ready ''w'') (peering_begin ''p'')) worker_waits"
    unfolding worker_waits_def by (rule passes_step) code_simp+
  moreover have "?R worker_waits (occurs (Ask ''c'' ''HELLO'') worker_waits)"
    by (rule peering_step.ask) code_simp+
  moreover have "?R (occurs (Ask ''c'' ''HELLO'') worker_waits) worker_works"
    unfolding worker_works_def by (rule passes_step) code_simp+
  moreover have "?R worker_works (occurs (Reply ''w'' ''c'' ''WORLD'') worker_works)"
    by (rule peering_step.work [where received = "[''c'', [], ''WORLD'']"]) code_simp+
  moreover have "?R (occurs (Reply ''w'' ''c'' ''WORLD'') worker_works) client_waits"
    unfolding client_waits_def by (rule passes_step) code_simp+
  moreover have "?R client_waits client_done"
    unfolding client_done_def by (rule peering_step.get [where received = "[''SUCCESS'']"]) code_simp+
  ultimately show ?thesis by (simp add: eval_nat_numeral OO_def) blast
qed

lemma one_question_rests: "waits_for_outside [''c''] [''w''] client_done"
proof -
  have "settled (node client_done)" "asked client_done ''c'' = answered client_done ''c''"
      "Ready ''w'' \<in> set (arrived Localbe (acts client_done))" "worked client_done ''w'' = length (mail Localbe ''w'' (node client_done))"
    by code_simp+
  then show ?thesis by (auto simp: waits_for_outside_def elim!: peering_step.cases)
qed

theorem peering_answers_all_witness:
  "(peering_step [''c''] [''w''] ^^ 7) (peering_begin ''p'') client_done \<and> asked client_done ''c'' = 1 \<and>
   waits_for_outside [''c''] [''w''] client_done \<and> answered client_done ''c'' = asked client_done ''c''"
proof -
  have "asked client_done ''c'' = 1" by code_simp
  then show ?thesis
    using peering_answers_all [OF one_question, of "''c''"] one_question one_question_rests by simp
qed

end
