(* ===== verification/Cluster_System.thy ===== *)
theory Cluster_System
  imports Cluster_Broker
begin

text \<open>
  The cluster broker of \<^verbatim>\<open>example/cluster.cpp\<close> with its client and worker threads, for any number of each
  and peers that send what they like. ZeroMQ's REQ sockets keep a lock step: a second
  receive without a send in between is an error, which the C++ binding throws.
\<close>

section \<open>The client\<close>

text \<open>Where a client stands: before a burst, in it with so many requests left, or waiting for a reply.\<close>

datatype place = Resting | Bursting nat | Waiting nat

definition client_draws :: "nat \<Rightarrow> place" where
  "client_draws r = Bursting (CANNA_RAND 15 r)"

fun client_bursts :: "place \<Rightarrow> (place \<times> frame option) option" where
  "client_bursts (Bursting 0) = Some (Resting, None)"
| "client_bursts (Bursting (Suc n)) = Some (Waiting n, Some ''WORK'')"
| "client_bursts p = None"

text \<open>After the poll, with the reply if there is one: the client reports to the monitor.\<close>

fun client_reports :: "place \<Rightarrow> frame option \<Rightarrow> (place \<times> frame) option" where
  "client_reports (Waiting n) (Some reply) = Some (Bursting n, reply)"
| "client_reports (Waiting n) None = Some (Bursting n, ''E: CLIENT EXIT - lost task'')"
| "client_reports p reply = None"

section \<open>The worker\<close>

record req =
  unread :: "(frame \<times> bool) list"
  awaiting :: bool

datatype received = Waits | Throws | Got frame req

definition req_recv :: "req \<Rightarrow> received" where
  "req_recv q =
     (if \<not> awaiting q then Throws
      else case unread q of [] \<Rightarrow> Waits | (f, mr) # rest \<Rightarrow> Got f \<lparr>unread = rest, awaiting = mr\<rparr>)"

definition worker_announces :: "frame list" where
  "worker_announces = [''READY'']"

text \<open>The receives of the worker's loop, and whether they end with the exception.\<close>

function worker_task :: "req \<Rightarrow> frame list \<times> bool" where
  "worker_task q =
     (case req_recv q of
        Waits \<Rightarrow> ([], False)
      | Throws \<Rightarrow> ([], True)
      | Got msg q' \<Rightarrow> let (msgs, e) = worker_task q' in (msg # msgs, e))"
  by pat_completeness auto
termination
  by (relation "measure (\<lambda>q. length (unread q))") (auto simp: req_recv_def split: if_splits list.splits)

text \<open>Whatever a worker is sent, it reads one message and its next receive takes the process down.\<close>

lemma worker_task_ends:
  "body \<noteq> [] \<Longrightarrow> worker_task \<lparr>unread = parts body @ rest, awaiting = True\<rparr> = (body, True)"
proof (induction body rule: parts.induct)
  case (2 f)
  have "req_recv \<lparr>unread = rest, awaiting = False\<rparr> = Throws" by (simp add: req_recv_def)
  then show ?case by (simp add: req_recv_def worker_task.simps [of "\<lparr>unread = _, awaiting = _\<rparr>"])
next
  case (3 f g fs)
  have "worker_task \<lparr>unread = parts (f # g # fs) @ rest, awaiting = True\<rparr> =
      (let (msgs, e) = worker_task \<lparr>unread = parts (g # fs) @ rest, awaiting = True\<rparr> in (f # msgs, e))"
    by (subst worker_task.simps) (simp add: req_recv_def)
  then show ?case using 3 by simp
qed simp

section \<open>The system\<close>

text \<open>
  The broker, where each client stands, the replies clients and the tasks workers have received,
  and the workers that have announced themselves, in their order.
\<close>

record cluster_system =
  node :: cluster
  places :: "frame \<Rightarrow> place"
  replies :: "(frame \<times> frame list) list"
  tasks :: "(frame \<times> frame list) list"
  announced :: "frame list"

definition arrives :: "port \<Rightarrow> frame list \<Rightarrow> cluster_system \<Rightarrow> cluster_system" where
  "arrives p fs s = s\<lparr>node := (node s)\<lparr>sockets := arrive p fs (sockets (node s))\<rparr>\<rparr>"

definition taken :: "frame \<Rightarrow> (frame \<times> frame list) list \<Rightarrow> nat" where
  "taken i rs = length (filter (\<lambda>r. fst r = i) rs)"

inductive cluster_step :: "frame list \<Rightarrow> frame list \<Rightarrow> cluster_system \<Rightarrow> cluster_system \<Rightarrow> bool"
  for cs :: "frame list" and ws :: "frame list" where
  draw: "c \<in> set cs \<Longrightarrow> places s c = Resting \<Longrightarrow> r < 2 ^ 31 \<Longrightarrow>
    cluster_step cs ws s (s\<lparr>places := (places s)(c := client_draws r)\<rparr>)"
| pause: "c \<in> set cs \<Longrightarrow> client_bursts (places s c) = Some (p, None) \<Longrightarrow>
    cluster_step cs ws s (s\<lparr>places := (places s)(c := p)\<rparr>)"
| request: "c \<in> set cs \<Longrightarrow> client_bursts (places s c) = Some (p, Some q) \<Longrightarrow>
    cluster_step cs ws s (arrives Localfe [c, [], q] (s\<lparr>places := (places s)(c := p)\<rparr>))"
| reply: "c \<in> set cs \<Longrightarrow> taken c (replies s) < length (delivered Localfe c (sockets (node s))) \<Longrightarrow>
    req_takes (delivered Localfe c (sockets (node s)) ! taken c (replies s)) = Some m \<Longrightarrow>
    client_reports (places s c) (Some (hd m)) = Some (p, status) \<Longrightarrow>
    cluster_step cs ws s (arrives Monitor [status] (s\<lparr>places := (places s)(c := p), replies := replies s @ [(c, m)]\<rparr>))"
| announce: "w \<in> set ws \<Longrightarrow> w \<notin> set (announced s) \<Longrightarrow>
    cluster_step cs ws s (arrives Localbe (w # [] # worker_announces) (s\<lparr>announced := announced s @ [w]\<rparr>))"
| task: "w \<in> set (announced s) \<Longrightarrow> taken w (tasks s) < length (delivered Localbe w (sockets (node s))) \<Longrightarrow>
    req_takes (delivered Localbe w (sockets (node s)) ! taken w (tasks s)) = Some m \<Longrightarrow>
    cluster_step cs ws s (s\<lparr>tasks := tasks s @ [(w, m)]\<rparr>)"
| peer: "p \<in> {Cloudfe, Cloudbe, Statefe} \<Longrightarrow> fs \<noteq> [] \<Longrightarrow> cluster_step cs ws s (arrives p fs s)"
| pass: "cluster_wakes (node s) \<Longrightarrow> cluster_pass (node s) = Some b \<Longrightarrow> cluster_step cs ws s (s\<lparr>node := b\<rparr>)"

definition cluster_begin :: cluster_system where
  "cluster_begin = \<lparr>node = \<lparr>sockets = \<lparr>inbox = \<lambda>_. [], outbox = []\<rparr>, worker_queue = [], hex_out = False\<rparr>,
     places = \<lambda>_. Resting, replies = [], tasks = [], announced = []\<rparr>"

section \<open>The invariant\<close>

definition requests :: "frame list \<Rightarrow> (frame \<times> bool) list" where
  "requests cs = concat (map (\<lambda>c. parts [c, [], ''WORK'']) cs)"

text \<open>The broker has read the announcements in pairs and kept the second of each; clients wait for good.\<close>

definition cluster_inv :: "frame list \<Rightarrow> cluster_system \<Rightarrow> bool" where
  "cluster_inv ws s \<longleftrightarrow>
     replies s = [] \<and> tasks s = [] \<and> inbox (sockets (node s)) Monitor = [] \<and>
     set (outbox (sockets (node s))) \<subseteq> {(Cloudbe, ''CLOUD'', False)} \<and>
     distinct (announced s) \<and> set (announced s) \<subseteq> set ws \<and>
     2 * length (worker_queue (node s)) \<le> length (announced s) \<and>
     worker_queue (node s) = every_second (take (2 * length (worker_queue (node s))) (announced s)) \<and>
     inbox (sockets (node s)) Localbe = announces (drop (2 * length (worker_queue (node s))) (announced s)) \<and>
     (\<exists>asks. inbox (sockets (node s)) Localfe = requests asks \<and> distinct asks \<and>
        (\<forall>c. c \<in> set asks \<longleftrightarrow> (\<exists>n. places s c = Waiting n)))"

lemma cluster_begin_inv: "cluster_inv ws cluster_begin"
  by (simp add: cluster_inv_def cluster_begin_def announces_def requests_def)

lemma delivered_nothing: "\<forall>x \<in> set (outbox w). fst x \<noteq> p \<Longrightarrow> delivered p i w = []"
proof -
  assume "\<forall>x \<in> set (outbox w). fst x \<noteq> p"
  then have "filter (\<lambda>x. fst x = p) (outbox w) = []" by (simp add: filter_empty_conv)
  then show ?thesis by (simp add: delivered_def)
qed

lemma dump_port_keeps:
  "dump_port p b = Some b' \<Longrightarrow> worker_queue b' = worker_queue b \<and> outbox (sockets b') = outbox (sockets b) \<and>
   (\<forall>q. q \<noteq> p \<longrightarrow> inbox (sockets b') q = inbox (sockets b) q)"
  by (auto simp: dump_port_def canna_dump_def split: option.splits bind_splits)

lemma every_second_two: "even (length xs) \<Longrightarrow> every_second (xs @ [v, w]) = every_second xs @ [w]"
  by (induction xs rule: every_second.induct) auto

lemma drop_two:
  assumes "drop k xs = v # w # r"
  shows "k + 2 \<le> length xs" and "take (Suc (Suc k)) xs = take k xs @ [v, w]" and "drop (Suc (Suc k)) xs = r"
proof -
  from assms have "length xs - k = Suc (Suc (length r))" using length_drop [of k xs] by simp
  then show l: "k + 2 \<le> length xs" by simp
  have "xs = take k xs @ v # w # r" using append_take_drop_id [of k xs] assms by simp
  then obtain ys where "xs = ys @ v # w # r" "length ys = k" using l by (metis length_take min.absorb2 add_leD1)
  then show "take (Suc (Suc k)) xs = take k xs @ [v, w]" "drop (Suc (Suc k)) xs = r" by auto
qed

lemma pass_keeps:
  assumes "cluster_pass b = Some b'" and "inbox (sockets b) Monitor = []" and "inbox (sockets b) Localbe = announces us"
  shows "inbox (sockets b') Monitor = [] \<and> inbox (sockets b') Localfe = inbox (sockets b) Localfe \<and>
    outbox (sockets b') = outbox (sockets b) @ [(Cloudbe, ''CLOUD'', False)] \<and>
    (us = [] \<and> inbox (sockets b') Localbe = announces [] \<and> worker_queue b' = worker_queue b \<or>
     (\<exists>v w r. us = v # w # r \<and> inbox (sockets b') Localbe = announces r \<and> worker_queue b' = worker_queue b @ [w]))"
proof (cases us rule: every_second.cases)
  case 1
  then have "\<not> readable Localbe (sockets b)" "\<not> readable Monitor (sockets b)"
    using assms by (simp_all add: announces_def readable_def)
  with assms(1) obtain b1 where b1: "b1 = b \<or> dump_port Cloudbe b = Some b1"
    "b' = b1\<lparr>sockets := canna_send Cloudbe ''CLOUD'' (sockets b1)\<rparr>"
    by (cases "readable Cloudbe (sockets b)") (auto simp: cluster_pass_def split: bind_splits)
  from b1(1) dump_port_keeps [of Cloudbe b b1] have "worker_queue b1 = worker_queue b"
    "outbox (sockets b1) = outbox (sockets b)" "q \<noteq> Cloudbe \<Longrightarrow> inbox (sockets b1) q = inbox (sockets b) q" for q
    by auto
  then show ?thesis using assms(2,3) 1 by (simp add: b1(2))
next
  case (2 v)
  then show ?thesis using pass_one [of b v] assms(1,3) by simp
next
  case (3 v w r)
  with assms(3) have "inbox (sockets b) Localbe = announces (v # w # r)" by simp
  from pass_two [OF this] assms(1,2) show ?thesis by (auto simp: 3)
qed

lemma cluster_inv_step:
  assumes "cluster_step cs ws s t" and inv: "cluster_inv ws s"
  shows "cluster_inv ws t"
proof -
  obtain asks where asks: "inbox (sockets (node s)) Localfe = requests asks" "distinct asks"
      "\<And>c. c \<in> set asks \<longleftrightarrow> (\<exists>n. places s c = Waiting n)"
    using inv by (auto simp: cluster_inv_def)
  have silent: "delivered Localfe i (sockets (node s)) = []" "delivered Localbe i (sockets (node s)) = []" for i
    using inv by (auto simp: cluster_inv_def intro!: delivered_nothing)
  have same: "cluster_inv ws (s\<lparr>places := (places s)(c := p)\<rparr>)"
    if "\<forall>n. places s c \<noteq> Waiting n" "\<forall>n. p \<noteq> Waiting n" for c p
    using inv asks that by (auto simp: cluster_inv_def intro!: exI [of _ asks])
  from assms(1) show ?thesis
  proof cases
    case (draw c r)
    then show ?thesis using same by (simp add: client_draws_def)
  next
    case (pause c p)
    then show ?thesis using same by (cases "places s c" rule: client_bursts.cases) auto
  next
    case (request c p q)
    then obtain n where n: "places s c = Bursting (Suc n)" "p = Waiting n" "q = ''WORK''"
      by (cases "places s c" rule: client_bursts.cases) auto
    then have "c \<notin> set asks" using asks(3) by auto
    then show ?thesis
      using inv asks n unfolding request(1) cluster_inv_def
      by (auto simp: arrives_def requests_def intro!: exI [of _ "asks @ [c]"])
  next
    case (reply c m p status)
    then show ?thesis by (simp add: silent)
  next
    case (announce w)
    then show ?thesis
      using inv unfolding announce(1) cluster_inv_def
      by (auto simp: arrives_def announces_def worker_announces_def)
  next
    case (task w m)
    then show ?thesis by (simp add: silent)
  next
    case (peer p fs)
    then show ?thesis using inv unfolding peer(1) cluster_inv_def by (auto simp: arrives_def)
  next
    case (pass b)
    let ?k = "length (worker_queue (node s))"
    have mon: "inbox (sockets (node s)) Monitor = []"
      and be: "inbox (sockets (node s)) Localbe = announces (drop (2 * ?k) (announced s))"
      and q: "worker_queue (node s) = every_second (take (2 * ?k) (announced s))"
      using inv unfolding cluster_inv_def by blast+
    from pass_keeps [OF pass(3) mon be] have b: "inbox (sockets b) Monitor = []"
        "inbox (sockets b) Localfe = inbox (sockets (node s)) Localfe"
        "outbox (sockets b) = outbox (sockets (node s)) @ [(Cloudbe, ''CLOUD'', False)]" by blast+
    have "2 * length (worker_queue b) \<le> length (announced s) \<and>
        worker_queue b = every_second (take (2 * length (worker_queue b)) (announced s)) \<and>
        inbox (sockets b) Localbe = announces (drop (2 * length (worker_queue b)) (announced s))"
      using pass_keeps [OF pass(3) mon be] inv q
    proof (elim conjE disjE exE)
      fix v w r
      assume "drop (2 * ?k) (announced s) = v # w # r" and l: "inbox (sockets b) Localbe = announces r"
        and w: "worker_queue b = worker_queue (node s) @ [w]"
      note d = drop_two [OF this(1)]
      have "every_second (take (2 * ?k) (announced s) @ [v, w]) = worker_queue (node s) @ [w]"
        using q d(1) by (simp add: every_second_two)
      then show ?thesis using d l by (simp add: w)
    qed (auto simp: cluster_inv_def)
    then show ?thesis using inv unfolding pass(1) cluster_inv_def by (auto simp: b)
  qed
qed

section \<open>Nobody is served\<close>

definition questions :: "frame \<Rightarrow> cluster_system \<Rightarrow> nat" where
  "questions c s = length (filter (\<lambda>m. hd m = c) (whole (inbox (sockets (node s)) Localfe)))"

lemma every_second_length: "length (every_second xs) = length xs div 2"
  by (induction xs rule: every_second.induct) auto

text \<open>
  C24: nobody is served. Whatever the clients, workers and peers of a cluster broker do and in whatever order
  it makes its passes, no client ever receives a reply and no worker a task: every client asks at most
  one question, which lies unread, and then waits for good. The broker queues every second worker that
  announces itself; and when all but the last of an odd number have been read it cannot
  complete another pass.
\<close>

theorem cluster_serves_nobody:
  assumes "(cluster_step cs ws)\<^sup>*\<^sup>* cluster_begin s"
  shows "replies s = [] \<and> tasks s = [] \<and>
    questions c s = (if \<exists>n. places s c = Waiting n then 1 else 0) \<and>
    set (outbox (sockets (node s))) \<subseteq> {(Cloudbe, ''CLOUD'', False)} \<and>
    worker_queue (node s) = every_second (take (2 * length (worker_queue (node s))) (announced s)) \<and>
    2 * length (worker_queue (node s)) \<le> card (set ws) \<and>
    (length (announced s) = Suc (2 * length (worker_queue (node s))) \<longrightarrow> cluster_pass (node s) = None)"
proof -
  from assms have inv: "cluster_inv ws s"
    by (induction rule: rtranclp_induct) (auto intro: cluster_begin_inv cluster_inv_step)
  then obtain asks where asks: "inbox (sockets (node s)) Localfe = requests asks" "distinct asks"
      "\<And>c. c \<in> set asks \<longleftrightarrow> (\<exists>n. places s c = Waiting n)"
    by (auto simp: cluster_inv_def)
  have "filter (\<lambda>m. hd m = c) (map (\<lambda>c. [c, [], ''WORK'']) xs) = (if c \<in> set xs then [[c, [], ''WORK'']] else [])"
    if "distinct xs" for xs
    using that by (induction xs) auto
  moreover have "whole (requests xs) = map (\<lambda>c. [c, [], ''WORK'']) xs" for xs
  proof -
    have "requests xs = concat (map parts (map (\<lambda>c. [c, [], ''WORK'']) xs))" by (simp add: requests_def o_def)
    then show ?thesis by (simp only: whole_concat) (rule whole_concat, simp)
  qed
  ultimately have "questions c s = (if \<exists>n. places s c = Waiting n then 1 else 0)"
    using asks(2) by (simp add: questions_def asks(1,3) flip: asks(3))
  moreover have "length (announced s) \<le> card (set ws)"
    using inv distinct_card [of "announced s"] card_mono [of "set ws" "set (announced s)"]
    by (simp add: cluster_inv_def)
  moreover have "cluster_pass (node s) = None" if "length (announced s) = Suc (2 * length (worker_queue (node s)))"
  proof -
    have "length (drop (2 * length (worker_queue (node s))) (announced s)) = 1" using that by simp
    then obtain v where "drop (2 * length (worker_queue (node s))) (announced s) = [v]"
      by (metis length_0_conv length_Suc_conv One_nat_def)
    then have "inbox (sockets (node s)) Localbe = announces [v]" using inv by (simp add: cluster_inv_def)
    then show ?thesis by (rule pass_one)
  qed
  ultimately show ?thesis using inv unfolding cluster_inv_def by auto
qed

text \<open>A client and three workers, of which one is queued.\<close>

definition client_asks :: cluster_system where
  "client_asks = arrives Localfe [''c'', [], ''WORK''] (cluster_begin\<lparr>places := (\<lambda>_. Resting)(''c'' := Waiting 6)\<rparr>)"

definition workers_announce :: cluster_system where
  "workers_announce = foldl (\<lambda>s w. arrives Localbe [w, [], ''READY''] (s\<lparr>announced := announced s @ [w]\<rparr>))
     client_asks [''1'', ''2'', ''3'']"

definition one_queued :: cluster_system where
  "one_queued = workers_announce\<lparr>node := the (cluster_pass (node workers_announce))\<rparr>"

lemma cluster_example: "(cluster_step [''c''] [''1'', ''2'', ''3''])\<^sup>*\<^sup>* cluster_begin one_queued"
proof -
  let ?R = "cluster_step [''c''] [''1'', ''2'', ''3'']"
  let ?d = "cluster_begin\<lparr>places := (places cluster_begin)(''c'' := client_draws (2 ^ 30))\<rparr>"
  have "single (2 ^ 30) = 2 ^ 30" "single (15 * 2 ^ 30) = 15 * 2 ^ 30" "single 15 = 15"
    using single_push [of 30 1] single_push [of 30 15] by (simp_all add: single_exact mult.commute)
  then have "client_draws (2 ^ 30) = Bursting (Suc 6)" by (simp add: client_draws_def CANNA_RAND_def)
  then have b: "client_bursts (places ?d ''c'') = Some (Waiting 6, Some ''WORK'')" using client_bursts.simps(2) [of 6] by simp
  have 1: "?R\<^sup>*\<^sup>* cluster_begin ?d"
    by (intro r_into_rtranclp cluster_step.draw) (simp_all add: cluster_begin_def)
  have 2: "?R\<^sup>*\<^sup>* ?d client_asks"
    using r_into_rtranclp [of ?R, OF cluster_step.request [OF _ b, of "[''c'']"]] by (simp add: client_asks_def cluster_begin_def)
  have 3: "?R\<^sup>*\<^sup>* client_asks workers_announce"
  proof -
    have a: "?R s (arrives Localbe [w, [], ''READY''] (s\<lparr>announced := announced s @ [w]\<rparr>))"
      if "w \<in> {''1'', ''2'', ''3''}" "w \<notin> set (announced s)" for s w
      using cluster_step.announce [of w "[''1'', ''2'', ''3'']" s] that by (simp add: worker_announces_def)
    have r: "?R\<^sup>*\<^sup>* s (foldl (\<lambda>s w. arrives Localbe [w, [], ''READY''] (s\<lparr>announced := announced s @ [w]\<rparr>)) s us)"
      if "set us \<subseteq> {''1'', ''2'', ''3''}" "distinct (announced s @ us)" for s us
      using that
    proof (induction us arbitrary: s)
      case (Cons u us)
      then have "?R s (arrives Localbe [u, [], ''READY''] (s\<lparr>announced := announced s @ [u]\<rparr>))"
        by (intro a) auto
      moreover have "distinct (announced (arrives Localbe [u, [], ''READY''] (s\<lparr>announced := announced s @ [u]\<rparr>)) @ us)"
        using Cons.prems(2) by (auto simp: arrives_def)
      ultimately show ?case using Cons.IH Cons.prems(1) by (simp add: converse_rtranclp_into_rtranclp)
    qed simp
    have "distinct (announced client_asks @ [''1'', ''2'', ''3''])" by code_simp
    then show ?thesis unfolding workers_announce_def by (intro r) simp_all
  qed
  have 4: "?R\<^sup>*\<^sup>* workers_announce one_queued"
  proof -
    have "cluster_pass (node workers_announce) \<noteq> None" "cluster_wakes (node workers_announce)" by code_simp+
    then show ?thesis unfolding one_queued_def by (intro r_into_rtranclp cluster_step.pass) auto
  qed
  show ?thesis by (rule rtranclp_trans [OF rtranclp_trans [OF rtranclp_trans [OF 1 2] 3] 4])
qed

theorem cluster_serves_nobody_witness:
  "worker_queue (node one_queued) = [''2''] \<and> cluster_pass (node one_queued) = None \<and>
   questions ''c'' one_queued = 1 \<and> replies one_queued = []"
proof -
  have "worker_queue (node one_queued) = [''2'']" "announced one_queued = [''1'', ''2'', ''3'']" "places one_queued ''c'' = Waiting 6"
    by code_simp+
  then show ?thesis using cluster_serves_nobody [OF cluster_example, of "''c''"] by simp
qed

end
