(* ===== verification/Name_System.thy ===== *)
theory Name_System
  imports Name_Sockets Bounded_System
begin

text \<open>
  The name server with any number of routers (\<^verbatim>\<open>routers/main.cpp\<close>) that look up their names at the same
  time. ZeroMQ queues the requests at the server's reply socket and gives each reply to the router
  whose request it answers.
\<close>

section \<open>A router\<close>

datatype router_port = Requester

definition router_sock_recv :: "'p \<Rightarrow> 'p wire \<Rightarrow> (frame \<times> 'p wire) option" where
  "router_sock_recv p w =
     (case inbox w p of [] \<Rightarrow> None | (data, mr) # rest \<Rightarrow> Some (data, w\<lparr>inbox := (inbox w)(p := rest)\<rparr>))"

definition router_sock_send :: "'p \<Rightarrow> frame \<Rightarrow> 'p wire \<Rightarrow> 'p wire" where
  "router_sock_send p data w = w\<lparr>outbox := outbox w @ [(p, data, False)]\<rparr>"

definition router_sock_sendmore :: "'p \<Rightarrow> frame \<Rightarrow> 'p wire \<Rightarrow> 'p wire" where
  "router_sock_sendmore p data w = w\<lparr>outbox := outbox w @ [(p, data, True)]\<rparr>"

lemma router_copies:
  "router_sock_recv p w = canna_recv p w" "router_sock_send p f w = canna_send p f w"
  "router_sock_sendmore p f w = canna_sendmore p f w"
  by (simp_all add: router_sock_recv_def canna_recv_def router_sock_send_def canna_send_def router_sock_sendmore_def
      canna_sendmore_def)

text \<open>The lookup up to its receive, and from there on; main prints the names.\<close>

definition lookup_sends :: "router_port wire \<Rightarrow> router_port wire" where
  "lookup_sends w = router_sock_send Requester router_request w"

definition lookup_receives ::
  "(string \<Rightarrow> string list) \<Rightarrow> router_port wire \<Rightarrow> (string list \<times> router_port wire) option" where
  "lookup_receives parse w = do {
     (res, w) \<leftarrow> router_sock_recv Requester w;
     Some (router_name parse res, w) }"

definition router_prints :: "string list \<Rightarrow> string list" where
  "router_prints namelist = map (\<lambda>name. name @ [CHR 0x0A]) namelist"

section \<open>The system\<close>

text \<open>
  The server's map and sockets, the routers' sockets, the routers in the order their requests
  arrived, and what each has printed.
\<close>

record name_system =
  server :: "serial_map \<times> name_port wire"
  routers :: "nat \<Rightarrow> router_port wire"
  asked :: "nat list"
  printed :: "nat \<Rightarrow> string list option"

definition server_replies :: "name_system \<Rightarrow> frame list" where
  "server_replies s = map (fst \<circ> snd) (filter (\<lambda>x. fst x = Responder) (outbox (snd (server s))))"

inductive name_step ::
  "(string list \<Rightarrow> string) \<Rightarrow> (string \<Rightarrow> string list) \<Rightarrow> nat \<Rightarrow> name_system \<Rightarrow> name_system \<Rightarrow> bool"
  for ser parse n where
  lookup: "r < n \<Longrightarrow> r \<notin> set (asked s) \<Longrightarrow> lookup_sends (routers s r) = w \<Longrightarrow>
    name_step ser parse n s (s\<lparr>routers := (routers s)(r := w), asked := asked s @ [r],
      server := (fst (server s), arrive Responder (map (fst \<circ> snd) (drop (length (outbox (routers s r))) (outbox w))) (snd (server s)))\<rparr>)"
| serve: "readable Responder (snd (server s)) \<Longrightarrow> name_pass ser (server s) = Some srv \<Longrightarrow>
    name_step ser parse n s (s\<lparr>server := srv\<rparr>)"
| answer: "i < length (asked s) \<Longrightarrow> i < length (server_replies s) \<Longrightarrow> printed s (asked s ! i) = None \<Longrightarrow>
    lookup_receives parse (arrive Requester [server_replies s ! i] (routers s (asked s ! i))) = Some (ns, w) \<Longrightarrow>
    name_step ser parse n s (s\<lparr>routers := (routers s)(asked s ! i := w),
      printed := (printed s)(asked s ! i := Some (router_prints ns))\<rparr>)"

definition name_begin :: name_system where
  "name_begin = \<lparr>server = (\<lambda>_. None, \<lparr>inbox = \<lambda>_. [], outbox = []\<rparr>), routers = \<lambda>_. \<lparr>inbox = \<lambda>_. [], outbox = []\<rparr>,
     asked = [], printed = \<lambda>_. None\<rparr>"

section \<open>The invariant\<close>

text \<open>The names known after the request with index \<open>i\<close>, and the new one.\<close>

definition cluster_name :: "nat \<Rightarrow> string" where
  "cluster_name i = ''cluster'' @ serial_suffix i"

definition known_names :: "nat \<Rightarrow> string list" where
  "known_names i = map cluster_name [0..<min (Suc i) 256]"

definition counted :: "nat \<Rightarrow> string \<Rightarrow> nat" where
  "counted k = (\<lambda>_. 0)(''cluster'' := min k 256)"

lemma serve_cluster:
  assumes "name_rep m (counted k)"
  shows "\<exists>m'. serve_request ser m ''cluster'' = Some (m', ser (known_names k), if k < 256 then cluster_name k else []) \<and>
    name_rep m' (counted (Suc k))"
proof -
  have "spec_allot (counted k) ''cluster'' = (counted (Suc k), if k < 256 then cluster_name k else [])"
    by (simp add: spec_allot_def counted_def cluster_name_def min_def)
  moreover have "spec_names (counted (Suc k)) ''cluster'' = known_names k"
    by (simp add: spec_names_def counted_def known_names_def cluster_name_def)
  ultimately show ?thesis using serve_request_step [OF assms, of ser "''cluster''"] by simp
qed

definition name_out :: "(string list \<Rightarrow> string) \<Rightarrow> nat \<Rightarrow> string \<times> string" where
  "name_out ser i = (ser (known_names i), if i < 256 then cluster_name i else [])"

definition name_inv :: "(string list \<Rightarrow> string) \<Rightarrow> nat \<Rightarrow> name_system \<Rightarrow> nat \<Rightarrow> bool" where
  "name_inv ser n s k \<longleftrightarrow>
     k \<le> length (asked s) \<and> distinct (asked s) \<and> set (asked s) \<subseteq> {..<n} \<and>
     inbox (snd (server s)) Responder = replicate (length (asked s) - k) (router_request, False) \<and>
     name_rep (fst (server s)) (counted k) \<and>
     outbox (snd (server s)) = frames_out (map (name_out ser) [0..<k]) \<and>
     (\<forall>r. inbox (routers s r) Requester = []) \<and>
     (\<forall>r out. printed s r = Some out \<longrightarrow> (\<exists>i<k. asked s ! i = r \<and> out = router_prints (known_names i)))"

definition name_effort :: "nat \<Rightarrow> name_system \<Rightarrow> nat \<Rightarrow> nat" where
  "name_effort n s k = 3 * (n - length (asked s)) + 2 * (length (asked s) - k) + (k - card (dom (printed s)))"

lemma server_replies_out:
  assumes "outbox (snd (server s)) = frames_out (map (name_out ser) [0..<k])"
  shows "server_replies s = map (ser \<circ> known_names) [0..<k]"
proof -
  have "map (fst \<circ> snd) (filter (\<lambda>x. fst x = Responder) (frames_out out)) = map fst out" for out
    by (induction out) (simp_all add: frames_out_def case_prod_beta)
  then show ?thesis using assms by (simp add: server_replies_def name_out_def)
qed

text \<open>At most as many routers have printed as requests were served.\<close>

lemma printed_le:
  assumes "name_inv ser n s k"
  shows "card (dom (printed s)) \<le> k" and "finite (dom (printed s))"
    and "i < k \<Longrightarrow> printed s (asked s ! i) = None \<Longrightarrow> card (dom (printed s)) < k"
proof -
  have sub: "dom (printed s) \<subseteq> (!) (asked s) ` {..<k}" using assms by (force simp: name_inv_def)
  then show fin: "finite (dom (printed s))" using finite_surj by blast
  have c: "card ((!) (asked s) ` {..<k}) = k"
    using assms by (auto simp: name_inv_def inj_on_def nth_eq_iff_index_eq intro!: card_image [THEN trans])
  show "card (dom (printed s)) \<le> k" using card_mono [OF _ sub] c by simp
  show "card (dom (printed s)) < k" if "i < k" "printed s (asked s ! i) = None"
  proof -
    have "asked s ! i \<notin> dom (printed s)" "asked s ! i \<in> (!) (asked s) ` {..<k}" using that by auto
    then have "dom (printed s) \<subset> (!) (asked s) ` {..<k}" using sub by blast
    from psubset_card_mono [OF _ this] c show ?thesis by simp
  qed
qed

lemma name_begin_inv: "name_inv ser n name_begin 0"
  using name_rep_empty by (simp add: name_inv_def name_begin_def counted_def frames_out_def fun_upd_def)

lemma name_inv_step:
  assumes "name_step ser parse n s t" and inv: "name_inv ser n s k" and codec: "\<forall>ns. parse (ser ns) = ns"
  shows "\<exists>k'. name_inv ser n t k' \<and> name_effort n t k' + 1 \<le> name_effort n s k"
  using assms(1)
proof cases
  case (lookup r w)
  have "length (asked s) < n"
  proof -
    have "card (set (r # asked s)) \<le> card {..<n}"
      using lookup inv by (intro card_mono) (auto simp: name_inv_def)
    then show ?thesis using lookup inv by (simp add: name_inv_def distinct_card)
  qed
  moreover have "\<exists>i<k. (asked s @ [r]) ! i = q \<and> out = router_prints (known_names i)" if "printed s q = Some out" for q out
    using that inv unfolding name_inv_def by (metis nth_append order_less_le_trans)
  moreover have "w = canna_send Requester router_request (routers s r)"
    using lookup by (simp add: lookup_sends_def router_copies)
  ultimately have "name_inv ser n t k" "name_effort n t k + 1 \<le> name_effort n s k"
    using inv lookup unfolding lookup(1) name_inv_def name_effort_def
    by (auto simp: Suc_diff_le replicate_append_same [symmetric])
  then show ?thesis by blast
next
  case (serve srv)
  from inv serve have "length (asked s) - k \<noteq> 0" by (auto simp: name_inv_def readable_def)
  then obtain d where d: "length (asked s) - k = Suc d" by (cases "length (asked s) - k") auto
  with inv have i: "inbox (snd (server s)) Responder = (''cluster'', False) # replicate d (router_request, False)"
    by (simp add: name_inv_def router_request_def)
  have "name_rep (fst (server s)) (counted k)" using inv by (simp add: name_inv_def)
  from serve_cluster [OF this] obtain m' where m': "serve_request ser (fst (server s)) ''cluster''
      = Some (m', fst (name_out ser k), snd (name_out ser k))" "name_rep m' (counted (Suc k))"
    by (auto simp: name_out_def)
  from pass_serves [OF i m'(1)] serve(3) obtain w' where w': "srv = (m', w')"
      "inbox w' Responder = replicate d (router_request, False)"
      "outbox w' = outbox (snd (server s)) @ frames_out [name_out ser k]" by auto
  have "\<exists>i<Suc k. asked s ! i = q \<and> out = router_prints (known_names i)" if "printed s q = Some out" for q out
    using that inv unfolding name_inv_def by (meson less_SucI)
  then have "name_inv ser n t (Suc k)" "name_effort n t (Suc k) + 1 \<le> name_effort n s k"
    using inv w' m'(2) d printed_le(1) [OF inv] unfolding serve(1) name_inv_def name_effort_def
    by (auto simp: frames_out_def)
  then show ?thesis by blast
next
  case (answer i ns w)
  from inv have out: "server_replies s = map (ser \<circ> known_names) [0..<k]"
    by (intro server_replies_out) (simp add: name_inv_def)
  with answer have i: "i < k" by simp
  let ?r = "asked s ! i"
  have "inbox (routers s ?r) Requester = []" using inv by (simp add: name_inv_def)
  then have w: "ns = known_names i" "inbox w Requester = []"
    using answer(5) i codec by (auto simp: lookup_receives_def router_copies canna_recv_def out)
  have "card (dom (printed t)) = Suc (card (dom (printed s)))"
    using printed_le(2) [OF inv] answer(4) unfolding answer(1) by (simp add: card_insert_if domIff)
  then have "name_inv ser n t k" "name_effort n t k + 1 \<le> name_effort n s k"
    using inv w i printed_le(3) [OF inv i answer(4)] unfolding answer(1) name_inv_def name_effort_def
    by auto
  then show ?thesis by blast
qed

interpretation lookups: bounded_system "name_step ser parse n" "\<lambda>s k. name_inv ser n s k \<and> (\<forall>ns. parse (ser ns) = ns)"
    "name_effort n" "\<lambda>_. 0"
  for ser parse n
  by unfold_locales (use name_inv_step in fastforce)

text \<open>Where no step is left every router has printed.\<close>

lemma lookups_stuck:
  assumes inv: "name_inv ser n s k" and codec: "\<forall>ns. parse (ser ns) = ns"
    and stuck: "\<nexists>t. name_step ser parse n s t" and "r < n"
  shows "printed s r \<noteq> None"
proof
  assume none: "printed s r = None"
  have "r \<in> set (asked s)" using stuck name_step.lookup [OF assms(4) _ refl] by blast
  then obtain i where i: "i < length (asked s)" "asked s ! i = r" by (auto simp: in_set_conv_nth)
  have "k = length (asked s)"
  proof (rule ccontr)
    assume "k \<noteq> length (asked s)"
    then obtain d where "length (asked s) - k = Suc d"
      using inv by (cases "length (asked s) - k") (auto simp: name_inv_def)
    with inv have m: "inbox (snd (server s)) Responder = (''cluster'', False) # replicate d (router_request, False)"
      by (simp add: name_inv_def router_request_def)
    have "name_rep (fst (server s)) (counted k)" using inv by (simp add: name_inv_def)
    from serve_cluster [OF this] pass_serves [OF m] obtain srv where srv: "name_pass ser (server s) = Some srv"
      by (metis surjective_pairing)
    have "readable Responder (snd (server s))" using m by (simp add: readable_def)
    from name_step.serve [OF this srv] stuck show False by blast
  qed
  moreover have "server_replies s = map (ser \<circ> known_names) [0..<k]"
    using inv by (intro server_replies_out) (simp add: name_inv_def)
  moreover have "lookup_receives parse (arrive Requester [f] (routers s r)) \<noteq> None" for f
    using inv by (simp add: lookup_receives_def router_copies canna_recv_def name_inv_def)
  then obtain ns w where "lookup_receives parse (arrive Requester [server_replies s ! i] (routers s r)) = Some (ns, w)"
    by fast
  ultimately show False using stuck name_step.answer [of i s parse ns w] i none by auto
qed

text \<open>
  C14: routers that look up their names at the same time. In whatever order the requests of \<open>n\<close> routers are
  sent, served and answered, at most \<open>3 * n\<close> steps are taken and where none is left every router
  has printed its list; the router whose request came \<open>i\<close>-th prints the first \<open>i + 1\<close> names, up to 256,
  so of two routers with different places the later one has seen all the names of the earlier, and its
  own new one at the end is no one else's.
\<close>

theorem routers_look_up:
  assumes "(name_step ser parse n ^^ m) name_begin s" and "\<forall>ns. parse (ser ns) = ns"
  shows "m \<le> 3 * n \<and> distinct (asked s) \<and>
    (printed s r = Some out \<longrightarrow> (\<exists>i<length (asked s). asked s ! i = r \<and>
       out = map (\<lambda>j. ''cluster'' @ serial_suffix j @ [CHR 0x0A]) [0..<min (i + 1) 256])) \<and>
    ((\<nexists>t. name_step ser parse n s t) \<longrightarrow> (\<forall>q<n. printed s q \<noteq> None))"
proof -
  from lookups.run_effort [OF assms(1), of 0] name_begin_inv [of ser n] assms(2) obtain k where
    k: "name_inv ser n s k" "m + name_effort n s k \<le> name_effort n name_begin 0" by auto
  have "name_effort n name_begin 0 = 3 * n" by (simp add: name_effort_def name_begin_def)
  moreover have "\<exists>i<length (asked s). asked s ! i = r \<and>
      out = map (\<lambda>j. ''cluster'' @ serial_suffix j @ [CHR 0x0A]) [0..<min (i + 1) 256]" if out: "printed s r = Some out"
  proof -
    obtain i where "i < k" "asked s ! i = r" "out = router_prints (known_names i)" "k \<le> length (asked s)"
      using out k(1) unfolding name_inv_def by blast
    then show ?thesis by (intro exI [of _ i]) (simp add: router_prints_def known_names_def cluster_name_def o_def)
  qed
  ultimately show ?thesis using k lookups_stuck [OF k(1) assms(2)] by (auto simp: name_inv_def)
qed

text \<open>One router, step by step.\<close>

definition one_asks :: name_system where
  "one_asks = name_begin\<lparr>routers := (routers name_begin)(0 := lookup_sends (routers name_begin 0)), asked := [0],
     server := (fst (server name_begin), arrive Responder [''cluster''] (snd (server name_begin)))\<rparr>"

definition one_served :: name_system where
  "one_served = one_asks\<lparr>server := the (name_pass mark_ser (server one_asks))\<rparr>"

definition one_prints :: name_system where
  "one_prints = one_served\<lparr>
     routers := (routers one_served)(0 := snd (the (lookup_receives (mark_parse [])
       (arrive Requester [server_replies one_served ! 0] (routers one_served 0))))),
     printed := (printed one_served)(0 := Some (router_prints [''cluster-0000'']))\<rparr>"

lemma one_lookup: "(name_step mark_ser (mark_parse []) 1 ^^ 3) name_begin one_prints"
proof -
  let ?R = "name_step mark_ser (mark_parse []) 1"
  have "?R name_begin one_asks"
    using name_step.lookup [of 0 1 name_begin "lookup_sends (routers name_begin 0)" mark_ser "mark_parse []"]
    by (simp add: one_asks_def name_begin_def lookup_sends_def router_copies router_request_def)
  moreover have "readable Responder (snd (server one_asks))" "\<not> Option.is_none (name_pass mark_ser (server one_asks))"
    by code_simp+
  then have "?R one_asks one_served"
    unfolding one_served_def by (intro name_step.serve) (auto simp: Option.is_none_def)
  moreover have "asked one_served = [0]" "length (server_replies one_served) = 1" "printed one_served 0 = None"
      "map_option fst (lookup_receives (mark_parse [])
        (arrive Requester [server_replies one_served ! 0] (routers one_served 0))) = Some [''cluster-0000'']"
    by code_simp+
  then have "?R one_served one_prints"
    using name_step.answer [of 0 one_served "mark_parse []" "[''cluster-0000'']" _ mark_ser 1]
    by (auto simp: one_prints_def)
  ultimately show ?thesis by (simp add: eval_nat_numeral OO_def) blast
qed

theorem routers_look_up_witness:
  "(name_step mark_ser (mark_parse []) 1 ^^ 3) name_begin one_prints \<and> distinct (asked one_prints) \<and>
   printed one_prints 0 = Some [''cluster-0000'' @ [CHR 0x0A]] \<and> 3 \<le> 3 * (1 :: nat)"
proof -
  have "printed one_prints 0 = Some [''cluster-0000'' @ [CHR 0x0A]]" by (simp add: one_prints_def router_prints_def)
  then show ?thesis using routers_look_up [OF one_lookup] one_lookup mark_codec by blast
qed

end
