(* ===== verification/Redis_Client.thy ===== *)
theory Redis_Client
  imports Main
begin

text \<open>
  The wrapper of a Redis connection, \<^verbatim>\<open>nameserver/redis_client.cpp\<close>. The Redis library is outside the
  repository: an attempt to connect gives no context, or a new one with its error code and text. A pointer
  that was never assigned is \<open>Uninitialised\<close>; giving it to the library is undefined and has no result.
\<close>

section \<open>The code\<close>

datatype pointer = Uninitialised | Null | Context nat

record redis_client =
  m_context :: pointer
  m_host :: string
  m_port :: int

text \<open>What the library has allocated, and the lines printed.\<close>

datatype line = Connect_failed string int | Allocate_failed | Connected string int

record hiredis =
  allocated :: nat
  live :: "nat list"
  messages :: "line list"

definition redis_client_new :: redis_client where
  "redis_client_new = \<lparr>m_context = Uninitialised, m_host = [], m_port = 0\<rparr>"

definition redis_initialize :: "string \<Rightarrow> int \<Rightarrow> redis_client \<Rightarrow> redis_client" where
  "redis_initialize host port r = r\<lparr>m_context := Null, m_host := host, m_port := port\<rparr>"

definition gethost :: "redis_client \<Rightarrow> string" where
  "gethost r = m_host r"

definition sethost :: "string \<Rightarrow> redis_client \<Rightarrow> redis_client" where
  "sethost host r = r\<lparr>m_host := host\<rparr>"

definition getport :: "redis_client \<Rightarrow> int" where
  "getport r = m_port r"

definition setport :: "int \<Rightarrow> redis_client \<Rightarrow> redis_client" where
  "setport port r = r\<lparr>m_port := port\<rparr>"

definition freecontext :: "pointer \<Rightarrow> hiredis \<Rightarrow> hiredis option" where
  "freecontext p h =
     (case p of
        Context i \<Rightarrow> if i \<in> set (live h) then Some (h\<lparr>live := remove1 i (live h)\<rparr>) else None
      | Null \<Rightarrow> Some h
      | Uninitialised \<Rightarrow> None)"

definition redis_client_delete :: "redis_client \<Rightarrow> hiredis \<Rightarrow> hiredis option" where
  "redis_client_delete r h = (if m_context r \<noteq> Null then freecontext (m_context r) h else Some h)"

text \<open>\<open>answer\<close> is what \<^verbatim>\<open>redisConnect\<close> gives: the error code and text of the context, or no context.\<close>

definition redis_connect ::
  "(int \<times> string) option \<Rightarrow> redis_client \<times> hiredis \<Rightarrow> int \<times> redis_client \<times> hiredis" where
  "redis_connect answer st =
     (let (r, h) = st in
      case answer of
        None \<Rightarrow>
          (- 1, r\<lparr>m_context := Null\<rparr>, h\<lparr>messages := messages h @ [Allocate_failed]\<rparr>)
      | Some (err, errstr) \<Rightarrow>
          let r = r\<lparr>m_context := Context (allocated h)\<rparr>;
              h = h\<lparr>live := live h @ [allocated h], allocated := allocated h + 1\<rparr>
          in if err \<noteq> 0
             then (- 1, r, h\<lparr>messages := messages h @ [Connect_failed errstr err]\<rparr>)
             else (0, r, h\<lparr>messages := messages h @ [Connected (m_host r) (m_port r)]\<rparr>))"

fun redis_connects ::
  "(int \<times> string) option list \<Rightarrow> redis_client \<times> hiredis \<Rightarrow> int list \<times> redis_client \<times> hiredis" where
  "redis_connects [] st = ([], st)"
| "redis_connects (a # as) st =
     (let (c, st) = redis_connect a st; (cs, st) = redis_connects as st in (c # cs, st))"

section \<open>Contexts\<close>

definition redis_begin :: "string \<Rightarrow> int \<Rightarrow> redis_client \<times> hiredis" where
  "redis_begin host port = (redis_initialize host port redis_client_new, \<lparr>allocated = 0, live = [], messages = []\<rparr>)"

definition allocates :: "(int \<times> string) option list \<Rightarrow> nat" where
  "allocates as = length (filter (\<lambda>a. a \<noteq> None) as)"

definition succeeds :: "(int \<times> string) option \<Rightarrow> bool" where
  "succeeds a \<longleftrightarrow> (case a of None \<Rightarrow> False | Some (err, errstr) \<Rightarrow> err = 0)"

lemma redis_connects_contexts:
  assumes "live (snd st) = [0..<allocated (snd st)]" and "redis_connects as st = (cs, r, h)"
  shows "cs = map (\<lambda>a. if succeeds a then 0 else - 1) as \<and> live h = [0..<allocated h] \<and>
    allocated h = allocated (snd st) + allocates as \<and>
    m_context r = (if as = [] then m_context (fst st) else if last as = None then Null else Context (allocated h - 1))"
  using assms
proof (induction as arbitrary: st cs)
  case (Cons a as)
  obtain c st1 where c: "redis_connect a st = (c, st1)" by (metis surj_pair)
  obtain cs1 where cs: "redis_connects as st1 = (cs1, r, h)" "cs = c # cs1"
    using Cons.prems(2) c by (auto simp: Let_def split: prod.splits)
  have one: "c = (if succeeds a then 0 else - 1)" "live (snd st1) = [0..<allocated (snd st1)]"
      "allocated (snd st1) = allocated (snd st) + allocates [a]"
      "m_context (fst st1) = (if a = None then Null else Context (allocated (snd st1) - 1))"
    using c Cons.prems(1) by (auto simp: redis_connect_def allocates_def succeeds_def Let_def split: prod.splits option.splits if_splits)
  show ?case using Cons.IH [OF one(2) cs(1)] one by (auto simp: allocates_def cs(2))
qed (auto simp: allocates_def)

text \<open>
  Connections of a client. A call of \<^verbatim>\<open>connect\<close> reports 0 exactly when the library gave a context without error;
  every call that got a context replaces the one before, so that after all of them the destructor frees
  the last only and all earlier ones stay allocated; and destroying a client that was
  never initialized frees a pointer without a value.
\<close>

theorem redis_contexts:
  assumes "redis_connects as (redis_begin host port) = (cs, r, h)"
  shows "cs = map (\<lambda>a. if succeeds a then 0 else - 1) as \<and>
    (\<exists>h'. redis_client_delete r h = Some h' \<and>
       length (live h') = allocates as - (if as \<noteq> [] \<and> last as \<noteq> None then 1 else 0)) \<and>
    redis_client_delete redis_client_new h = None"
proof -
  from redis_connects_contexts [OF _ assms] have a: "cs = map (\<lambda>a. if succeeds a then 0 else - 1) as"
      "live h = [0..<allocated h]" "allocated h = allocates as"
      "m_context r = (if as = [] \<or> last as = None then Null else Context (allocated h - 1))"
    by (auto simp: redis_begin_def redis_initialize_def)
  have "allocates as \<noteq> 0" if "as \<noteq> []" "last as \<noteq> None"
    using that by (cases as rule: rev_cases) (auto simp: allocates_def)
  then show ?thesis using a
    by (auto simp: redis_client_delete_def freecontext_def redis_client_new_def length_remove1)
qed

theorem redis_contexts_witness:
  "\<exists>cs r h h'. redis_connects [Some (0, []), Some (111, ''refused''), Some (0, [])] (redis_begin ''localhost'' 6379) = (cs, r, h) \<and>
     cs = [0, - 1, 0] \<and> redis_client_delete r h = Some h' \<and> length (live h') = 2"
proof -
  obtain cs r h where e: "redis_connects [Some (0, []), Some (111, ''refused''), Some (0, [])] (redis_begin ''localhost'' 6379)
      = (cs, r, h)" by (metis surjective_pairing)
  from redis_contexts [OF e] e show ?thesis by (auto simp: succeeds_def allocates_def simp del: redis_connects.simps)
qed

end
