(* ===== verification/DB_Main.thy ===== *)
theory DB_Main
  imports DB_Server Daemon Core_Random
begin

text \<open>
  The main program of \<^verbatim>\<open>dbserver/main.cpp\<close> up to its request loop, and with it. What the operating
  system, Redis, MongoDB and the clock answer are inputs; the result is what was printed, what is
  still held, and whether the process has ended or serves.
\<close>

section \<open>The code\<close>

text \<open>
  \<open>redis_context\<close> is the error code and text of the context, if there is one; \<open>ping\<close> the reply as JSON or
  the error message, \<open>insert_error\<close> the message of a failed insertion; \<open>time1\<close> and \<open>time2\<close> the two
  readings of the clock.
\<close>

record db_world =
  daemon :: daemon_os
  zmq_version :: "nat \<times> nat \<times> nat"
  time1 :: nat
  time2 :: nat
  redis_context :: "(int \<times> string) option"
  ping :: "string + string"
  insert_error :: "string option"

datatype db_line =
    Zmq_version "nat \<times> nat \<times> nat" nat nat
  | Redis_error string int
  | No_redis_context
  | Redis_ready
  | Ping_reply string
  | To_stderr string

datatype held =
    Pid_file | Redis_context | Mongo_client | Mongo_database | Mongo_collection
  | Ping_command | Ping_document | Ping_text | Insert_document | Zmq_socket

datatype outcome = Ended int | Serving

definition db_initialize :: "int \<Rightarrow> daemon_os \<Rightarrow> ending" where
  "db_initialize mode os =
     (case snd (daemon_init mode os) of
        Exit c \<Rightarrow> Exit c
      | Return result \<Rightarrow> if 0 \<noteq> result then Exit 0 else Return result)"

definition first_line :: "db_world \<Rightarrow> db_line" where
  "first_line w =
     (let random = SetSeed (of_nat (time1 w)) new_CaRandom;
          (r, random) = Random_range 1024 random
      in Zmq_version (zmq_version w) (time2 w) (unat r))"

text \<open>MongoDB: the ping, which has to succeed, and an insertion, which need not.\<close>

definition mongo_start :: "db_world \<Rightarrow> db_line list \<times> held list \<times> outcome" where
  "mongo_start w =
     (let held = [Mongo_client, Mongo_database, Mongo_collection, Ping_command] in
      case ping w of
        Inl error \<Rightarrow> ([To_stderr error], held @ [Ping_document], Ended 1)
      | Inr reply \<Rightarrow>
          let held = held @ [Ping_document, Ping_text, Insert_document];
              lines = Ping_reply reply # (case insert_error w of None \<Rightarrow> [] | Some error \<Rightarrow> [To_stderr error]);
              held = removeAll Insert_document held;
              held = removeAll Ping_document held;
              held = removeAll Ping_command held;
              held = removeAll Ping_text held
          in (lines, held @ [Zmq_socket], Serving))"

definition db_main :: "db_world \<Rightarrow> db_line list \<times> held list \<times> outcome" where
  "db_main w =
     (case db_initialize 1 (daemon w) of
        Exit c \<Rightarrow> ([], [], Ended c)
      | Return _ \<Rightarrow>
          let lines = [first_line w] in
          case redis_context w of
            None \<Rightarrow> (lines @ [No_redis_context], [Pid_file], Ended 1)
          | Some (err, errstr) \<Rightarrow>
              if err \<noteq> 0 then (lines @ [Redis_error errstr err], [Pid_file, Redis_context], Ended 1)
              else
                let (more_lines, held, result) = mongo_start w
                in (lines @ [Redis_ready] @ more_lines, [Pid_file, Redis_context] @ held, result))"

text \<open>The whole program on the requests that arrive, for a number of turns of its loop.\<close>

definition db_program :: "(frame \<Rightarrow> frame option) \<Rightarrow> db_world \<Rightarrow> frame list \<Rightarrow> nat \<Rightarrow> int + db option" where
  "db_program redis w requests n =
     (case db_main w of
        (_, _, Ended c) \<Rightarrow> Inl c
      | (_, _, Serving) \<Rightarrow> Inr (db_loop redis n (db_start requests)))"

section \<open>Who serves\<close>

definition daemon_ready :: "daemon_os \<Rightarrow> bool" where
  "daemon_ready os \<longleftrightarrow> fork1 os = 0 \<and> fork2 os \<noteq> 0 \<and> 0 \<le> open_fd os \<and> fdopen_ok os \<and> flock_result os \<noteq> - 1 \<and>
     fprintf_result os \<noteq> 0"

lemma db_initialize_iff: "db_initialize 1 os = (if daemon_ready os then Return 0 else Exit 0)"
  by (simp add: db_initialize_def daemon_init_def daemon_ready_def Let_def)

lemma db_main_ready:
  assumes "daemon_ready (daemon w)"
  shows "db_main w =
    (case redis_context w of
       None \<Rightarrow> ([first_line w, No_redis_context], [Pid_file], Ended 1)
     | Some (err, errstr) \<Rightarrow>
         if err \<noteq> 0 then ([first_line w, Redis_error errstr err], [Pid_file, Redis_context], Ended 1)
         else case ping w of
           Inl error \<Rightarrow> ([first_line w, Redis_ready, To_stderr error],
             [Pid_file, Redis_context, Mongo_client, Mongo_database, Mongo_collection, Ping_command, Ping_document], Ended 1)
         | Inr reply \<Rightarrow> ([first_line w, Redis_ready, Ping_reply reply] @
               (case insert_error w of None \<Rightarrow> [] | Some error \<Rightarrow> [To_stderr error]),
             [Pid_file, Redis_context, Mongo_client, Mongo_database, Mongo_collection, Zmq_socket], Serving))"
  using assms
  by (auto simp: db_main_def db_initialize_iff mongo_start_def Let_def split: option.splits sum.splits)


definition a_world :: db_world where
  "a_world = \<lparr>daemon = \<lparr>fork1 = 0, fork2 = 101, open_fd = 3, fdopen_ok = True, flock_result = 0, own_pid = 100, fprintf_result = 4\<rparr>,
     zmq_version = (4, 1, 2), time1 = 5, time2 = 6, redis_context = Some (0, []), ping = Inr ''ok'', insert_error = Some ''no''\<rparr>"


end
