(* ===== verification/Router_Routes.thy ===== *)
theory Router_Routes
  imports Router_Pair
begin

text \<open>
  The two programs of \<open>Router_Pair\<close> set up and connected: \<^verbatim>\<open>example/rrnode.cpp\<close> and \<^verbatim>\<open>example/rrclient.cpp\<close>
  running side by side, in any order of their passes. Of ZeroMQ the documented routing of ROUTER sockets is
  used: the first frame of a message sent is the identity of the peer it goes to, a message
  to an identity that is not connected is dropped, and the receiver finds the sender's identity in front.
\<close>

section \<open>The set-up\<close>

definition node_setup :: "node_port operation list" where
  "node_setup =
     [Identify Sink ''PURPLE'', Bind_at Sink ''ipc://purple.ipc'',
      Identify Front ''PURPLE1'', Connect_to Front ''ipc://apple.ipc'']"

definition peer_setup :: "peer_port operation list" where
  "peer_setup =
     [Identify Sock ''APPPLE'', Connect_to Sock ''ipc://purple.ipc'',
      Identify Back ''APPPLE1'', Bind_at Back ''ipc://apple.ipc'']"

section \<open>Routing\<close>

definition linked :: "'s operation list \<Rightarrow> 's \<Rightarrow> 't operation list \<Rightarrow> 't \<Rightarrow> bool" where
  "linked ops s ops' t \<longleftrightarrow>
     list_ex (\<lambda>x. case x of
        Bind_at s' addr \<Rightarrow> s' = s \<and> Connect_to t addr \<in> set ops'
      | Connect_to s' addr \<Rightarrow> s' = s \<and> Bind_at t addr \<in> set ops'
      | _ \<Rightarrow> False) ops"

text \<open>The identity a socket was given; one without gets a generated one, here the empty text.\<close>

fun identity_of :: "'s operation list \<Rightarrow> 's \<Rightarrow> string" where
  "identity_of (Identify t i # ops) s = (if t = s then i else identity_of ops s)"
| "identity_of (_ # ops) s = identity_of ops s"
| "identity_of [] s = []"

text \<open>The messages in frames sent, each with its socket.\<close>

fun posted :: "('s \<times> frame \<times> bool) list \<Rightarrow> ('s \<times> frame list) list" where
  "posted [] = []"
| "posted ((s, f, mr) # r) =
     (if mr then (case posted r of [] \<Rightarrow> [(s, [f])] | (_, m) # ms \<Rightarrow> (s, f # m) # ms) else (s, [f]) # posted r)"

definition routed :: "'s operation list \<Rightarrow> 't operation list \<Rightarrow> 't list \<Rightarrow> 's \<times> frame list \<Rightarrow> ('t \<times> frame list) list" where
  "routed ops ops' ports x =
     (case x of
        (s, i # body) \<Rightarrow> map (\<lambda>t. (t, identity_of ops s # body))
          (filter (\<lambda>t. linked ops s ops' t \<and> identity_of ops' t = i) ports)
      | _ \<Rightarrow> [])"

definition deliver ::
  "'s operation list \<Rightarrow> 't operation list \<Rightarrow> 't list \<Rightarrow> ('s \<times> frame \<times> bool) list \<Rightarrow> 't wire \<Rightarrow> 't wire" where
  "deliver ops ops' ports sent w =
     foldl (\<lambda>w (t, m). arrive t m w) w (concat (map (routed ops ops' ports) (posted sent)))"

section \<open>Side by side\<close>

datatype turn = Node_turn | Peer_turn

text \<open>A pass of one program, whose messages reach the other.\<close>

definition pair_turn :: "turn \<Rightarrow> node \<times> peer \<Rightarrow> (node \<times> peer) option" where
  "pair_turn t st =
     (case st of (b, c) \<Rightarrow>
        (case t of
           Node_turn \<Rightarrow> do {
             b' \<leftarrow> node_pass b;
             let sent = drop (length (outbox (node_sockets b))) (outbox (node_sockets b'));
             Some (b', c\<lparr>peer_sockets := deliver node_setup peer_setup [Sock, Back] sent (peer_sockets c)\<rparr>) }
         | Peer_turn \<Rightarrow> do {
             c' \<leftarrow> peer_pass c;
             let sent = drop (length (outbox (peer_sockets c))) (outbox (peer_sockets c'));
             Some (b\<lparr>node_sockets := deliver peer_setup node_setup [Sink, Front] sent (node_sockets b)\<rparr>, c') }))"

fun pair_run :: "turn list \<Rightarrow> node \<times> peer \<Rightarrow> (node \<times> peer) option" where
  "pair_run [] st = Some st"
| "pair_run (t # ts) st = Option.bind (pair_turn t st) (pair_run ts)"

definition pair_begin :: "node \<times> peer" where
  "pair_begin =
     (\<lparr>node_sockets = \<lparr>inbox = \<lambda>_. [], outbox = []\<rparr>, node_shown = []\<rparr>,
      \<lparr>peer_sockets = \<lparr>inbox = \<lambda>_. [], outbox = []\<rparr>, peer_shown = []\<rparr>)"

section \<open>What arrives\<close>

lemma deliver_node:
  "deliver node_setup peer_setup [Sock, Back] (node_sends got) w =
     arrive Back [''PURPLE1'', ''hello world''] (if got then arrive Sock [''PURPLE'', ''ACK''] w else w)"
  by (simp add: deliver_def node_sends_def routed_def linked_def node_setup_def peer_setup_def)

lemma deliver_peer:
  "deliver peer_setup node_setup [Sink, Front] (post Sock [''PURPLE'', ''Hello World!!!'']) w =
     arrive Sink [''APPPLE'', ''Hello World!!!''] w"
  by (simp add: deliver_def routed_def linked_def node_setup_def peer_setup_def)

definition questions :: "nat \<Rightarrow> (frame \<times> frame) list" where
  "questions n = replicate n (''APPPLE'', ''Hello World!!!'')"

definition acks :: "nat \<Rightarrow> (frame \<times> frame) list" where
  "acks n = replicate n (''PURPLE'', ''ACK'')"

definition greetings :: "nat \<Rightarrow> (frame \<times> frame) list" where
  "greetings n = replicate n (''PURPLE1'', ''hello world'')"

text \<open>
  The state after \<open>p\<close> passes of the client and \<open>n\<close> of the node, when the node has shown \<open>k\<close> messages and the
  client \<open>a\<close> acknowledgements and \<open>g\<close> greetings.
\<close>

definition pair_inv :: "nat \<Rightarrow> nat \<Rightarrow> nat \<Rightarrow> nat \<Rightarrow> nat \<Rightarrow> node \<times> peer \<Rightarrow> bool" where
  "pair_inv p n k a g st \<longleftrightarrow> k \<le> p \<and> a \<le> k \<and> k \<le> n \<and> g \<le> n \<and> a \<le> p \<and> g \<le> p \<and>
     node_shown (fst st) = questions k \<and> inbox (node_sockets (fst st)) Sink = pair_frames (questions (p - k)) \<and>
     seen_at Sock (peer_shown (snd st)) = acks a \<and> inbox (peer_sockets (snd st)) Sock = pair_frames (acks (k - a)) \<and>
     seen_at Back (peer_shown (snd st)) = greetings g \<and>
     inbox (peer_sockets (snd st)) Back = pair_frames (greetings (n - g))"

lemma pair_frames_snoc: "pair_frames (ms @ [(i, d)]) = pair_frames ms @ parts [i, d]"
  by (simp add: pair_frames_def)

lemma replicate_snoc: "replicate (Suc n) x = replicate n x @ [x]"
  by (simp add: replicate_append_same)

lemma tl_diff: "tl (replicate (m - k) x) = replicate (m - Suc k) x"
  by (simp add: tl_replicate)

lemma node_turn_step:
  assumes inv: "pair_inv p n k a g st"
  shows "\<exists>st' k'. pair_turn Node_turn st = Some st' \<and> pair_inv p (Suc n) k' a g st' \<and> k' = (if k < p then Suc k else k)"
proof -
  obtain b c where st: "st = (b, c)" by fastforce
  from inv node_pass_step [of b "questions (p - k)"] obtain b' where b': "node_pass b = Some b'"
      "inbox (node_sockets b') Sink = pair_frames (tl (questions (p - k)))"
      "node_shown b' = node_shown b @ take 1 (questions (p - k))"
      "outbox (node_sockets b') = outbox (node_sockets b) @ node_sends (questions (p - k) \<noteq> [])"
    by (auto simp: pair_inv_def st)
  let ?k = "if k < p then Suc k else k"
  have "pair_frames (acks (Suc k - a)) = pair_frames (acks (k - a)) @ parts [''PURPLE'', ''ACK'']" if "a \<le> k"
    using that pair_frames_snoc [of "acks (k - a)"] by (simp add: acks_def Suc_diff_le replicate_snoc del: replicate_Suc)
  moreover have "pair_frames (greetings (Suc n - g)) = pair_frames (greetings (n - g)) @ parts [''PURPLE1'', ''hello world'']"
    if "g \<le> n"
    using that pair_frames_snoc [of "greetings (n - g)"] by (simp add: greetings_def Suc_diff_le replicate_snoc del: replicate_Suc)
  moreover have "tl (questions (p - k)) = questions (p - ?k)" "questions ?k = questions k @ take 1 (questions (p - k))"
    using inv by (auto simp: questions_def tl_replicate pair_inv_def replicate_append_same)
  ultimately have "pair_inv p (Suc n) ?k a g
      (b', c\<lparr>peer_sockets := deliver node_setup peer_setup [Sock, Back] (node_sends (questions (p - k) \<noteq> [])) (peer_sockets c)\<rparr>)"
    using inv b' unfolding deliver_node by (auto simp: pair_inv_def st questions_def)
  then show ?thesis using b' by (simp add: pair_turn_def st)
qed

lemma peer_turn_step:
  assumes inv: "pair_inv p n k a g st"
  shows "\<exists>st'. pair_turn Peer_turn st = Some st' \<and>
    pair_inv (Suc p) n k (if a < k then Suc a else a) (if g < n then Suc g else g) st'"
proof -
  obtain b c where st: "st = (b, c)" by fastforce
  from inv peer_pass_step [of c "acks (k - a)" "greetings (n - g)"] obtain c' where c': "peer_pass c = Some c'"
      "inbox (peer_sockets c') Sock = pair_frames (tl (acks (k - a)))"
      "inbox (peer_sockets c') Back = pair_frames (tl (greetings (n - g)))"
      "peer_shown c' = peer_shown c @ map (Pair Sock) (take 1 (acks (k - a))) @ map (Pair Back) (take 1 (greetings (n - g)))"
      "outbox (peer_sockets c') = outbox (peer_sockets c) @ post Sock [''PURPLE'', ''Hello World!!!'']"
    by (auto simp: pair_inv_def st)
  let ?a = "if a < k then Suc a else a" and ?g = "if g < n then Suc g else g"
  have "pair_frames (questions (Suc p - k)) = pair_frames (questions (p - k)) @ parts [''APPPLE'', ''Hello World!!!'']" if "k \<le> p"
    using that pair_frames_snoc [of "questions (p - k)"] by (simp add: questions_def Suc_diff_le replicate_snoc del: replicate_Suc)
  moreover have "tl (acks (k - a)) = acks (k - ?a)" "acks ?a = acks a @ take 1 (acks (k - a))"
      "tl (greetings (n - g)) = greetings (n - ?g)" "greetings ?g = greetings g @ take 1 (greetings (n - g))"
    using inv by (auto simp: acks_def greetings_def tl_replicate pair_inv_def replicate_append_same)
  ultimately have "pair_inv (Suc p) n k ?a ?g
      (b\<lparr>node_sockets := deliver peer_setup node_setup [Sink, Front] (post Sock [''PURPLE'', ''Hello World!!!'']) (node_sockets b)\<rparr>, c')"
    using inv c' unfolding deliver_peer by (auto simp: pair_inv_def st)
  then show ?thesis using c' by (simp add: pair_turn_def st)
qed

lemma pair_run_inv:
  "pair_inv p n k a g st \<Longrightarrow> \<exists>st' k' a' g'. pair_run ts st = Some st' \<and>
     pair_inv (p + count_list ts Peer_turn) (n + count_list ts Node_turn) k' a' g' st'"
proof (induction ts arbitrary: p n k a g st)
  case (Cons t ts)
  show ?case
  proof (cases t)
    case Node_turn
    from node_turn_step [OF Cons.prems] obtain st1 k1 where
      "pair_turn Node_turn st = Some st1" "pair_inv p (Suc n) k1 a g st1" by blast
    then show ?thesis using Cons.IH by (fastforce simp: Node_turn)
  next
    case Peer_turn
    from peer_turn_step [OF Cons.prems] obtain st1 a1 g1 where
      "pair_turn Peer_turn st = Some st1" "pair_inv (Suc p) n k a1 g1 st1" by blast
    then show ?thesis using Cons.IH by (fastforce simp: Peer_turn)
  qed
qed auto


end
