(* ===== verification/Router_Dealer.thy ===== *)
theory Router_Dealer
  imports Router_Req
begin

text \<open>
  The task broker of \<^verbatim>\<open>example/routerdealer.cpp\<close> with its ten workers, whose DEALER sockets send and receive the
  delimiter themselves. Its runs are those of \<^verbatim>\<open>example/routerreq.cpp\<close>, with ten workers.
\<close>

section \<open>The code\<close>

definition rd_work_count :: nat where
  "rd_work_count = 10"

definition rd_pass :: "int \<Rightarrow> int \<Rightarrow> rr \<Rightarrow> (bool \<times> rr) option" where
  "rd_pass end_time now b = do {
     (identity, w) \<leftarrow> canna_recv () (socket b);
     (_, w) \<leftarrow> canna_recv () w;
     (_, w) \<leftarrow> canna_recv () w;
     let w = canna_sendmore () identity w;
     let w = canna_sendmore () [] w;
     if now < end_time
     then Some (False, b\<lparr>socket := canna_send () ''WORK HARDER'' w\<rparr>)
     else do {
       let w = canna_send () ''FIRED!'' w;
       let b = b\<lparr>worker_fired := worker_fired b + 1, socket := w\<rparr>;
       if worker_fired b = int rd_work_count then Some (True, b) else Some (False, b) } }"

text \<open>
  The broker, the workers whose identities are \<open>ws\<close>, and the messages between them: a ROUTER socket puts the
  identity in front of what the worker sends and takes it off what the worker receives.
\<close>

inductive rd_step :: "int \<Rightarrow> rr_system \<Rightarrow> rr_system \<Rightarrow> bool" for end_time :: int where
  ask: "asking s = ws @ w # ws' \<Longrightarrow>
    rd_step end_time s (s\<lparr>asking := ws @ ws',
      broker := (broker s)\<lparr>socket := arrive () (w # dealer_worker_sends) (socket (broker s))\<rparr>\<rparr>)"
| pass: "\<not> stopped s \<Longrightarrow> readable () (socket (broker s)) \<Longrightarrow>
    rd_pass end_time now (broker s) = Some (stop, b) \<Longrightarrow>
    rd_step end_time s (s\<lparr>broker := b, stopped := stop,
      given := given s @ (if now < end_time then [next_sender (broker s)] else [])\<rparr>)"
| workload: "outbox (socket (broker s)) = post () [w, [], load] @ rest \<Longrightarrow>
    dealer_worker_gets (tasks s w) [[], load] = Some (fired, n) \<Longrightarrow>
    rd_step end_time s (s\<lparr>broker := (broker s)\<lparr>socket := (socket (broker s))\<lparr>outbox := rest\<rparr>\<rparr>,
      tasks := (tasks s)(w := n),
      asking := (if fired then asking s else asking s @ [w]),
      printed := (if fired then printed s @ [(w, n)] else printed s)\<rparr>)"

section \<open>The same runs\<close>

lemma rd_pass_rr: "rd_pass end_time now b = rr_pass rd_work_count end_time now b"
  by (auto simp: rd_pass_def rr_pass_def Let_def split: bind_splits)

lemma rd_step_rr: "rd_step end_time s t \<Longrightarrow> rr_step rd_work_count end_time s t"
proof (induction rule: rd_step.induct)
  case (ask s ws w ws')
  then show ?case using rr_step.ask [of s ws w ws'] by (simp add: dealer_like_req)
next
  case (pass s now stop b)
  then show ?case by (intro rr_step.pass) (simp_all add: rd_pass_rr)
next
  case (workload s w load rest fired n)
  then show ?case by (intro rr_step.workload [where load = load]) (simp_all add: dealer_like_req)
qed

lemma rr_step_rd: "rr_step rd_work_count end_time s t \<Longrightarrow> rd_step end_time s t"
proof (induction rule: rr_step.induct)
  case (ask s ws w ws')
  then show ?case using rd_step.ask [of s ws w ws'] by (simp add: dealer_like_req)
next
  case (pass s now stop b)
  then show ?case by (intro rd_step.pass) (simp_all add: rd_pass_rr)
next
  case (workload s w load rest fired n)
  then show ?case by (intro rd_step.workload [where load = load]) (simp_all only: dealer_like_req option.inject)
qed

text \<open>
  Two programs, one behaviour. Every step of the broker and its DEALER workers is one of the broker with
  ten REQ workers and the other way round, so the runs of the two programs are the same.
\<close>

theorem dealers_run_like_reqs: "(rd_step end_time ^^ m) s t \<longleftrightarrow> (rr_step rd_work_count end_time ^^ m) s t"
proof -
  have "rd_step end_time = rr_step rd_work_count end_time"
    using rd_step_rr rr_step_rd by blast
  then show ?thesis by simp
qed

end
