(* ===== verification/Async_System.thy ===== *)
theory Async_System
  imports Message_Demos
begin

text \<open>
  The asynchronous clients, server and workers together (\<^verbatim>\<open>example/asyncserver.h\<close>). Between them is ZeroMQ's proxy: it puts
  the identity of a client in front of its message and gives it to one of the workers, and takes what a worker sends
  to the client whose identity is in front. Which worker it picks is left open.
\<close>

section \<open>The system\<close>

definition THREAD_MAX :: nat where
  "THREAD_MAX = 5"

text \<open>\<open>delivered\<close> is the history of the replies given to clients.\<close>

record async =
  clients :: "frame \<Rightarrow> client"
  workers :: "nat \<Rightarrow> unit wire"
  delivered :: "(frame \<times> frame) list"

text \<open>What a client has sent in a round, taken over by the proxy.\<close>

definition new_requests :: "client \<Rightarrow> client \<Rightarrow> frame list" where
  "new_requests c c' = map (fst \<circ> snd) (drop (length (outbox (dealer c))) (outbox (dealer c')))"

inductive async_step :: "frame list \<Rightarrow> async \<Rightarrow> async \<Rightarrow> bool" for cs :: "frame list" where
  round: "i \<in> set cs \<Longrightarrow> client_round (clients s i) = Some c \<Longrightarrow> v < THREAD_MAX \<Longrightarrow>
    async_step cs s (s\<lparr>clients := (clients s)(i := c),
      workers := (workers s)(v := foldl (\<lambda>w m. arrive () [i, m] w) (workers s v) (new_requests (clients s i) c))\<rparr>)"
| work: "v < THREAD_MAX \<Longrightarrow> set draws \<subseteq> {..<2 ^ 31} \<Longrightarrow> worker_round draws (workers s v) = Some (sleeps, rest, w) \<Longrightarrow>
    async_step cs s (s\<lparr>workers := (workers s)(v := w)\<rparr>)"
| reply: "v < THREAD_MAX \<Longrightarrow> outbox (workers s v) = post () [i, m] @ rest \<Longrightarrow> i \<in> set cs \<Longrightarrow>
    async_step cs s (s\<lparr>workers := (workers s)(v := (workers s v)\<lparr>outbox := rest\<rparr>),
      clients := (clients s)(i := (clients s i)\<lparr>dealer := arrive () [m] (dealer (clients s i))\<rparr>),
      delivered := delivered s @ [(i, m)]\<rparr>)"

definition async_begin :: async where
  "async_begin = \<lparr>clients = \<lambda>_. \<lparr>dealer = \<lparr>inbox = \<lambda>_. [], outbox = []\<rparr>, hex_out = False, sent_count = 0\<rparr>,
     workers = \<lambda>_. \<lparr>inbox = \<lambda>_. [], outbox = []\<rparr>, delivered = []\<rparr>"

section \<open>Accounts\<close>

definition request_text :: "nat \<Rightarrow> frame" where
  "request_text k = ''request #'' @ radix False 10 k"

lemma request_text_inj: "request_text j = request_text k \<longleftrightarrow> j = k"
proof
  assume "request_text j = request_text k"
  then have "radix False 10 j = radix False 10 k" by (simp add: request_text_def)
  then have "digits_value 10 (radix False 10 j) = digits_value 10 (radix False 10 k)" by simp
  then show "j = k" by (simp add: digits_value_radix)
qed simp

text \<open>The messages waiting at each worker, those it has sent, and those waiting at each client.\<close>

record async_view =
  at_worker :: "nat \<Rightarrow> (frame \<times> frame) list"
  from_worker :: "nat \<Rightarrow> (frame \<times> frame) list"
  at_client :: "frame \<Rightarrow> frame list"

definition all_workers :: "(nat \<Rightarrow> (frame \<times> frame) list) \<Rightarrow> frame \<times> frame \<Rightarrow> nat" where
  "all_workers f x = (\<Sum>v < THREAD_MAX. count_list (f v) x)"

lemma all_workers_upd:
  assumes "v < THREAD_MAX"
  shows "all_workers (f(v := xs)) x + count_list (f v) x = all_workers f x + count_list xs x"
proof -
  have "(\<Sum>u \<in> {..<THREAD_MAX}. count_list (g u) x) = count_list (g v) x + (\<Sum>u \<in> {..<THREAD_MAX} - {v}. count_list (g u) x)"
    for g :: "nat \<Rightarrow> (frame \<times> frame) list"
    using assms by (intro sum.remove) simp_all
  moreover have "(\<Sum>u \<in> {..<THREAD_MAX} - {v}. count_list ((f(v := xs)) u) x) = (\<Sum>u \<in> {..<THREAD_MAX} - {v}. count_list (f u) x)"
    by (intro sum.cong) auto
  ultimately show ?thesis by (simp add: all_workers_def)
qed

text \<open>Each request can still cause five replies, less those under way and delivered.\<close>

definition due :: "async \<Rightarrow> async_view \<Rightarrow> frame \<times> frame \<Rightarrow> nat" where
  "due s v x = 5 * all_workers (at_worker v) x + all_workers (from_worker v) x + count_list (delivered s) x"

definition allowed :: "frame list \<Rightarrow> async \<Rightarrow> frame \<times> frame \<Rightarrow> nat" where
  "allowed cs s x =
     (if fst x \<in> set cs \<and> (\<exists>k. 1 \<le> k \<and> k \<le> sent_count (clients s (fst x)) \<and> snd x = request_text k) then 5 else 0)"

definition async_inv :: "frame list \<Rightarrow> async \<Rightarrow> async_view \<Rightarrow> bool" where
  "async_inv cs s v \<longleftrightarrow>
     (\<forall>u. inbox (workers s u) () = concat (map (\<lambda>(i, m). parts [i, m]) (at_worker v u))) \<and>
     (\<forall>u. outbox (workers s u) = concat (map (\<lambda>(i, m). post () [i, m]) (from_worker v u))) \<and>
     (\<forall>i. inbox (dealer (clients s i)) () = concat (map (\<lambda>m. parts [m]) (at_client v i))) \<and>
     (\<forall>x. due s v x \<le> allowed cs s x)"

lemma async_begin_inv: "async_inv cs async_begin \<lparr>at_worker = \<lambda>_. [], from_worker = \<lambda>_. [], at_client = \<lambda>_. []\<rparr>"
  by (simp add: async_inv_def async_begin_def due_def all_workers_def)

lemma client_can_round:
  assumes "inbox (dealer c) () = concat (map (\<lambda>m. parts [m]) ms)" and "sent_count c < 999999"
  shows "\<exists>c'. client_round c = Some c' \<and> sent_count c' = sent_count c + 1 \<and>
    inbox (dealer c') () = concat (map (\<lambda>m. parts [m]) (drop 100 ms)) \<and>
    new_requests c c' = [request_text (sent_count c + 1)]"
proof -
  have i: "inbox (dealer c) () = concat (map parts (map (\<lambda>m. [m]) ms))" "[] \<notin> set (map (\<lambda>m. [m]) ms)"
    using assms(1) by (auto simp: o_def)
  from client_round_polls [OF i assms(2)] show ?thesis
    by (fastforce simp: new_requests_def request_text_def drop_map o_def)
qed

lemma client_polls_sent: "client_polls n c = Some c' \<Longrightarrow> sent_count c' = sent_count c"
  by (induction n c rule: client_polls.induct) (auto split: if_splits bind_splits)

lemma client_round_Some: "client_round c = Some c' \<Longrightarrow> sent_count c < 999999"
  using client_buffers [of 0 0 "sent_count c + 1"]
  by (auto simp: client_round_def Let_def dest!: client_polls_sent split: bind_splits)

lemma allowed_new: "allowed cs s (i, request_text (sent_count (clients s i) + 1)) = 0"
  by (auto simp: allowed_def request_text_inj)

lemma send_copies_needs: "send_copies n draws i m w = Some res \<Longrightarrow> n \<le> length draws"
  by (induction n draws i m w arbitrary: res rule: send_copies.induct) (fastforce simp: Let_def split: bind_splits)+

lemma count_replicate: "count_list (replicate n y) x = (if x = y then n else 0)"
  by (induction n) auto

lemma due_allowed: "async_inv cs s v \<Longrightarrow> due s v x \<le> allowed cs s x"
  unfolding async_inv_def by blast

lemma round_inv:
  assumes inv: "async_inv cs s v" and i: "i \<in> set cs" and c: "client_round (clients s i) = Some c" and u: "u < THREAD_MAX"
  shows "\<exists>v'. async_inv cs (s\<lparr>clients := (clients s)(i := c),
      workers := (workers s)(u := foldl (\<lambda>w m. arrive () [i, m] w) (workers s u) (new_requests (clients s i) c))\<rparr>) v'"
proof -
  let ?k = "sent_count (clients s i) + 1"
  have "inbox (dealer (clients s i)) () = concat (map (\<lambda>m. parts [m]) (at_client v i))" using inv by (simp add: async_inv_def)
  from client_can_round [OF this client_round_Some [OF c]] c have c': "sent_count c = ?k"
      "inbox (dealer c) () = concat (map (\<lambda>m. parts [m]) (drop 100 (at_client v i)))"
      "new_requests (clients s i) c = [request_text ?k]" by auto
  let ?t = "s\<lparr>clients := (clients s)(i := c),
      workers := (workers s)(u := foldl (\<lambda>w m. arrive () [i, m] w) (workers s u) (new_requests (clients s i) c))\<rparr>"
  let ?v = "v\<lparr>at_worker := (at_worker v)(u := at_worker v u @ [(i, request_text ?k)]), at_client := (at_client v)(i := drop 100 (at_client v i))\<rparr>"
  have more: "due ?t ?v x = due s v x + (if x = (i, request_text ?k) then 5 else 0)" for x
    using all_workers_upd [OF u, of "at_worker v" "at_worker v u @ [(i, request_text ?k)]" x] by (simp add: due_def)
  have "allowed cs s x \<le> allowed cs ?t x" for x
    by (simp add: allowed_def c'(1)) (metis le_SucI)
  moreover have "allowed cs ?t (i, request_text ?k) = 5" using i by (auto simp: allowed_def c'(1))
  moreover have "due s v (i, request_text ?k) = 0"
    using due_allowed [OF inv, of "(i, request_text ?k)"] allowed_new [of cs s i] by linarith
  ultimately have "due ?t ?v x \<le> allowed cs ?t x" for x
    using due_allowed [OF inv, of x] order_trans [of "due s v x" "allowed cs s x" "allowed cs ?t x"]
    unfolding more by (cases "x = (i, request_text ?k)") simp_all
  moreover have "inbox (workers ?t w) () = concat (map (\<lambda>(i, m). parts [i, m]) (at_worker ?v w)) \<and>
      outbox (workers ?t w) = concat (map (\<lambda>(i, m). post () [i, m]) (from_worker ?v w))" for w
    using inv by (simp add: async_inv_def c'(3))
  moreover have "inbox (dealer (clients ?t j)) () = concat (map (\<lambda>m. parts [m]) (at_client ?v j))" for j
    using inv c'(2) by (simp add: async_inv_def)
  ultimately show ?thesis unfolding async_inv_def by blast
qed

lemma work_inv:
  assumes inv: "async_inv cs s v" and u: "u < THREAD_MAX" and d: "set draws \<subseteq> {..<2 ^ 31}"
    and w: "worker_round draws (workers s u) = Some (sleeps, rest, w)"
  shows "\<exists>v'. async_inv cs (s\<lparr>workers := (workers s)(u := w)\<rparr>) v'"
proof -
  have box: "inbox (workers s u) () = concat (map (\<lambda>(i, m). parts [i, m]) (at_worker v u))"
    using inv by (simp add: async_inv_def)
  have "at_worker v u \<noteq> []" using w box by (auto simp: worker_round_def canna_recv_def)
  then obtain i m ms where ms: "at_worker v u = (i, m) # ms" by (cases "at_worker v u") auto
  then have b: "inbox (workers s u) () = parts [i, m] @ concat (map (\<lambda>(i, m). parts [i, m]) ms)" using box by simp
  obtain r ds where r: "draws = r # ds" using w b by (cases draws) (auto simp: worker_round_def canna_recv_def)
  let ?n = "CANNA_RAND 5 r"
  have n: "?n \<le> 5" "r < 2 ^ 31" using d r CANNA_RAND_le [of 5 r] by auto
  have "?n \<le> length ds"
    using w b unfolding r by (auto simp: worker_round_def canna_recv_def dest: send_copies_needs split: bind_splits)
  from worker_round_copies [OF b n(2) this] w r have w': "w = (workers s u)\<lparr>inbox := (inbox (workers s u))(() := concat (map (\<lambda>(i, m). parts [i, m]) ms)),
      outbox := outbox (workers s u) @ concat (replicate ?n (post () [i, m]))\<rparr>" by auto
  let ?t = "s\<lparr>workers := (workers s)(u := w)\<rparr>"
  let ?v = "v\<lparr>at_worker := (at_worker v)(u := ms), from_worker := (from_worker v)(u := from_worker v u @ replicate ?n (i, m))\<rparr>"
  have "due ?t ?v x \<le> due s v x" for x
    using all_workers_upd [OF u, of "at_worker v" ms x] all_workers_upd [OF u, of "from_worker v" "from_worker v u @ replicate ?n (i, m)" x] n(1)
    by (simp add: due_def ms count_replicate split: if_splits)
  moreover have "allowed cs ?t = allowed cs s" by (simp add: allowed_def fun_eq_iff)
  ultimately have "due ?t ?v x \<le> allowed cs ?t x" for x using due_allowed [OF inv, of x] order_trans by metis
  moreover have "inbox (workers ?t q) () = concat (map (\<lambda>(i, m). parts [i, m]) (at_worker ?v q)) \<and>
      outbox (workers ?t q) = concat (map (\<lambda>(i, m). post () [i, m]) (from_worker ?v q))" for q
    using inv by (simp add: async_inv_def w')
  moreover have "inbox (dealer (clients ?t j)) () = concat (map (\<lambda>m. parts [m]) (at_client ?v j))" for j
    using inv by (simp add: async_inv_def)
  ultimately show ?thesis unfolding async_inv_def by blast
qed

lemma reply_inv:
  assumes inv: "async_inv cs s v" and u: "u < THREAD_MAX" and o: "outbox (workers s u) = post () [i, m] @ rest"
  shows "\<exists>v'. async_inv cs (s\<lparr>workers := (workers s)(u := (workers s u)\<lparr>outbox := rest\<rparr>),
      clients := (clients s)(i := (clients s i)\<lparr>dealer := arrive () [m] (dealer (clients s i))\<rparr>),
      delivered := delivered s @ [(i, m)]\<rparr>) v'"
proof -
  have "concat (map (\<lambda>(i, m). post () [i, m]) (from_worker v u)) = post () [i, m] @ rest"
    using inv o by (simp add: async_inv_def)
  then obtain ms where ms: "from_worker v u = (i, m) # ms" "rest = concat (map (\<lambda>(i, m). post () [i, m]) ms)"
    by (cases "from_worker v u") auto
  let ?t = "s\<lparr>workers := (workers s)(u := (workers s u)\<lparr>outbox := rest\<rparr>),
      clients := (clients s)(i := (clients s i)\<lparr>dealer := arrive () [m] (dealer (clients s i))\<rparr>),
      delivered := delivered s @ [(i, m)]\<rparr>"
  let ?v = "v\<lparr>from_worker := (from_worker v)(u := ms), at_client := (at_client v)(i := at_client v i @ [m])\<rparr>"
  have "due ?t ?v x = due s v x" for x
    using all_workers_upd [OF u, of "from_worker v" ms x] by (simp add: due_def ms(1) split: if_splits)
  moreover have "allowed cs ?t = allowed cs s" by (auto simp: allowed_def fun_eq_iff)
  ultimately have "due ?t ?v x \<le> allowed cs ?t x" for x using due_allowed [OF inv, of x] by metis
  moreover have "inbox (workers ?t q) () = concat (map (\<lambda>(i, m). parts [i, m]) (at_worker ?v q)) \<and>
      outbox (workers ?t q) = concat (map (\<lambda>(i, m). post () [i, m]) (from_worker ?v q))" for q
    using inv by (simp add: async_inv_def ms)
  moreover have "inbox (dealer (clients ?t j)) () = concat (map (\<lambda>m. parts [m]) (at_client ?v j))" for j
    using inv by (simp add: async_inv_def)
  ultimately show ?thesis unfolding async_inv_def by blast
qed

lemma async_inv_step: "async_step cs s t \<Longrightarrow> async_inv cs s v \<Longrightarrow> \<exists>v'. async_inv cs t v'"
  by (induction rule: async_step.induct) (blast intro: round_inv work_inv reply_inv)+

section \<open>Replies\<close>

text \<open>
  C33: clients, proxy and workers. Whatever worker each request is given to and in whatever order they work, a
  client is given nothing but its own requests, each at most five times; no client is held up until it has sent
  999999 requests, and a worker with a message and enough random numbers never is.
\<close>

theorem async_echoes:
  assumes "(async_step cs)\<^sup>*\<^sup>* async_begin s"
  shows "((i, m) \<in> set (delivered s) \<longrightarrow> i \<in> set cs \<and>
      (\<exists>k. 1 \<le> k \<and> k \<le> sent_count (clients s i) \<and> m = ''request #'' @ radix False 10 k)) \<and>
    count_list (delivered s) (i, m) \<le> 5 \<and>
    (sent_count (clients s i) < 999999 \<longleftrightarrow> client_round (clients s i) \<noteq> None) \<and>
    (readable () (workers s u) \<and> set draws \<subseteq> {..<2 ^ 31} \<and> 6 \<le> length draws \<longrightarrow> worker_round draws (workers s u) \<noteq> None)"
proof -
  from assms have "\<exists>v. async_inv cs s v"
    by (induction rule: rtranclp_induct) (use async_begin_inv async_inv_step in blast)+
  then obtain v where inv: "async_inv cs s v" by blast
  have cnt: "count_list (delivered s) (i, m) \<le> allowed cs s (i, m)"
    using due_allowed [OF inv, of "(i, m)"] by (simp add: due_def)
  have own: "i \<in> set cs \<and> (\<exists>k. 1 \<le> k \<and> k \<le> sent_count (clients s i) \<and> m = ''request #'' @ radix False 10 k)"
    if "(i, m) \<in> set (delivered s)"
  proof -
    have "allowed cs s (i, m) \<noteq> 0" using cnt that by (metis count_list_0_iff le_zero_eq)
    then show ?thesis by (auto simp: allowed_def request_text_def split: if_splits)
  qed
  have "inbox (dealer (clients s i)) () = concat (map (\<lambda>m. parts [m]) (at_client v i))" using inv by (simp add: async_inv_def)
  then have client: "sent_count (clients s i) < 999999 \<longleftrightarrow> client_round (clients s i) \<noteq> None"
    using client_can_round client_round_Some by fastforce
  have worker: "worker_round draws (workers s u) \<noteq> None"
    if ready: "readable () (workers s u)" and d: "set draws \<subseteq> {..<2 ^ 31}" "6 \<le> length draws"
  proof -
    have box: "inbox (workers s u) () = concat (map (\<lambda>(i, m). parts [i, m]) (at_worker v u))" using inv by (simp add: async_inv_def)
    then obtain j n ms where "inbox (workers s u) () = parts [j, n] @ ms"
      using ready by (cases "at_worker v u") (auto simp: readable_def)
    moreover obtain r ds where "draws = r # ds" "r < 2 ^ 31" "5 \<le> length ds" using d by (cases draws) auto
    moreover have "CANNA_RAND 5 r \<le> 5" using \<open>r < 2 ^ 31\<close> by (intro CANNA_RAND_le) simp_all
    ultimately show ?thesis using worker_round_copies [of "workers s u" j n ms r ds] by fastforce
  qed
  show ?thesis using cnt own client worker by (auto simp: allowed_def split: if_splits)
qed

text \<open>A request, of which the worker makes two copies, and the first reply.\<close>

theorem async_echoes_witness:
  "\<exists>s. (async_step [''c''])\<^sup>*\<^sup>* async_begin s \<and> delivered s = [(''c'', ''request #1'')] \<and>
     count_list (delivered s) (''c'', ''request #1'') \<le> 5 \<and> client_round (clients s ''c'') \<noteq> None"
proof -
  let ?m = "request_text 1" and ?c0 = "clients async_begin ''c''"
  have "single (2 ^ 30) = 2 ^ 30" "single (5 * 2 ^ 30) = 5 * 2 ^ 30" "single 5 = 5"
    using single_push [of 30 1] single_push [of 30 5] by (simp_all add: single_exact mult.commute)
  then have "CANNA_RAND 5 (2 ^ 30) = 2" by (simp add: CANNA_RAND_def)
  then obtain r where two: "CANNA_RAND 5 r = 2" "r < 2 ^ 31" by (rule that) simp
  obtain c where c: "client_round ?c0 = Some c" "sent_count c = 1" "new_requests ?c0 c = [?m]"
    using client_can_round [of ?c0 "[]"] by (auto simp: async_begin_def)
  let ?w1 = "arrive () [''c'', ?m] (workers async_begin 0)"
  let ?s1 = "async_begin\<lparr>clients := (clients async_begin)(''c'' := c), workers := (workers async_begin)(0 := ?w1)\<rparr>"
  have 1: "async_step [''c''] async_begin ?s1"
    using async_step.round [of "''c''" "[''c'']" async_begin c 0] c by (simp add: THREAD_MAX_def)
  have "inbox ?w1 () = parts [''c'', ?m] @ []" by (simp add: async_begin_def)
  from worker_round_copies [OF this two(2), of "replicate 5 r"] obtain sleeps rest w where
    w: "worker_round (r # replicate 5 r) ?w1 = Some (sleeps, rest, w)" "outbox w = post () [''c'', ?m] @ post () [''c'', ?m]"
    by (auto simp: two(1) numeral_2_eq_2 async_begin_def)
  let ?s2 = "?s1\<lparr>workers := (workers ?s1)(0 := w)\<rparr>"
  have 2: "async_step [''c''] ?s1 ?s2"
    by (rule async_step.work [where draws = "r # replicate 5 r"]) (use w(1) two(2) in \<open>auto simp: THREAD_MAX_def\<close>)
  let ?s3 = "?s2\<lparr>workers := (workers ?s2)(0 := (workers ?s2 0)\<lparr>outbox := post () [''c'', ?m]\<rparr>),
      clients := (clients ?s2)(''c'' := (clients ?s2 ''c'')\<lparr>dealer := arrive () [?m] (dealer (clients ?s2 ''c''))\<rparr>),
      delivered := delivered ?s2 @ [(''c'', ?m)]\<rparr>"
  have 3: "async_step [''c''] ?s2 ?s3"
    by (rule async_step.reply) (simp_all add: w(2) THREAD_MAX_def)
  have m: "?m = ''request #1''" by code_simp
  have run: "(async_step [''c''])\<^sup>*\<^sup>* async_begin ?s3"
    using 1 2 3 by (meson converse_rtranclp_into_rtranclp rtranclp.rtrancl_refl)
  moreover have "delivered ?s3 = [(''c'', ''request #1'')]" "sent_count (clients ?s3 ''c'') = 1"
    using c(2) m by (simp_all add: async_begin_def)
  ultimately show ?thesis using async_echoes [OF run, of "''c''" "''request #1''"] by (intro exI [of _ ?s3]) simp
qed

end
