(* ===== verification/Pipeline_System.thy ===== *)
theory Pipeline_System
  imports Task_Pipeline Bounded_System
begin

text \<open>
  The ventilator, any number of workers and the sink together. The ventilator's socket gives each task to one of
  the workers, which one is left open; the sink takes the messages of all as they arrive.
\<close>

section \<open>Worker and sink\<close>

text \<open>One pass of the worker: how long it sleeps, in microseconds, and what it sends.\<close>

definition work_pass :: "frame \<Rightarrow> nat \<times> frame" where
  "work_pass message = (let workload = read_workload message in (workload * 1000, []))"

text \<open>The sink before the first message, counting, and at its end with the time it prints.\<close>

datatype sink = Waiting | Counting timeval nat string | Finished string int

fun sink_receives :: "timeval \<Rightarrow> sink \<Rightarrow> sink option" where
  "sink_receives now Waiting = Some (Counting now 0 [])"
| "sink_receives now (Counting tstart task_nbr out) =
     (let out = out @ [mark task_nbr] in
      if task_nbr + 1 < 100 then Some (Counting tstart (task_nbr + 1) out)
      else Some (Finished out (elapsed_msec tstart now)))"
| "sink_receives now (Finished out total_msec) = None"

section \<open>The system\<close>

record pipeline =
  started :: bool
  to_send :: "frame list"
  at_worker :: "nat \<Rightarrow> frame list"
  slept :: nat
  sink_box :: "frame list"
  the_sink :: sink

inductive pipeline_step :: "nat \<Rightarrow> pipeline \<Rightarrow> pipeline \<Rightarrow> bool" for n :: nat where
  start: "\<not> started s \<Longrightarrow> pipeline_step n s (s\<lparr>started := True, sink_box := sink_box s @ [''0'' @ [c]]\<rparr>)"
| send: "started s \<Longrightarrow> to_send s = f # fs \<Longrightarrow> w < n \<Longrightarrow>
    pipeline_step n s (s\<lparr>to_send := fs, at_worker := (at_worker s)(w := at_worker s w @ [f])\<rparr>)"
| work: "w < n \<Longrightarrow> at_worker s w = f # fs \<Longrightarrow> work_pass f = (usec, reply) \<Longrightarrow>
    pipeline_step n s (s\<lparr>at_worker := (at_worker s)(w := fs), slept := slept s + usec, sink_box := sink_box s @ [reply]\<rparr>)"
| collect: "sink_box s = f # fs \<Longrightarrow> sink_receives now (the_sink s) = Some k \<Longrightarrow>
    pipeline_step n s (s\<lparr>sink_box := fs, the_sink := k\<rparr>)"

definition pipeline_begin :: "frame list \<Rightarrow> pipeline" where
  "pipeline_begin msgs = \<lparr>started = False, to_send = msgs, at_worker = \<lambda>_. [], slept = 0, sink_box = [], the_sink = Waiting\<rparr>"

section \<open>The invariant\<close>

definition over_workers :: "nat \<Rightarrow> (frame list \<Rightarrow> nat) \<Rightarrow> (nat \<Rightarrow> frame list) \<Rightarrow> nat" where
  "over_workers n g f = (\<Sum>w < n. g (f w))"

lemma over_workers_upd:
  assumes "w < n"
  shows "over_workers n g (f(w := xs)) + g (f w) = over_workers n g f + g xs"
proof -
  have "(\<Sum>u \<in> {..<n}. g (h u)) = g (h w) + (\<Sum>u \<in> {..<n} - {w}. g (h u))" for h :: "nat \<Rightarrow> frame list"
    using assms by (intro sum.remove) simp_all
  moreover have "(\<Sum>u \<in> {..<n} - {w}. g ((f(w := xs)) u)) = (\<Sum>u \<in> {..<n} - {w}. g (f u))"
    by (intro sum.cong) auto
  ultimately show ?thesis by (simp add: over_workers_def)
qed

fun taken :: "sink \<Rightarrow> nat" where
  "taken Waiting = 0"
| "taken (Counting t k out) = k + 1"
| "taken (Finished out e) = 101"

fun sink_ok :: "sink \<Rightarrow> bool" where
  "sink_ok Waiting \<longleftrightarrow> True"
| "sink_ok (Counting t k out) \<longleftrightarrow> k < 100 \<and> out = map mark [0..<k]"
| "sink_ok (Finished out e) \<longleftrightarrow> out = map mark [0..<100]"

definition usecs :: "frame list \<Rightarrow> nat" where
  "usecs msgs = sum_list (map work_usec msgs)"

definition pipeline_inv :: "nat \<Rightarrow> frame list \<Rightarrow> pipeline \<Rightarrow> bool" where
  "pipeline_inv n msgs s \<longleftrightarrow>
     sink_ok (the_sink s) \<and>
     length (sink_box s) + taken (the_sink s) + over_workers n length (at_worker s) + length (to_send s) =
       length msgs + (if started s then 1 else 0) \<and>
     slept s + over_workers n usecs (at_worker s) + usecs (to_send s) = usecs msgs"

definition pipeline_effort :: "nat \<Rightarrow> pipeline \<Rightarrow> nat" where
  "pipeline_effort n s = 3 * length (to_send s) + 2 * over_workers n length (at_worker s) + length (sink_box s) +
     (if started s then 0 else 2)"

lemma pipeline_begin_inv: "pipeline_inv n msgs (pipeline_begin msgs)"
  by (simp add: pipeline_inv_def pipeline_begin_def over_workers_def usecs_def)

lemma sink_step:
  assumes "sink_ok k" and "sink_receives now k = Some k'"
  shows "sink_ok k' \<and> taken k' = Suc (taken k)"
proof (cases k)
  case (Counting t j out)
  then have out: "out @ [mark j] = map mark [0..<Suc j]" "j < 100" using assms(1) by simp_all
  show ?thesis
  proof (cases "Suc j < 100")
    case True
    then show ?thesis using assms(2) Counting out by (auto simp: Let_def)
  next
    case False
    with out(2) have "Suc j = 100" by simp
    then show ?thesis using assms(2) Counting out by (auto simp: Let_def simp del: upt_Suc)
  qed
qed (use assms in auto)

lemma pipeline_inv_step:
  assumes "pipeline_step n s t" and inv: "pipeline_inv n msgs s"
  shows "pipeline_inv n msgs t \<and> pipeline_effort n t + 1 \<le> pipeline_effort n s"
  using assms(1)
proof cases
  case (start c)
  then show ?thesis using inv by (simp add: pipeline_inv_def pipeline_effort_def)
next
  case (send f fs w)
  note upd = over_workers_upd [OF send(4), of _ "at_worker s" "at_worker s w @ [f]"]
  show ?thesis using inv upd [of length] upd [of usecs] send(2,3)
    by (simp add: send(1) pipeline_inv_def pipeline_effort_def usecs_def)
next
  case (work w f fs usec reply)
  note upd = over_workers_upd [OF work(2), of _ "at_worker s" fs]
  have "usec = work_usec f" using work(4) by (simp add: work_pass_def work_usec_def Let_def)
  then show ?thesis using inv upd [of length] upd [of usecs] work(3)
    by (simp add: work(1) pipeline_inv_def pipeline_effort_def usecs_def)
next
  case (collect f fs now k)
  have "sink_ok (the_sink s)" using inv by (simp add: pipeline_inv_def)
  from sink_step [OF this collect(3)] show ?thesis using inv collect(2)
    by (simp add: collect(1) pipeline_inv_def pipeline_effort_def)
qed

interpretation pipe: bounded_system "pipeline_step n" "\<lambda>s (_ :: unit). pipeline_inv n msgs s" "\<lambda>s _. pipeline_effort n s" "\<lambda>_. 0"
  for n msgs
  by unfold_locales (use pipeline_inv_step in auto)

text \<open>Where nothing is left to do the sink has finished.\<close>

lemma pipeline_stuck:
  assumes inv: "pipeline_inv n msgs s" and stuck: "\<nexists>t. pipeline_step n s t" and "0 < n" and "length msgs = 100"
  shows "(\<exists>e. the_sink s = Finished (map mark [0..<100]) e) \<and> slept s = usecs msgs"
proof -
  have st: "started s" using stuck pipeline_step.start by blast
  have send: "to_send s = []" using stuck pipeline_step.send [OF st _ assms(3)] by (cases "to_send s") blast+
  have none: "at_worker s w = []" if "w < n" for w
  proof (cases "at_worker s w")
    case (Cons f fs)
    from pipeline_step.work [OF that this surjective_pairing] stuck show ?thesis by blast
  qed
  have box: "sink_receives now (the_sink s) = None" if "sink_box s \<noteq> []" for now
    using stuck pipeline_step.collect that by (cases "sink_box s"; cases "sink_receives now (the_sink s)") blast+
  have zero: "over_workers n length (at_worker s) = 0" "over_workers n usecs (at_worker s) = 0"
    using none by (simp_all add: over_workers_def usecs_def)
  have cnt: "length (sink_box s) + taken (the_sink s) = 101"
    using inv st send zero assms(4) by (simp add: pipeline_inv_def)
  have "\<exists>e. the_sink s = Finished (map mark [0..<100]) e"
  proof (cases "the_sink s")
    case Waiting
    then have "sink_box s \<noteq> []" using cnt by auto
    from box [OF this] show ?thesis by (simp add: Waiting)
  next
    case (Counting t k out)
    then have "sink_box s \<noteq> []" using cnt inv by (auto simp: pipeline_inv_def)
    from box [OF this, of t] show ?thesis by (simp add: Counting Let_def split: if_splits)
  next
    case (Finished out e)
    then show ?thesis using inv by (simp add: pipeline_inv_def)
  qed
  then show ?thesis using inv zero send by (simp add: pipeline_inv_def usecs_def)
qed

text \<open>
  C34: the pipeline runs to its end. With the hundred tasks of the ventilator and at least one worker every run has at most 302
  steps, whichever worker gets which task and in whatever order they finish; the marks printed on the way are those
  of the tasks counted; and where no step is left the sink has printed all hundred marks and its time, and
  the workers together have slept a millisecond for each unit of work.
\<close>

theorem pipeline_finishes:
  assumes "(pipeline_step n ^^ m) (pipeline_begin (fst (ventilator now garbage))) s" and "0 < n"
  shows "m \<le> 302 \<and> sink_ok (the_sink s) \<and>
    ((\<nexists>t. pipeline_step n s t) \<longrightarrow> (\<exists>e. the_sink s = Finished (map mark [0..<100]) e) \<and>
       slept s = 1000 * (\<Sum>f \<leftarrow> fst (ventilator now garbage). read_workload f))"
proof -
  let ?msgs = "fst (ventilator now garbage)"
  have len: "length ?msgs = 100" using workloads_arrive [where now = now and garbage = garbage] by (simp add: case_prod_beta)
  from pipe.run_effort [OF assms(1) pipeline_begin_inv] obtain
    inv: "pipeline_inv n ?msgs s" and m: "m + pipeline_effort n s \<le> pipeline_effort n (pipeline_begin ?msgs)" by auto
  have "pipeline_effort n (pipeline_begin ?msgs) = 302"
    using len by (simp add: pipeline_effort_def pipeline_begin_def over_workers_def)
  moreover have "usecs fs = 1000 * (\<Sum>f \<leftarrow> fs. read_workload f)" for fs
    by (induction fs) (simp_all add: usecs_def work_usec_def)
  ultimately show ?thesis using m inv pipeline_stuck [OF inv _ assms(2) len] by (auto simp: pipeline_inv_def)
qed

theorem pipeline_finishes_witness:
  "\<exists>m s e. (pipeline_step 3 ^^ m) (pipeline_begin (fst (ventilator 7 0))) s \<and> m \<le> 302 \<and>
     the_sink s = Finished (map mark [0..<100]) e \<and> slept s = 1000 * (\<Sum>f \<leftarrow> fst (ventilator 7 0). read_workload f)"
proof -
  obtain m s where run: "(pipeline_step 3 ^^ m) (pipeline_begin (fst (ventilator 7 0))) s" "\<nexists>t. pipeline_step 3 s t"
    using pipe.run_ends [OF pipeline_begin_inv [of 3 "fst (ventilator 7 0)"]] by blast
  from pipeline_finishes [OF run(1)] run(2) run(1) show ?thesis by auto
qed

end
