(* ===== verification/Addresses.thy ===== *)
theory Addresses
  imports Name_Sockets Router_Routes Message_Demos
begin

text \<open>
  How the programs that talk over fixed addresses set up their sockets, each socket named as in the source, and that
  they find each other. The random identities of \<^verbatim>\<open>canna_setid\<close> are made of two numbers drawn.
\<close>

section \<open>The set-ups\<close>

definition lb_setup :: "string operation list" where
  "lb_setup = [Bind_at ''frontend'' ''tcp://*:5672'', Bind_at ''backend'' ''tcp://*:5673'']"

definition lb_client_setup :: "nat \<Rightarrow> nat \<Rightarrow> string operation list" where
  "lb_client_setup r1 r2 = [Identify ''client'' (canna_setid r1 r2), Connect_to ''client'' ''tcp://localhost:5672'']"

definition lb_worker_setup :: "nat \<Rightarrow> nat \<Rightarrow> string operation list" where
  "lb_worker_setup r1 r2 = [Identify ''worker'' (canna_setid r1 r2), Connect_to ''worker'' ''tcp://localhost:5673'']"

definition req_setup :: "string operation list" where
  "req_setup = [Bind_at ''broker'' ''ipc://routing.ipc'']"

definition req_worker_setup :: "nat \<Rightarrow> nat \<Rightarrow> string operation list" where
  "req_worker_setup r1 r2 = [Identify ''worker'' (canna_setid r1 r2), Connect_to ''worker'' ''ipc://routing.ipc'']"

definition dealer_setup :: "string operation list" where
  "dealer_setup = [Bind_at ''broker'' ''tcp://*:5671'']"

definition dealer_worker_setup :: "nat \<Rightarrow> nat \<Rightarrow> string operation list" where
  "dealer_worker_setup r1 r2 = [Identify ''worker'' (canna_setid r1 r2), Connect_to ''worker'' ''tcp://localhost:5671'']"

definition ventilator_setup :: "string operation list" where
  "ventilator_setup = [Bind_at ''sender'' ''tcp://*:5557'', Connect_to ''sink'' ''tcp://localhost:5558'']"

definition task_worker_setup :: "string operation list" where
  "task_worker_setup = [Connect_to ''receiver'' ''tcp://localhost:5557'', Connect_to ''sender'' ''tcp://localhost:5558'']"

definition task_sink_setup :: "string operation list" where
  "task_sink_setup = [Bind_at ''receiver'' ''tcp://*:5558'']"

definition async_server_setup :: "string operation list" where
  "async_server_setup = [Bind_at ''m_frontend'' ''tcp://*:5570'', Bind_at ''m_backend'' ''tcp://*:5571'']"

definition async_worker_setup :: "string operation list" where
  "async_worker_setup = [Connect_to ''m_socket'' ''tcp://localhost:5571'']"

definition async_client_setup :: "nat \<Rightarrow> nat \<Rightarrow> string operation list option" where
  "async_client_setup r1 r2 =
     map_option (\<lambda>identity. [Identify ''m_socket'' identity, Connect_to ''m_socket'' ''tcp://localhost:5570''])
       (client_identity r1 r2)"

definition db_setup :: "string operation list" where
  "db_setup = [Bind_at ''socket'' ''tcp://*:5555'']"

section \<open>Endpoints\<close>

text \<open>What two addresses have to share to meet on one host: the port of TCP, or the whole of a local address.\<close>

definition endpoint :: "string \<Rightarrow> string" where
  "endpoint a = (if take 6 a = ''tcp://'' then rev (takeWhile (\<lambda>c. c \<noteq> CHR '':'') (rev a)) else a)"

fun bound :: "'s operation list \<Rightarrow> string list" where
  "bound [] = []"
| "bound (Bind_at s a # ops) = endpoint a # bound ops"
| "bound (_ # ops) = bound ops"

fun connected :: "'s operation list \<Rightarrow> string list" where
  "connected [] = []"
| "connected (Connect_to s a # ops) = endpoint a # connected ops"
| "connected (_ # ops) = connected ops"

text \<open>The same of the calls the name server and the router make.\<close>

fun calls_bound :: "zmq_call list \<Rightarrow> string list" where
  "calls_bound [] = []"
| "calls_bound (Bind s a # cs) = endpoint a # calls_bound cs"
| "calls_bound (_ # cs) = calls_bound cs"

fun calls_connected :: "zmq_call list \<Rightarrow> string list" where
  "calls_connected [] = []"
| "calls_connected (Connect s a # cs) = endpoint a # calls_connected cs"
| "calls_connected (_ # cs) = calls_connected cs"

datatype program =
    Name_server | DB_server | LB_broker | Req_broker | Dealer_broker | Ventilator | Task_sink | Async_server
  | Router_node | Router_client

fun binds :: "program \<Rightarrow> string list" where
  "binds Name_server = calls_bound (zcalls (snd (name_main_setup \<lparr>made = 0, zcalls = []\<rparr>)))"
| "binds DB_server = bound db_setup"
| "binds LB_broker = bound lb_setup"
| "binds Req_broker = bound req_setup"
| "binds Dealer_broker = bound dealer_setup"
| "binds Ventilator = bound ventilator_setup"
| "binds Task_sink = bound task_sink_setup"
| "binds Async_server = bound async_server_setup"
| "binds Router_node = bound node_setup"
| "binds Router_client = bound peer_setup"

definition programs :: "program list" where
  "programs = [Name_server, DB_server, LB_broker, Req_broker, Dealer_broker, Ventilator, Task_sink, Async_server,
     Router_node, Router_client]"

text \<open>The endpoints somebody connects to, with the programs that should be there.\<close>

definition links :: "nat \<Rightarrow> nat \<Rightarrow> (string list \<times> program list) list" where
  "links r1 r2 =
     [(calls_connected (zcalls (snd (case router_initialize \<lparr>made = 0, zcalls = []\<rparr> of (rs, z) \<Rightarrow> router_init rs z))), [Name_server]),
      (connected (lb_client_setup r1 r2), [LB_broker]), (connected (lb_worker_setup r1 r2), [LB_broker]),
      (connected (req_worker_setup r1 r2), [Req_broker]), (connected (dealer_worker_setup r1 r2), [Dealer_broker]),
      (connected ventilator_setup, [Task_sink]), (connected task_worker_setup, [Ventilator, Task_sink]),
      (connected async_worker_setup, [Async_server]),
      (case async_client_setup r1 r2 of None \<Rightarrow> [] | Some ops \<Rightarrow> connected ops, [Async_server]),
      (connected node_setup, [Router_client]), (connected peer_setup, [Router_node])]"

definition clash :: "program \<times> program \<Rightarrow> bool" where
  "clash pq = (\<exists>e \<in> set (binds (fst pq)). e \<in> set (binds (snd pq)))"

fun pairs :: "'a list \<Rightarrow> ('a \<times> 'a) list" where
  "pairs [] = []"
| "pairs (x # xs) = map (Pair x) xs @ pairs xs"


end
