(* ===== verification/Identity_Check.thy ===== *)
theory Identity_Check
  imports Router_Routes Canna_Core
begin

text \<open>
  \<^verbatim>\<open>example/identitycheck.cpp\<close>: two REQ sockets and a ROUTER socket each send one message to a ROUTER socket, which
  dumps what it gets. Carrying the messages is a parameter of the program; what ZeroMQ documents of it is
  \<open>carry\<close> below, the identity it makes up for a socket that has none being an input.
\<close>

section \<open>The code\<close>

datatype id_port = Id_sink | Anonymous | Identified | Apple

definition identity_setup :: "id_port operation list" where
  "identity_setup =
     [Identify Id_sink ''PURPLE'', Bind_at Id_sink ''inproc://identity.inproc'',
      Connect_to Anonymous ''inproc://identity.inproc'',
      Identify Identified ''APPPUR'', Connect_to Identified ''inproc://identity.inproc'',
      Identify Apple ''APPPLE'', Connect_to Apple ''inproc://identity.inproc'']"

definition identity_check :: "(id_port wire \<Rightarrow> id_port wire) \<Rightarrow> id_port wire \<Rightarrow> (string list \<times> bool \<times> id_port wire) option" where
  "identity_check net w = do {
     let w = canna_send Anonymous ''ROUTER uses a generated 5 byte indentity'' w;
     (lines1, hex, w) \<leftarrow> canna_dump Id_sink False (net w);
     let w = canna_send Identified ''ROUTER socket use REQ's identity'' w;
     (lines2, hex, w) \<leftarrow> canna_dump Id_sink hex (net w);
     let w = canna_sendmore Apple ''PURPLE'' w;
     let w = canna_sendmore Apple [] w;
     let w = canna_send Apple ''ROUTER socket use REQ's identity'' w;
     (lines3, hex, w) \<leftarrow> canna_dump Id_sink hex (net w);
     Some (lines1 @ lines2 @ lines3 @ [replicate 43 CHR ''*''], hex, w) }"

section \<open>What the dumps show\<close>

text \<open>
  A REQ socket puts an empty frame before the message, a ROUTER socket takes the first frame as the identity to send to;
  the receiver finds the sender's identity in front.
\<close>

definition received :: "frame \<Rightarrow> id_port \<times> frame list \<Rightarrow> frame list list" where
  "received gen x =
     (case x of (s, m) \<Rightarrow>
        let i = (if identity_of identity_setup s = [] then gen else identity_of identity_setup s) in
        if \<not> linked identity_setup s identity_setup Id_sink then []
        else if s \<noteq> Apple then [i # [] # m]
        else if hd m = identity_of identity_setup Id_sink then [i # tl m] else [])"

definition carry :: "frame \<Rightarrow> id_port wire \<Rightarrow> id_port wire" where
  "carry gen w = foldl (\<lambda>w m. arrive Id_sink m w) (w\<lparr>outbox := []\<rparr>) (concat (map (received gen) (posted (outbox w))))"

text \<open>
  The three dumps show the generated identity, the one set on the REQ socket and the one set on the ROUTER socket, each
  before the empty frame and the text. The generated identity is not text, so from there on
  every size is printed in hexadecimal.
\<close>

theorem identity_check_shows:
  assumes "length gen = 5" and "\<not> is_text gen"
  shows "identity_check (carry gen) \<lparr>inbox = \<lambda>_. [], outbox = []\<rparr> =
    Some ([replicate 50 CHR ''-'', ''[005]'' @ hex_bytes gen, ''[000]'', ''[028]ROUTER uses a generated 5 byte indentity'',
           replicate 50 CHR ''-'', ''[006]APPPUR'', ''[000]'', ''[020]ROUTER socket use REQ's identity'',
           replicate 50 CHR ''-'', ''[006]APPPLE'', ''[000]'', ''[020]ROUTER socket use REQ's identity'',
           replicate 43 CHR ''*''], True, \<lparr>inbox = \<lambda>_. [], outbox = []\<rparr>)"
proof -
  let ?q = "''ROUTER socket use REQ's identity''" and ?a = "''ROUTER uses a generated 5 byte indentity''"
  have r: "radix False 10 5 = ''5''" "radix False 16 0 = ''0''" "radix False 16 6 = ''6''" "radix False 16 32 = ''20''"
      "radix False 16 40 = ''28''"
    by (simp_all add: radix.simps digit_def char_of_def bit_simps)
  have z: "zero_pad 3 ''5'' = ''005''" "zero_pad 3 ''0'' = ''000''" "zero_pad 3 ''6'' = ''006''" "zero_pad 3 ''20'' = ''020''"
      "zero_pad 3 ''28'' = ''028''"
    by (simp_all add: zero_pad_def eval_nat_numeral)
  have t: "dump_frame True f = (''['' @ zero_pad 3 (radix False 16 n) @ '']'' @ f, True)" if "is_text f" "length f = n" for f n
    using that by (simp add: dump_frame_def)
  have "length ?a = 40" "length ?q = 32" "length ''APPPUR'' = 6" "length ''APPPLE'' = 6" by simp_all
  moreover have "is_text ?a" "is_text ?q" "is_text ''APPPUR''" "is_text ''APPPLE''" "is_text []" by (simp_all add: is_text_def)
  ultimately have f: "dump_frame True ?a = (''[028]'' @ ?a, True)" "dump_frame True ?q = (''[020]'' @ ?q, True)"
      "dump_frame True ''APPPUR'' = (''[006]APPPUR'', True)" "dump_frame True ''APPPLE'' = (''[006]APPPLE'', True)"
      "dump_frame True [] = (''[000]'', True)"
    by (simp_all only: t list.size(3)) (simp_all add: r z)
  have g: "dump_frame False gen = (''[005]'' @ hex_bytes gen, True)"
    using assms by (simp add: dump_frame_def r z)
  have c: "received gen (Anonymous, [?a]) = [[gen, [], ?a]]" "received gen (Identified, [?q]) = [[''APPPUR'', [], ?q]]"
      "received gen (Apple, [''PURPLE'', [], ?q]) = [[''APPPLE'', [], ?q]]"
    by (simp_all add: received_def identity_setup_def linked_def)
  define e :: "id_port wire" where "e = \<lparr>inbox = \<lambda>_. [], outbox = []\<rparr>"
  have sent: "carry gen (canna_send Anonymous ?a e) = arrive Id_sink [gen, [], ?a] e"
      "carry gen (canna_send Identified ?q e) = arrive Id_sink [''APPPUR'', [], ?q] e"
      "carry gen (canna_send Apple ?q (canna_sendmore Apple [] (canna_sendmore Apple ''PURPLE'' e)))
        = arrive Id_sink [''APPPLE'', [], ?q] e"
    by (simp_all add: carry_def canna_send_def canna_sendmore_def c e_def)
  have dumped: "canna_dump Id_sink hex (arrive Id_sink [i, [], q] e) = Some (replicate 50 CHR ''-'' # [l, ''[000]'', l'], True, e)"
    if "dump_frame hex i = (l, True)" "dump_frame True q = (l', True)" for hex i q l l'
    using that f(5) by (simp add: canna_dump_def arrive_def e_def fun_eq_iff)
  show ?thesis unfolding e_def [symmetric]
    by (simp add: identity_check_def sent dumped [OF g f(1)] dumped [OF f(3) f(2)] dumped [OF f(4) f(2)])
qed

theorem identity_check_shows_witness:
  "\<not> Option.is_none (identity_check (carry (replicate 5 (CHR 0x00))) \<lparr>inbox = \<lambda>_. [], outbox = []\<rparr>)"
  using identity_check_shows [of "replicate 5 (CHR 0x00)"] by (simp add: is_text_def)

end
