(* ===== verification/Test_Programs.thy ===== *)
theory Test_Programs
  imports DB_Server Name_System
begin

text \<open>
  The programs that try the servers out: \<^verbatim>\<open>dbserver/test.cpp\<close>, \<^verbatim>\<open>nameserver/test.cpp\<close>, each against its server, and
  \<^verbatim>\<open>protos/test_proto.cpp\<close>, which prints an address book that protobuf has parsed.
\<close>

section \<open>The database client\<close>

definition set_request :: frame where
  "set_request = take 24 ''SET nickname applepurple''"

definition get_request :: frame where
  "get_request = take 12 ''GET nickname''"

text \<open>The reply is copied into a buffer of 256 bytes whatever its length, and printed as a C string.\<close>

definition show_response :: "frame \<Rightarrow> string option" where
  "show_response reply =
     (if 256 < length reply then None
      else map_option (\<lambda>text. ''response: '' @ text @ [CHR 0x0A]) (read_string (reply @ replicate (256 - length reply) nul)))"

text \<open>The program, a request and its reply being one step of a server \<open>net\<close>.\<close>

definition db_test :: "(frame \<Rightarrow> 's \<Rightarrow> (frame \<times> 's) option) \<Rightarrow> 's \<Rightarrow> (string list \<times> 's) option" where
  "db_test net s = do {
     (reply, s) \<leftarrow> net set_request s;
     line1 \<leftarrow> show_response reply;
     (reply, s) \<leftarrow> net get_request s;
     line2 \<leftarrow> show_response reply;
     Some ([line1, line2], s) }"

text \<open>The server of \<open>DB_Server\<close> as the other end: the request arrives, it takes a turn, and its reply comes back.\<close>

definition db_exchange :: "(frame \<Rightarrow> frame option) \<Rightarrow> frame \<Rightarrow> db \<Rightarrow> (frame \<times> db) option" where
  "db_exchange redis request b = do {
     b' \<leftarrow> db_turn redis (b\<lparr>socket := arrive () [request] (socket b)\<rparr>);
     case drop (length (outbox (socket b))) (outbox (socket b')) of
       [(_, reply, _)] \<Rightarrow> Some (reply, b')
     | _ \<Rightarrow> None }"

text \<open>A C string that fits the client's buffer with its terminator.\<close>

definition fits :: "frame \<Rightarrow> bool" where
  "fits r \<longleftrightarrow> length r < 256 \<and> nul \<notin> set r"

lemma show_fits:
  assumes "fits r"
  shows "show_response r = Some (''response: '' @ r @ [CHR 0x0A])"
proof -
  from assms obtain k where k: "256 - length r = Suc k" "length r < 256" "nul \<notin> set r"
    by (cases "256 - length r") (auto simp: fits_def)
  have "takeWhile (\<lambda>c. c \<noteq> nul) r = r" using k(3) by (intro takeWhile_eq_all_conv [THEN iffD2]) auto
  then show ?thesis using k by (simp add: show_response_def k(1) read_padded del: replicate_Suc)
qed

lemma show_response_None: "nul \<notin> set r \<Longrightarrow> 256 \<le> length r \<Longrightarrow> show_response r = None"
  by (simp add: show_response_def read_string_def)

lemma exchange_served:
  assumes "redis request = Some r" and "length request < COMMAND_LEN" and "nul \<notin> set request"
    and "inbox (socket b) () = []" and "\<not> owes_reply b"
  shows "\<exists>b'. db_exchange redis request b = Some (r, b') \<and> inbox (socket b') () = [] \<and> \<not> owes_reply b'"
proof -
  have t: "takeWhile (\<lambda>c. c \<noteq> nul) request = request" using assms(3) by (intro takeWhile_eq_all_conv [THEN iffD2]) auto
  have "served redis request" "db_answer redis request = r" using assms(1,2) by (simp_all add: served_def db_answer_def t)
  then show ?thesis
    using turn_served [of redis request "b\<lparr>socket := arrive () [request] (socket b)\<rparr>" False "[]"] assms(4,5)
    by (auto simp: db_exchange_def)
qed

text \<open>
  The client prints the two answers of Redis, when they are C strings of less than 256 characters. If the
  second one is longer the program leaves its buffer, although the server has sent it in full.
\<close>

theorem db_test_prints:
  assumes "redis set_request = Some r1" and "redis get_request = Some r2" and "fits r1" and "nul \<notin> set r2"
  shows "map_option fst (db_test (db_exchange redis) (db_start [])) =
    (if fits r2 then Some [''response: '' @ r1 @ [CHR 0x0A], ''response: '' @ r2 @ [CHR 0x0A]] else None)"
proof -
  have req: "length set_request < COMMAND_LEN" "nul \<notin> set set_request" "length get_request < COMMAND_LEN" "nul \<notin> set get_request"
    by (simp_all add: set_request_def get_request_def COMMAND_LEN_def nul_def)
  have "inbox (socket (db_start [])) () = []" "\<not> owes_reply (db_start [])" by (simp_all add: db_start_def)
  with exchange_served [where redis = redis, OF assms(1) req(1,2)] obtain b where
    b: "db_exchange redis set_request (db_start []) = Some (r1, b)" "inbox (socket b) () = []" "\<not> owes_reply b" by blast
  from exchange_served [where redis = redis, OF assms(2) req(3,4) b(2,3)] obtain b' where b': "db_exchange redis get_request b = Some (r2, b')" by blast
  have "show_response r2 = (if fits r2 then Some (''response: '' @ r2 @ [CHR 0x0A]) else None)"
    using show_fits [of r2] show_response_None [OF assms(4)] assms(4) by (auto simp: fits_def)
  then show ?thesis by (simp add: db_test_def b(1) b' show_fits [OF assms(3)])
qed

theorem db_test_prints_witness:
  "map_option fst (db_test (db_exchange (\<lambda>r. Some (if r = set_request then ''OK'' else ''applepurple''))) (db_start []))
    = Some [''response: OK'' @ [CHR 0x0A], ''response: applepurple'' @ [CHR 0x0A]]"
proof -
  have "get_request \<noteq> set_request" by (simp add: get_request_def set_request_def)
  then show ?thesis
    using db_test_prints [of "\<lambda>r. Some (if r = set_request then ''OK'' else ''applepurple'')" "''OK''" "''applepurple''"]
    by (simp add: fits_def nul_def)
qed

section \<open>The name client\<close>

datatype tester_port = Tester_req | Tester_sub

record tester =
  tester_sockets :: "tester_port wire"
  tester_shown :: "string list"

definition tester_asks :: "tester_port wire \<Rightarrow> tester_port wire" where
  "tester_asks w = canna_send Tester_req ''cluster'' w"

text \<open>One pass: both sockets are polled first, then a reply and a publication are shown.\<close>

definition tester_pass :: "(string \<Rightarrow> string list) \<Rightarrow> tester \<Rightarrow> tester option" where
  "tester_pass parse c =
     (let reply = readable Tester_req (tester_sockets c); news = readable Tester_sub (tester_sockets c) in do {
        c \<leftarrow> (if reply
             then do { (res, w) \<leftarrow> canna_recv Tester_req (tester_sockets c);
                       Some (c\<lparr>tester_sockets := w, tester_shown := tester_shown c @ map (\<lambda>n. ''RES: '' @ n) (parse res)\<rparr>) }
             else Some c);
        if news
        then do { (sub, w) \<leftarrow> canna_recv Tester_sub (tester_sockets c);
                  Some (c\<lparr>tester_sockets := w, tester_shown := tester_shown c @ [''SUB: '' @ sub]\<rparr>) }
        else Some c })"

text \<open>What the server sends in a pass, at the client: the replies, and the publications.\<close>

definition carried :: "name_port wire \<Rightarrow> tester_port wire \<Rightarrow> tester_port wire" where
  "carried srv w =
     foldl (\<lambda>w (p, f, mr). arrive (case p of Responder \<Rightarrow> Tester_req | Publisher \<Rightarrow> Tester_sub) [f] w) w (outbox srv)"

text \<open>
  The client asks a server that has allotted \<open>k\<close> names to the routers. After one pass of the server and one of the client
  it has shown every name of the group and the new one as published; once 256 names are in use
  the publication it shows is empty.
\<close>

theorem name_test_shows:
  assumes "name_rep m (counted k)" and "\<forall>ns. parse (ser ns) = ns"
  shows "\<exists>st c. name_pass ser (m, arrive Responder (map (fst \<circ> snd) (outbox (tester_asks \<lparr>inbox = \<lambda>_. [], outbox = []\<rparr>)))
        \<lparr>inbox = \<lambda>_. [], outbox = []\<rparr>) = Some st \<and>
      tester_pass parse \<lparr>tester_sockets = carried (snd st) (tester_asks \<lparr>inbox = \<lambda>_. [], outbox = []\<rparr>), tester_shown = []\<rparr> = Some c \<and>
      tester_shown c = map (\<lambda>n. ''RES: '' @ n) (known_names k) @ [''SUB: '' @ (if k < 256 then cluster_name k else [])] \<and>
      name_rep (fst st) (counted (Suc k))"
proof -
  obtain m' where m': "serve_request ser m ''cluster'' = Some (m', ser (known_names k), if k < 256 then cluster_name k else [])"
      "name_rep m' (counted (Suc k))" using serve_cluster [OF assms(1)] by blast
  let ?w = "arrive Responder (map (fst \<circ> snd) (outbox (tester_asks \<lparr>inbox = \<lambda>_. [], outbox = []\<rparr>))) \<lparr>inbox = \<lambda>_. [], outbox = []\<rparr>"
  have "inbox ?w Responder = [(''cluster'', False)]" "outbox ?w = []" by (simp_all add: tester_asks_def)
  with pass_serves [OF this(1) m'(1)] obtain w' where
    w': "name_pass ser (m, ?w) = Some (m', w')"
      "outbox w' = frames_out [(ser (known_names k), if k < 256 then cluster_name k else [])]" by auto
  let ?v = "tester_asks \<lparr>inbox = \<lambda>_. [], outbox = []\<rparr>" and ?sub = "if k < 256 then cluster_name k else []"
  have "inbox (carried w' ?v) = (\<lambda>_. [])(Tester_req := [(ser (known_names k), False)], Tester_sub := [(?sub, False)])"
    by (simp add: carried_def w' frames_out_def tester_asks_def)
  then obtain c where c: "tester_pass parse \<lparr>tester_sockets = carried w' ?v, tester_shown = []\<rparr> = Some c"
      "tester_shown c = map (\<lambda>n. ''RES: '' @ n) (known_names k) @ [''SUB: '' @ ?sub]"
    using assms(2) by (simp add: tester_pass_def readable_def canna_recv_def)
  show ?thesis using w'(1) c m'(2) by (intro exI [of _ "(m', w')"] exI [of _ c]) simp
qed

theorem name_test_shows_witness:
  "\<exists>st c. name_pass mark_ser (\<lambda>_. None, arrive Responder [''cluster''] \<lparr>inbox = \<lambda>_. [], outbox = []\<rparr>) = Some st \<and>
     tester_pass (mark_parse []) \<lparr>tester_sockets = carried (snd st) (tester_asks \<lparr>inbox = \<lambda>_. [], outbox = []\<rparr>), tester_shown = []\<rparr> = Some c \<and>
     tester_shown c = [''RES: '' @ cluster_name 0, ''SUB: '' @ cluster_name 0]"
proof -
  have "name_rep (\<lambda>_. None) (counted 0)" using name_rep_empty by (simp add: counted_def fun_upd_def)
  from name_test_shows [OF this, of "mark_parse []" mark_ser] show ?thesis
    by (auto simp: mark_codec known_names_def tester_asks_def)
qed

section \<open>The address book\<close>

datatype phone_type = MOBILE | HOME | WORK

record phone_number =
  phone :: string
  phone_kind :: phone_type

record person =
  person_name :: string
  person_id :: int
  email :: "string option"
  phones :: "phone_number list"

text \<open>The loops count through the repeated fields; a missing type has the default of the protocol file, HOME.\<close>

definition phone_line :: "phone_number \<Rightarrow> string" where
  "phone_line p =
     (case phone_kind p of MOBILE \<Rightarrow> ''Mobile phone #: '' | HOME \<Rightarrow> ''Home phone #: '' | WORK \<Rightarrow> ''Work phone #: '') @ phone p"

fun phone_loop :: "phone_number list \<Rightarrow> nat \<Rightarrow> nat \<Rightarrow> string list" where
  "phone_loop ps j 0 = []"
| "phone_loop ps j (Suc n) = phone_line (ps ! j) # phone_loop ps (Suc j) n"

definition show_int :: "int \<Rightarrow> string" where
  "show_int i = (if i < 0 then ''-'' else []) @ radix False 10 (nat \<bar>i\<bar>)"

fun person_loop :: "person list \<Rightarrow> nat \<Rightarrow> nat \<Rightarrow> string list" where
  "person_loop ps i 0 = []"
| "person_loop ps i (Suc n) =
     (let p = ps ! i in
      [''Person ID: '' @ show_int (person_id p), ''Name: '' @ person_name p] @
      (case email p of None \<Rightarrow> [] | Some e \<Rightarrow> [''E-mail address: '' @ e]) @
      phone_loop (phones p) 0 (length (phones p)) @ person_loop ps (Suc i) n)"

definition ListPeople :: "person list \<Rightarrow> string list" where
  "ListPeople address_book = person_loop address_book 0 (length address_book)"

text \<open>The lines printed, those on the error stream, and the exit code. The file is what protobuf parses of it.\<close>

definition proto_main :: "string list \<Rightarrow> (string \<Rightarrow> person list option) \<Rightarrow> string list \<times> string list \<times> int" where
  "proto_main argv input =
     (if length argv \<noteq> 2 then ([], [''usage: '' @ argv ! 0 @ '' ADDRESS_BOOK_FILE''], - 1)
      else case input (argv ! 1) of
          None \<Rightarrow> ([], [''failed to parse address book.''], - 1)
        | Some address_book \<Rightarrow> (ListPeople address_book, [], 0))"

lemma phone_loop_drop: "j + n = length ps \<Longrightarrow> phone_loop ps j n = map phone_line (drop j ps)"
  by (induction ps j n rule: phone_loop.induct) (simp_all add: Cons_nth_drop_Suc [symmetric])

definition entry :: "person \<Rightarrow> string list" where
  "entry p =
     [''Person ID: '' @ show_int (person_id p), ''Name: '' @ person_name p] @
     map (\<lambda>e. ''E-mail address: '' @ e) (case email p of None \<Rightarrow> [] | Some e \<Rightarrow> [e]) @ map phone_line (phones p)"

lemma person_loop_drop: "i + n = length ps \<Longrightarrow> person_loop ps i n = concat (map entry (drop i ps))"
proof (induction ps i n rule: person_loop.induct)
  case (2 ps i n)
  then have "drop i ps = ps ! i # drop (Suc i) ps" by (simp add: Cons_nth_drop_Suc)
  with 2 show ?case by (auto simp: entry_def phone_loop_drop Let_def split: option.split)
qed simp

text \<open>
  The entries are printed one after the other, each person with the phones in their order; without
  exactly one argument, or with a file that is not an address book, nothing is.
\<close>

theorem address_book_listed:
  "proto_main argv input =
     (case argv of
        [prog, path] \<Rightarrow> (case input path of
            None \<Rightarrow> ([], [''failed to parse address book.''], - 1)
          | Some book \<Rightarrow> (concat (map entry book), [], 0))
      | _ \<Rightarrow> ([], [''usage: '' @ argv ! 0 @ '' ADDRESS_BOOK_FILE''], - 1))"
  by (auto simp: proto_main_def ListPeople_def person_loop_drop split: list.split option.split)

end
