(* ===== verification/Socket_Descriptors.thy ===== *)
theory Socket_Descriptors
  imports Socket_Theorems
begin

text \<open>
  Who owns the file descriptors of the gate server. Over the calls made so far, a descriptor is open from the call
  that returned it to the call that closes it. In every run the descriptors of sockets in use are open and
  pairwise different, as are those still on their way through the control pipe, so none is closed twice or used after
  it was closed; and a descriptor lent to the server with \<open>server_bind\<close> is never closed.
\<close>

section \<open>Descriptors over the calls made\<close>

fun gives :: "call \<Rightarrow> reply \<Rightarrow> int set" where
  "gives (Socket fam ty pr) r = (if 0 \<le> ret r then {ret r} else {})"
| "gives (Accept f) r = (if 0 \<le> ret r then {ret r} else {})"
| "gives c r = {}"

fun closes :: "call \<Rightarrow> int set" where
  "closes (Close f) = {f}"
| "closes c = {}"

text \<open>The descriptors a call works on, apart from closing them and from the control pipe.\<close>

fun touches :: "call \<Rightarrow> int set" where
  "touches (Epoll_add e f p fl) = {f}"
| "touches (Epoll_mod e f p fl) = {f}"
| "touches (Epoll_del e f) = {f}"
| "touches (Read_heap f p n) = {f}"
| "touches (Write_mem f p n) = {f}"
| "touches (Bind f a) = {f}"
| "touches (Listen f n) = {f}"
| "touches (Accept f) = {f}"
| "touches (Connect f a) = {f}"
| "touches (Set_reuse f) = {f}"
| "touches (Set_keepalive f) = {f}"
| "touches (Set_tcp_option f w v) = {f}"
| "touches (Get_so_error f) = {f}"
| "touches (Getpeername f) = {f}"
| "touches (Fcntl_getfl f) = {f}"
| "touches (Fcntl_setfl f v) = {f}"
| "touches c = {}"

text \<open>Calls newest first; the list itself is oldest first.\<close>

fun open_after :: "os \<Rightarrow> call list \<Rightarrow> int set" where
  "open_after os [] = {}"
| "open_after os (c # tr) = (open_after os tr - closes c) \<union> gives c (os (rev tr) c)"

definition open_fds :: "os \<Rightarrow> call list \<Rightarrow> int set" where
  "open_fds os tr = open_after os (rev tr)"

lemma open_fds_simps [simp]:
  "open_fds os [] = {}"
  "open_fds os (tr @ [c]) = (open_fds os tr - closes c) \<union> gives c (os tr c)"
  by (simp_all add: open_fds_def)

text \<open>
  \<open>own\<close> are descriptors from elsewhere: those lent to the server and the reading end of its control pipe. A call is
  in order when it closes only what is open and works only on what is open or in \<open>own\<close>.
\<close>

fun tidy_after :: "os \<Rightarrow> int set \<Rightarrow> call list \<Rightarrow> bool" where
  "tidy_after os own [] = True"
| "tidy_after os own (c # tr) \<longleftrightarrow> tidy_after os own tr \<and>
     closes c \<subseteq> open_after os tr \<and> touches c \<subseteq> open_after os tr \<union> own"

definition tidy :: "os \<Rightarrow> int set \<Rightarrow> call list \<Rightarrow> bool" where
  "tidy os own tr = tidy_after os own (rev tr)"

lemma tidy_simps [simp]:
  "tidy os own []"
  "tidy os own (tr @ [c]) \<longleftrightarrow> tidy os own tr \<and> closes c \<subseteq> open_fds os tr \<and> touches c \<subseteq> open_fds os tr \<union> own"
  by (simp_all add: tidy_def open_fds_def)

lemma tidy_nth:
  assumes "tidy os own tr" and "i < length tr"
  shows "closes (tr ! i) \<subseteq> open_fds os (take i tr) \<and> touches (tr ! i) \<subseteq> open_fds os (take i tr) \<union> own"
  using assms
proof (induction tr rule: rev_induct)
  case (snoc c tr)
  then show ?case by (cases "i = length tr") (auto simp: nth_append)
qed simp

text \<open>What the operating system promises: it returns only descriptors that are neither open nor from elsewhere.\<close>

definition fd_law :: "os \<Rightarrow> int set \<Rightarrow> bool" where
  "fd_law os own \<longleftrightarrow> (\<forall>tr c. \<forall>f \<in> gives c (os tr c). f \<notin> open_fds os tr \<and> f \<notin> own \<and> int32 f)"

lemma own_stays:
  assumes "fd_law os own"
  shows "open_fds os tr \<inter> own = {}"
proof (induction tr rule: rev_induct)
  case (snoc c tr)
  with assms show ?case by (auto simp: fd_law_def)
qed simp

text \<open>The control pipe is reported readable only when there is something in it.\<close>

definition select_law :: "os \<Rightarrow> int \<Rightarrow> int \<Rightarrow> bool" where
  "select_law os w r \<longleftrightarrow> (\<forall>tr. ret (os tr (Select r)) = 1 \<longrightarrow> pipe_bytes w r tr \<noteq> [])"

section \<open>The invariant\<close>

text \<open>
  A slot owns its descriptor in every type but the free and the reserved one, and the one of lent descriptors. A reserved slot
  has none, which the code writes as -1, so this number counts as from elsewhere. \<open>F\<close> are
  the descriptors in nobody's slot yet, \<open>q\<close> the bytes in the control pipe.
\<close>

definition owns_fd :: "u16 \<Rightarrow> bool" where
  "owns_fd t \<longleftrightarrow> t \<noteq> SOCKET_TYPE_INVALID \<and> t \<noteq> SOCKET_TYPE_RESERVE \<and> t \<noteq> SOCKET_TYPE_BIND"

lemma owns_fd_simps [simp]:
  "\<not> owns_fd SOCKET_TYPE_INVALID" "\<not> owns_fd SOCKET_TYPE_RESERVE" "\<not> owns_fd SOCKET_TYPE_BIND"
  "owns_fd SOCKET_TYPE_PLISTEN" "owns_fd SOCKET_TYPE_LISTEN" "owns_fd SOCKET_TYPE_CONNECTING"
  "owns_fd SOCKET_TYPE_CONNECTED" "owns_fd SOCKET_TYPE_PACCEPT" "owns_fd SOCKET_TYPE_HALFCLOSE"
  by (simp_all add: owns_fd_def)

definition owners :: "server \<Rightarrow> nat set" where
  "owners st = {k. k < MAX_SOCKET \<and> owns_fd (sock_type (slot st k))}"

definition fds_ok :: "os \<Rightarrow> int set \<Rightarrow> byte list \<Rightarrow> int set \<Rightarrow> server \<Rightarrow> bool" where
  "fds_ok os own q F st \<longleftrightarrow>
     tidy os own (trace st) \<and> server_pipe os st \<and> select_law os (sendctrl_fd st) (recvctrl_fd st) \<and> waiting_bytes st = q \<and> F \<subseteq> open_fds os (trace st) \<and>
     inj_on (\<lambda>k. fd (slot st k)) (owners st) \<and>
     (\<forall>k \<in> owners st. fd (slot st k) \<in> open_fds os (trace st) \<and> fd (slot st k) \<notin> F) \<and>
     (\<forall>k < MAX_SOCKET. sock_type (slot st k) = SOCKET_TYPE_BIND \<longrightarrow> fd (slot st k) \<in> own) \<and>
     (\<forall>k < MAX_SOCKET. sock_type (slot st k) = SOCKET_TYPE_RESERVE \<longrightarrow> fd (slot st k) = - 1) \<and> - 1 \<in> own"

lemma fds_fewer: "fds_ok os own q F st \<Longrightarrow> G \<subseteq> F \<Longrightarrow> fds_ok os own q G st"
  by (auto simp: fds_ok_def)

lemma fds_same:
  "fds_ok os own q F st \<Longrightarrow> slot st' = slot st \<Longrightarrow> trace st' = trace st \<Longrightarrow> sendctrl_fd st' = sendctrl_fd st \<Longrightarrow>
   recvctrl_fd st' = recvctrl_fd st \<Longrightarrow> fds_ok os own q F st'"
  by (simp add: fds_ok_def owners_def)

text \<open>A call that returns and closes nothing, on descriptors it may be made on.\<close>

fun plain :: "call \<Rightarrow> bool" where
  "plain (Socket fam ty pr) = False"
| "plain (Accept f) = False"
| "plain (Close f) = False"
| "plain (Write f m) = False"
| "plain (Read f n) = False"
| "plain c = True"

lemma plain_simps: "plain c \<Longrightarrow> gives c r = {}" "plain c \<Longrightarrow> closes c = {}" "plain c \<Longrightarrow> pipe_step w f q c = q"
  by (cases c; simp)+

lemma fds_emit:
  "fds_ok os own q F st \<Longrightarrow> plain c \<Longrightarrow> touches c \<subseteq> open_fds os (trace st) \<union> own \<Longrightarrow> fds_ok os own q F (emit c st)"
  by (simp add: fds_ok_def owners_def plain_simps)

lemma fds_pipe:
  "fds_ok os own q F st \<Longrightarrow> fds_ok os own (waiting_bytes (emit (Read f n) st)) F (emit (Read f n) st)"
  "fds_ok os own q F st \<Longrightarrow> fds_ok os own (waiting_bytes (emit (Write f m) st)) F (emit (Write f m) st)"
  by (simp_all add: fds_ok_def owners_def)

lemma fds_close: "fds_ok os own q F st \<Longrightarrow> f \<in> F \<Longrightarrow> fds_ok os own q (F - {f}) (emit (Close f) st)"
  by (auto simp: fds_ok_def owners_def)

lemma fds_given:
  assumes "fds_ok os own q F st" and "fd_law os own" and "closes c = {}" and "pipe_step (sendctrl_fd st) (recvctrl_fd st) q c = q"
    and "touches c \<subseteq> open_fds os (trace st) \<union> own"
  shows "fds_ok os own q (F \<union> gives c (os (trace st) c)) (emit c st)" and "F \<inter> gives c (os (trace st) c) = {}"
proof -
  have new: "f \<notin> open_fds os (trace st)" if "f \<in> gives c (os (trace st) c)" for f
    using assms(2) that by (simp add: fd_law_def)
  show "fds_ok os own q (F \<union> gives c (os (trace st) c)) (emit c st)" "F \<inter> gives c (os (trace st) c) = {}"
    using assms(1,3-) new by (auto simp: fds_ok_def owners_def)
qed

lemma fds_slot:
  assumes "fds_ok os own q F st"
    and "owns_fd (sock_type (g (slot st k))) \<Longrightarrow> owns_fd (sock_type (slot st k)) \<and> fd (g (slot st k)) = fd (slot st k)"
    and "sock_type (g (slot st k)) = SOCKET_TYPE_BIND \<Longrightarrow> k < MAX_SOCKET \<Longrightarrow> fd (g (slot st k)) \<in> own"
    and "sock_type (g (slot st k)) = SOCKET_TYPE_RESERVE \<Longrightarrow> k < MAX_SOCKET \<Longrightarrow> fd (g (slot st k)) = - 1"
  shows "fds_ok os own q F (set_slot k g st)"
proof -
  have sub: "owners (set_slot k g st) \<subseteq> owners st" using assms(2) by (auto simp: owners_def split: if_splits)
  have same: "fd (slot (set_slot k g st) l) = fd (slot st l)" if "l \<in> owners (set_slot k g st)" for l
    using assms(2) that by (auto simp: owners_def)
  have "inj_on (\<lambda>k. fd (slot st k)) (owners (set_slot k g st))"
    using assms(1) inj_on_subset [OF _ sub] by (auto simp: fds_ok_def)
  then have "inj_on (\<lambda>l. fd (slot (set_slot k g st) l)) (owners (set_slot k g st))"
    using same by (simp cong: inj_on_cong)
  moreover have "fd (slot (set_slot k g st) l) \<in> open_fds os (trace st) \<and> fd (slot (set_slot k g st) l) \<notin> F"
    if "l \<in> owners (set_slot k g st)" for l
    using assms(1) sub that unfolding same [OF that] by (auto simp: fds_ok_def)
  ultimately show ?thesis using assms(1,3,4) by (auto simp: fds_ok_def)
qed

lemma fds_drop:
  assumes "fds_ok os own q F st" and "k \<in> owners st"
  shows "fds_ok os own q (insert (fd (slot st k)) F) (set_type k SOCKET_TYPE_INVALID st)"
proof -
  have o: "owners (set_type k SOCKET_TYPE_INVALID st) = owners st - {k}" by (auto simp: owners_def set_type_def)
  have f: "fd (slot (set_type k SOCKET_TYPE_INVALID st) l) = fd (slot st l)" for l by (simp add: set_type_def)
  have "inj_on (\<lambda>k. fd (slot st k)) (owners st - {k})" using assms(1) by (auto simp: fds_ok_def intro: inj_on_diff)
  moreover have "fd (slot st l) \<noteq> fd (slot st k)" if "l \<in> owners st - {k}" for l
    using assms that by (auto simp: fds_ok_def inj_on_def)
  ultimately show ?thesis using assms unfolding fds_ok_def o f by (auto simp: set_type_def)
qed

text \<open>A reserved slot is given a descriptor.\<close>

lemma fds_take:
  assumes "fds_ok os own q F st" and "k < MAX_SOCKET" and "sock_type (slot st k) = SOCKET_TYPE_RESERVE"
    and "fd (g (slot st k)) \<in> F" and "owns_fd ty"
  shows "fds_ok os own q (F - {fd (g (slot st k))}) (set_type k ty (set_slot k g st))"
proof -
  let ?t = "set_type k ty (set_slot k g st)"
  have o: "owners ?t = insert k (owners st)" "k \<notin> owners st"
    using assms(2,3,5) by (auto simp: owners_def set_type_def)
  have f: "fd (slot ?t l) = (if l = k then fd (g (slot st k)) else fd (slot st l))" for l by (simp add: set_type_def)
  have old: "fd (slot ?t l) = fd (slot st l)" "fd (slot st l) \<noteq> fd (g (slot st k))" if "l \<in> owners st" for l
    using assms(1,4) o(2) that by (auto simp: fds_ok_def f)
  have "inj_on (\<lambda>l. fd (slot ?t l)) (owners st)"
    using assms(1) inj_on_cong [of "owners st" "\<lambda>l. fd (slot ?t l)" "\<lambda>l. fd (slot st l)"] old(1) by (simp add: fds_ok_def)
  moreover have "fd (slot ?t k) \<notin> (\<lambda>l. fd (slot ?t l)) ` (owners st - {k})"
    using old by (auto simp: f) metis
  ultimately have inj: "inj_on (\<lambda>l. fd (slot ?t l)) (owners ?t)" by (simp add: o)
  have rest: "fd (slot ?t l) \<in> open_fds os (trace st) \<and> fd (slot ?t l) \<notin> F - {fd (g (slot st k))}" if "l \<in> owners ?t" for l
  proof (cases "l = k")
    case True
    then show ?thesis using assms(1,4) by (auto simp: f fds_ok_def)
  next
    case False
    then show ?thesis using assms(1) that by (auto simp: o f fds_ok_def)
  qed
  have types: "sock_type (slot ?t l) = (if l = k then ty else sock_type (slot st l))" for l by (simp add: set_type_def)
  have tr: "trace ?t = trace st" "waiting_bytes ?t = waiting_bytes st" by (simp_all add: set_type_def)
  have ty: "ty \<noteq> SOCKET_TYPE_BIND" "ty \<noteq> SOCKET_TYPE_RESERVE" using assms(5) by (simp_all add: owns_fd_def)
  show ?thesis
    using assms(1) inj rest ty unfolding fds_ok_def tr types by (auto simp: f split: if_splits)
qed

section \<open>The state operations\<close>

named_theorems fd_intros "rules that carry fds_ok through the state operations"

lemma fds_usable:
  "fds_ok os own q F st \<Longrightarrow> k < MAX_SOCKET \<Longrightarrow> sock_type (slot st k) \<noteq> SOCKET_TYPE_INVALID \<Longrightarrow>
   fd (slot st k) \<in> open_fds os (trace st) \<union> own"
  by (cases "owns_fd (sock_type (slot st k))") (auto simp: fds_ok_def owners_def owns_fd_def)

lemma fds_in_flight: "fds_ok os own q F st \<Longrightarrow> f \<in> F \<Longrightarrow> f \<in> open_fds os (trace st) \<union> own"
  by (auto simp: fds_ok_def)

lemma fds_clear [fd_intros]: "fds_ok os own q F st \<Longrightarrow> fds_ok os own q F (set_type k SOCKET_TYPE_INVALID st)"
  unfolding set_type_def by (rule fds_slot) simp_all

lemma fds_retype:
  "fds_ok os own q F st \<Longrightarrow> owns_fd (sock_type (slot st k)) \<Longrightarrow> owns_fd ty \<Longrightarrow> fds_ok os own q F (set_type k ty st)"
  unfolding set_type_def by (rule fds_slot) (auto simp: owns_fd_def)

lemma fds_set_opaque [fd_intros]: "fds_ok os own q F st \<Longrightarrow> fds_ok os own q F (set_slot k (\<lambda>s. s\<lparr>opaque := x\<rparr>) st)"
  by (rule fds_slot) (auto simp: fds_ok_def)

lemma fds_set_size [fd_intros]: "fds_ok os own q F st \<Longrightarrow> fds_ok os own q F (set_slot k (\<lambda>s. s\<lparr>rd_size := x\<rparr>) st)"
  by (rule fds_slot) (auto simp: fds_ok_def)

lemma fds_set_lists: "fds_ok os own q F st \<Longrightarrow> fds_ok os own q F (set_slot k (\<lambda>s. s\<lparr>high := [], low := []\<rparr>) st)"
  by (rule fds_slot) (auto simp: fds_ok_def)

lemma fds_buffer [fd_intros]: "fds_ok os own q F st \<Longrightarrow> fds_ok os own q F (st\<lparr>buffer := t\<rparr>)"
  by (rule fds_same) simp_all

lemma fds_quiet [fd_intros]:
  "fds_ok os own q F st \<Longrightarrow> plain c \<Longrightarrow> touches c = {} \<Longrightarrow> fds_ok os own q F (emit c st)"
  by (simp add: fds_emit)

lemma fds_name_peer [fd_intros]: "fds_ok os own q F st \<Longrightarrow> fds_ok os own q F (snd (name_peer os a st))"
  by (simp add: name_peer_def sys_split Let_def fd_intros)

text \<open>Calls on a descriptor that may be used.\<close>

lemma fds_calls:
  assumes "fds_ok os own q F st" and "f \<in> open_fds os (trace st) \<union> own"
  shows "fds_ok os own q F (ep_write f p b st)" and "fds_ok os own q F (ep_del f st)"
    and "fds_ok os own q F (snd (ep_add os f p st))" and "fds_ok os own q F (keepalive f st)"
    and "fds_ok os own q F (nonblocking os f st)" and "fds_ok os own q F (emit (Write_mem f a n) st)"
    and "fds_ok os own q F (emit (Read_heap f a n) st)" and "fds_ok os own q F (emit (Get_so_error f) st)"
    and "fds_ok os own q F (emit (Getpeername f) st)" and "fds_ok os own q F (emit (Connect f ad) st)"
    and "fds_ok os own q F (emit (Set_tcp_option f w v) st)" and "fds_ok os own q F (emit (Set_reuse f) st)"
    and "fds_ok os own q F (emit (Bind f ad) st)" and "fds_ok os own q F (emit (Listen f b') st)"
  using assms fds_emit [OF assms(1)] fds_emit [OF fds_emit [OF assms(1), of "Fcntl_getfl f"]]
  by (simp_all add: ep_write_def ep_del_def ep_add_def keepalive_def nonblocking_def sys_split Let_def)

lemma fds_accept:
  assumes "fds_ok os own q F st" and "fd_law os own" and "f \<in> open_fds os (trace st) \<union> own"
    and "r = os (trace st) (Accept f)" and "0 \<le> ret r"
  shows "fds_ok os own q (insert (ret r) F) (emit (Accept f) st)" and "ret r \<notin> F"
  using fds_given [OF assms(1,2), of "Accept f"] assms(3-) by simp_all

lemma fds_accept_fails:
  "fds_ok os own q F st \<Longrightarrow> f \<in> open_fds os (trace st) \<union> own \<Longrightarrow> ret (os (trace st) (Accept f)) < 0 \<Longrightarrow>
   fds_ok os own q F (emit (Accept f) st)"
  by (simp add: fds_ok_def owners_def)

lemma fds_socket:
  assumes "fds_ok os own q F st" and "fd_law os own" and "r = os (trace st) (Socket fam ty pr)"
  shows "0 \<le> ret r \<Longrightarrow> fds_ok os own q (insert (ret r) F) (emit (Socket fam ty pr) st)" and "0 \<le> ret r \<Longrightarrow> ret r \<notin> F"
    and "ret r < 0 \<Longrightarrow> fds_ok os own q F (emit (Socket fam ty pr) st)"
  using fds_given [OF assms(1,2), of "Socket fam ty pr"] assms(3) by simp_all

lemma fds_reserve:
  assumes "fds_ok os own q F st" and "srv_ok st"
  shows "fds_ok os own q F (snd (reserve_id st))"
proof -
  have al: "alloc_ok st" using assms(2) by (simp add: srv_ok_def)
  have same: "fds_ok os own q F (st\<lparr>alloc_id := a\<rparr>)" for a by (rule fds_same [OF assms(1)]) simp_all
  from reserve_id_cases [OF al] consider
      "reserve_id st = (- 1, st\<lparr>alloc_id := later_id (alloc_id st) MAX_SOCKET\<rparr>)"
    | i where "reserve_id st = (i, reserved i st)" "free_slot st (HASH_ID i)" by blast
  then show ?thesis
  proof cases
    case 1
    then show ?thesis using same by simp
  next
    case 2
    have "fds_ok os own q F (set_slot (HASH_ID i) (\<lambda>s. s\<lparr>sock_type := SOCKET_TYPE_RESERVE, sock_id := i, fd := - 1\<rparr>) (st\<lparr>alloc_id := i\<rparr>))"
      by (rule fds_slot [OF same]) simp_all
    then show ?thesis by (rule fds_same) (simp_all add: 2(1) reserved_slot reserved_def fun_eq_iff)
  qed
qed

text \<open>
  A new socket is complete with its type: then the slot has the descriptor, or the lent one.
\<close>

lemma fds_new_socket:
  assumes "fds_ok os own q F st" and "new_socket os i f pr opq add st = Some (res, st')"
    and "add \<Longrightarrow> f \<in> open_fds os (trace st) \<union> own"
  shows "res = None \<Longrightarrow> fds_ok os own q F st'"
    and "res = Some k \<Longrightarrow> k = HASH_ID i \<and> fd (slot st' k) = f \<and>
      (\<forall>ty. owns_fd ty \<and> f \<in> F \<longrightarrow> fds_ok os own q (F - {f}) (set_type k ty st')) \<and>
      (f \<in> own \<longrightarrow> fds_ok os own q F (set_type k SOCKET_TYPE_BIND st'))"
proof -
  let ?k = "HASH_ID i" and ?g = "\<lambda>s. s\<lparr>sock_id := i, fd := f, protocol := pr, opaque := opq\<rparr>"
  define t where "t = (if add then snd (ep_add os f (Some (HASH_ID i)) st) else st)"
  have t: "fds_ok os own q F t" "slot t = slot st"
    using assms(1) fds_calls(3) [OF assms(1) assms(3), of "Some (HASH_ID i)"] by (simp_all add: t_def)
  have type: "sock_type (slot t ?k) = SOCKET_TYPE_RESERVE"
    and st': "st' = (case res of None \<Rightarrow> set_type ?k SOCKET_TYPE_INVALID t | Some k \<Rightarrow> set_slot ?k ?g t)" "res = None \<or> res = Some ?k"
    using assms(2) by (auto simp: new_socket_def Let_def case_prod_beta t_def set_type_def split: if_splits)
  show "fds_ok os own q F st'" if "res = None" using t(1) that by (simp add: st'(1) fds_clear)
  assume res: "res = Some k"
  then have k: "k = ?k" "st' = set_slot ?k ?g t" using st' by auto
  have "fds_ok os own q (F - {f}) (set_type ?k ty st')" if "owns_fd ty" "f \<in> F" for ty
    using fds_take [OF t(1) HASH_ID_less type, of ?g ty] that by (simp add: k)
  moreover have "fds_ok os own q F (set_type ?k SOCKET_TYPE_BIND st')" if "f \<in> own"
  proof -
    have "fds_ok os own q F (set_slot ?k (\<lambda>s. (?g s)\<lparr>sock_type := SOCKET_TYPE_BIND\<rparr>) t)"
      using that by (intro fds_slot [OF t(1)]) simp_all
    then show ?thesis by (simp add: k set_type_def set_slot_def)
  qed
  ultimately show "k = ?k \<and> fd (slot st' k) = f \<and>
      (\<forall>ty. owns_fd ty \<and> f \<in> F \<longrightarrow> fds_ok os own q (F - {f}) (set_type k ty st')) \<and>
      (f \<in> own \<longrightarrow> fds_ok os own q F (set_type k SOCKET_TYPE_BIND st'))"
    by (simp add: k)
qed

lemma emit_set_type: "emit c (set_type k ty st) = set_type k ty (emit c st)"
  by (simp add: emit_def set_type_def set_slot_def)

lemma fds_force_close:
  assumes "fds_ok os own q F st" and "k < MAX_SOCKET" and "force_close k st m = Some (st', m')"
  shows "fds_ok os own q F st'"
proof (cases "sock_type (slot st k) = SOCKET_TYPE_INVALID")
  case True
  with assms show ?thesis by (simp add: force_close_def Let_def)
next
  case False
  define t where "t = sock_type (slot st k)"
  define f where "f = fd (slot st k)"
  define st1 where "st1 = set_slot k (\<lambda>s. s\<lparr>high := [], low := []\<rparr>) st"
  define st2 where "st2 = (if t \<noteq> SOCKET_TYPE_PACCEPT \<and> t \<noteq> SOCKET_TYPE_PLISTEN then ep_del f st1 else st1)"
  have t: "t \<noteq> SOCKET_TYPE_INVALID" "t \<noteq> SOCKET_TYPE_RESERVE"
    using False assms(3) by (auto simp: t_def force_close_def Let_def split: if_splits)
  have st': "st' = set_type k SOCKET_TYPE_INVALID (if t \<noteq> SOCKET_TYPE_BIND then emit (Close f) st2 else st2)"
    using False t assms(3) by (auto simp: force_close_def Let_def st2_def st1_def t_def f_def)
  have ok1: "fds_ok os own q F st1" unfolding st1_def by (rule fds_set_lists [OF assms(1)])
  have "f \<in> open_fds os (trace st1) \<union> own"
    using fds_usable [OF assms(1,2)] t(1) by (simp add: t_def f_def st1_def)
  from fds_calls(2) [OF ok1 this] ok1 have ok2: "fds_ok os own q F st2" by (simp add: st2_def)
  show ?thesis
  proof (cases "t = SOCKET_TYPE_BIND")
    case True
    with ok2 show ?thesis by (simp add: st' fds_clear)
  next
    case False
    have k: "k \<in> owners st2" "fd (slot st2 k) = f"
      using t False assms(2) by (auto simp: owners_def owns_fd_def st2_def st1_def t_def f_def)
    have "f \<notin> F" using ok2 k by (auto simp: fds_ok_def)
    then have "insert f F - {f} = F" by blast
    with fds_close [OF fds_drop [OF ok2 k(1)], of f] k(2) False show ?thesis
      by (simp add: st' emit_set_type)
  qed
qed

section \<open>Requests\<close>

lemma fds_listen_socket:
  assumes "fds_ok os own q F st" and "l_fd req \<in> F" and "listen_socket os req st m = Some (x, st', m')"
  shows "fds_ok os own q (F - {l_fd req}) st'"
proof -
  obtain s st1 where new: "new_socket os (l_id req) (l_fd req) PROTOCOL_TCP (l_opaque req) False st = Some (s, st1)"
    using assms(3) by (auto simp: listen_socket_def bind_eq_Some_conv)
  then have s: "s = Some (HASH_ID (l_id req))" by (auto simp: new_socket_def Let_def split: if_splits)
  have "st' = set_type (HASH_ID (l_id req)) SOCKET_TYPE_PLISTEN st1" using assms(3) new s by (simp add: listen_socket_def)
  with fds_new_socket(2) [OF assms(1) new _ s] assms(2) show ?thesis by simp
qed

lemma fds_start_socket:
  assumes "fds_ok os own q F st" and "start_socket os req st m = Some (x, st', m')"
  shows "fds_ok os own q F st'"
proof -
  let ?k = "HASH_ID (s_id req)"
  have add: "fds_ok os own q F (snd (ep_add os (fd (slot st ?k)) p st))"
    if "sock_type (slot st ?k) \<noteq> SOCKET_TYPE_INVALID" for p
    by (rule fds_calls(3) [OF assms(1) fds_usable [OF assms(1) HASH_ID_less that]])
  show ?thesis
    using assms(2) assms(1) add
    by (auto simp: start_socket_def Let_def case_prod_beta split: if_splits intro!: fd_intros fds_retype)
qed

lemma fds_bind_socket:
  assumes "fds_ok os own q F st" and "b_fd req \<in> own" and "bind_socket os req st m = Some (x, st', m')"
  shows "fds_ok os own q F st'"
proof -
  obtain s st1 where new: "new_socket os (b_id req) (b_fd req) PROTOCOL_TCP (b_opaque req) True st = Some (s, st1)"
    using assms(3) by (auto simp: bind_socket_def Let_def bind_eq_Some_conv)
  note ok = fds_new_socket [OF assms(1) new]
  show ?thesis
  proof (cases s)
    case None
    with assms(2,3) new ok(1) show ?thesis by (simp add: bind_socket_def Let_def)
  next
    case (Some k)
    have "fds_ok os own q F (set_type k SOCKET_TYPE_BIND st1)" using ok(2) [OF _ Some] assms(2) by blast
    with assms(2) have "fds_ok os own q F (nonblocking os (b_fd req) (set_type k SOCKET_TYPE_BIND st1))"
      by (intro fds_calls(5)) simp_all
    moreover have "nonblocking os f (set_type k ty t) = set_type k ty (nonblocking os f t)" for f ty t
      by (simp add: nonblocking_def sys_split Let_def emit_set_type [symmetric] set_type_def)
    ultimately show ?thesis using assms(3) new Some by (simp add: bind_socket_def Let_def)
  qed
qed

text \<open>The loop over the addresses leaves one descriptor in nobody's slot.\<close>

lemma fds_connect_loop:
  assumes "fd_law os own"
  shows "connect_loop os ais st = Some ((sock, status, ai), st') \<Longrightarrow> fds_ok os own q F st \<Longrightarrow>
    fds_ok os own q (insert sock F) st' \<and> sock \<notin> F"
proof (induction ais arbitrary: st)
  case (Cons a rest)
  define r where "r = os (trace st) (Socket (ai_family a) (ai_socktype a) (ai_protocol a))"
  define st1 where "st1 = emit (Socket (ai_family a) (ai_socktype a) (ai_protocol a)) st"
  note ok1 = fds_socket [OF Cons.prems(2) assms r_def, folded st1_def]
  show ?case
  proof (cases "ret r < 0")
    case True
    with Cons.prems(1) have "connect_loop os rest st1 = Some ((sock, status, ai), st')"
      by (simp add: sys_split r_def st1_def)
    with Cons.IH ok1(3) [OF True] show ?thesis by blast
  next
    case False
    then have new: "fds_ok os own q (insert (ret r) F) st1" "ret r \<notin> F" using ok1 by simp_all
    have use: "ret r \<in> open_fds os (trace t) \<union> own" if "fds_ok os own q (insert (ret r) F) t" for t
      using fds_in_flight [OF that, of "ret r"] by simp
    define st2 where "st2 = nonblocking os (ret r) (keepalive (ret r) st1)"
    have ok2: "fds_ok os own q (insert (ret r) F) st2"
      unfolding st2_def using new(1) by (metis fds_calls(4,5) use)
    define st3 where "st3 = emit (Connect (ret r) (ai_addr a)) st2"
    have ok3: "fds_ok os own q (insert (ret r) F) st3" unfolding st3_def by (rule fds_calls(10) [OF ok2 use [OF ok2]])
    define c where "c = os (trace st2) (Connect (ret r) (ai_addr a))"
    show ?thesis
    proof (cases "ret c \<noteq> 0 \<and> errno c \<noteq> EINPROGRESS")
      case True
      with False Cons.prems(1) have run: "connect_loop os rest (emit (Close (ret r)) st3) = Some ((sock, status, ai), st')"
        by (simp add: sys_split Let_def r_def [symmetric] st1_def [symmetric] st2_def [symmetric] c_def [symmetric]
            st3_def [symmetric])
      have "insert (ret r) F - {ret r} = F" using new(2) by blast
      with fds_close [OF ok3, of "ret r"] have "fds_ok os own q F (emit (Close (ret r)) st3)" by simp
      with Cons.IH [OF run] show ?thesis by blast
    next
      case fine: False
      with False Cons.prems(1) have "sock = ret r" "st' = st3"
        by (auto simp: sys_split Let_def r_def [symmetric] st1_def [symmetric] st2_def [symmetric] c_def [symmetric]
            st3_def [symmetric])
      with ok3 new(2) show ?thesis by simp
    qed
  qed
qed simp

lemma fds_open_socket:
  assumes "fds_ok os own q F st" and "fd_law os own" and "open_socket os req st m = Some (x, st', m')"
  shows "fds_ok os own q F st'"
proof -
  obtain host where host: "o_host req = Some host"
    using assms(3) by (auto simp: open_socket_def Let_def bind_eq_Some_conv)
  define c where "c = Getaddrinfo host (show_int (o_port req)) 1 6"
  have ok0: "fds_ok os own q F (emit c st)" using assms(1) by (auto simp: c_def intro!: fd_intros)
  show ?thesis
  proof (cases "ret (os (trace st) c) \<noteq> 0 \<or> r_addrs (os (trace st) c) = []")
    case True
    with assms(3) host ok0 show ?thesis
      by (auto simp: open_socket_def Let_def sys_split c_def intro!: fd_intros)
  next
    case False
    with assms(3) host obtain sock status ai st1 k st2 where st1:
        "connect_loop os (r_addrs (os (trace st) c)) (emit c st) = Some ((sock, status, ai), st1)"
        "new_socket os (o_id req) sock PROTOCOL_TCP (o_opaque req) True st1 = Some (Some k, st2)"
      by (auto simp: open_socket_def Let_def sys_split c_def bind_eq_Some_conv)
    from fds_connect_loop [OF assms(2) st1(1) ok0]
    have ok1: "fds_ok os own q (insert sock F) st1" and sock: "sock \<notin> F" by simp_all
    have use: "sock \<in> open_fds os (trace st1) \<union> own" using fds_in_flight [OF ok1, of sock] by simp
    note ok2 = fds_new_socket(2) [OF ok1 st1(2) use refl]
    have k: "k < MAX_SOCKET" using ok2 by simp
    have "insert sock F - {sock} = F" using sock by blast
    then have ok3: "fds_ok os own q F (set_type k ty st2)" if "owns_fd ty" for ty
      using ok2 that by auto
    let ?t = "set_type k SOCKET_TYPE_CONNECTING st2"
    have ok4: "fds_ok os own q F ?t" by (rule ok3) simp
    have "fd (slot ?t k) \<in> open_fds os (trace ?t) \<union> own" by (rule fds_usable [OF ok4 k]) (simp add: set_type_def)
    then have "fds_ok os own q F (ep_write (fd (slot ?t k)) (Some k) True ?t)" by (rule fds_calls(1) [OF ok4])
    with assms(3) host False st1 ok3 show ?thesis
      by (auto simp: open_socket_def Let_def sys_split c_def case_prod_beta split: if_splits intro!: fd_intros)
  qed
qed

lemma fds_close_socket:
  assumes "fds_ok os own q F st" and "srv_ok st" and "close_socket os req st m = Some (x, st', m')"
  shows "fds_ok os own q F st'"
  using assms(1,3) slot_empty [OF assms(2) HASH_ID_less]
  by (auto simp: close_socket_def Let_def bind_eq_Some_conv split: if_splits elim!: fds_force_close [rotated 2])

lemma fds_send_socket:
  assumes "fds_ok os own q F st" and "send_socket os req st m = Some (x, st', m')"
  shows "fds_ok os own q F st'"
proof -
  let ?k = "HASH_ID (d_id req)"
  let ?st = "emit (Write_mem (fd (slot st ?k)) (d_buffer req) (d_sz req)) st"
  have ok: "fds_ok os own q F ?st" "fds_ok os own q F (ep_write (fd (slot st ?k)) p b ?st)"
    if "sock_type (slot st ?k) = SOCKET_TYPE_CONNECTED" for p b
  proof -
    have "fd (slot st ?k) \<in> open_fds os (trace st) \<union> own" by (rule fds_usable [OF assms(1) HASH_ID_less]) (simp_all add: that)
    then show ok: "fds_ok os own q F ?st" by (rule fds_calls(6) [OF assms(1)])
    have "fd (slot ?st ?k) \<in> open_fds os (trace ?st) \<union> own" by (rule fds_usable [OF ok HASH_ID_less]) (simp_all add: that)
    then show "fds_ok os own q F (ep_write (fd (slot st ?k)) p b ?st)" using fds_calls(1) [OF ok] by simp
  qed
  show ?thesis
    using assms ok fds_force_close [OF _ HASH_ID_less]
    by (auto simp: send_socket_def Let_def sys_split split: if_splits)
qed

section \<open>Events\<close>

lemma fds_report_connect:
  assumes "fds_ok os own q F st" and "k < MAX_SOCKET" and "sock_type (slot st k) = SOCKET_TYPE_CONNECTING"
    and "report_connect os k st m = Some (x, st', m')"
  shows "fds_ok os own q F st'"
proof -
  let ?f = "fd (slot st k)"
  define st1 where "st1 = emit (Get_so_error ?f) st"
  have "?f \<in> open_fds os (trace st) \<union> own" by (rule fds_usable [OF assms(1,2)]) (simp_all add: assms(3))
  then have ok1: "fds_ok os own q F st1" unfolding st1_def by (rule fds_calls(8) [OF assms(1)])
  show ?thesis
  proof (cases "ret (os (trace st) (Get_so_error ?f)) < 0 \<or> r_value (os (trace st) (Get_so_error ?f)) \<noteq> 0")
    case True
    with assms(4) fds_force_close [OF ok1 assms(2)] show ?thesis
      by (auto simp: report_connect_def sys_split Let_def st1_def)
  next
    case False
    define st2 where "st2 = set_type k SOCKET_TYPE_CONNECTED st1"
    have ok2: "fds_ok os own q F st2"
      unfolding st2_def by (rule fds_retype [OF ok1]) (simp_all add: st1_def assms(3))
    define st3 where "st3 = (if send_buffer_empty (slot st2 k) then ep_write ?f (Some k) False st2 else st2)"
    have f: "fd (slot st2 k) = ?f" "fd (slot st3 k) = ?f" by (simp_all add: st2_def st1_def set_type_def st3_def)
    have use: "?f \<in> open_fds os (trace t) \<union> own" if "fds_ok os own q F t" "slot t = slot st2" for t
      using fds_usable [OF that(1) assms(2)] f(1) by (simp add: that(2)) (simp add: st2_def set_type_def)
    have ok3: "fds_ok os own q F st3" using fds_calls(1) [OF ok2 use [OF ok2 refl]] ok2 by (simp add: st3_def)
    have "slot st3 = slot st2" by (simp add: st3_def)
    then have "fds_ok os own q F (emit (Getpeername ?f) st3)" by (rule fds_calls(9) [OF ok3 use [OF ok3]])
    then have ok5: "fds_ok os own q F (emit (Getpeername ?f) st3)"
        "fds_ok os own q F (snd (name_peer os a (emit (Getpeername ?f) st3)))" for a
      by (simp_all add: fds_name_peer)
    have "\<exists>a. st' = emit (Getpeername ?f) st3 \<or> st' = snd (name_peer os a (emit (Getpeername ?f) st3))"
      using False assms(4) unfolding st3_def st2_def st1_def set_type_def
      by (auto simp: report_connect_def sys_split Let_def set_type_def case_prod_beta split: if_splits)
    with ok5 show ?thesis by blast
  qed
qed

lemma fds_name_client: "name_client os ad st m = (b, st', m') \<Longrightarrow> fds_ok os own q F st \<Longrightarrow> fds_ok os own q F st'"
  by (auto simp: name_client_def sys_split Let_def split: if_splits intro!: fd_intros)

lemma fds_report_accept:
  assumes "fds_ok os own q F st" and "fd_law os own" and "srv_ok st" and "k < MAX_SOCKET"
    and "sock_type (slot st k) = SOCKET_TYPE_LISTEN" and "report_accept os k st m = Some (x, st', m')"
  shows "fds_ok os own q F st'"
proof -
  define r where "r = os (trace st) (Accept (fd (slot st k)))"
  define st1 where "st1 = emit (Accept (fd (slot st k))) st"
  have use: "fd (slot st k) \<in> open_fds os (trace st) \<union> own" by (rule fds_usable [OF assms(1,4)]) (simp_all add: assms(5))
  show ?thesis
  proof (cases "ret r < 0")
    case True
    with assms(6) fds_accept_fails [OF assms(1) use] show ?thesis by (simp add: report_accept_def sys_split r_def)
  next
    case False
    let ?f = "ret r"
    have ok1: "fds_ok os own q (insert ?f F) st1" and f: "?f \<notin> F"
      using fds_accept [OF assms(1,2) use r_def] False by (simp_all add: st1_def)
    have F: "insert ?f F - {?f} = F" using f by blast
    have "srv_ok st1" using assms(3) by (auto simp: st1_def intro!: safe_srv_ok [OF safe_emit] safe_refl)
    define i where "i = fst (reserve_id st1)"
    define st2 where "st2 = snd (reserve_id st1)"
    have ok2: "fds_ok os own q (insert ?f F) st2" unfolding st2_def by (rule fds_reserve [OF ok1 \<open>srv_ok st1\<close>])
    show ?thesis
    proof (cases "sint i < 0")
      case True
      with False assms(6) fds_close [OF ok2, of ?f] F show ?thesis
        by (simp add: report_accept_def sys_split r_def [symmetric] st1_def [symmetric] case_prod_beta i_def st2_def)
    next
      case pos: False
      with False assms(6) have run: "accept_client os k ?f (r_addr r) i st2 m = Some (x, st', m')"
        by (simp add: report_accept_def sys_split r_def [symmetric] st1_def [symmetric] case_prod_beta i_def st2_def)
      have use: "?f \<in> open_fds os (trace t) \<union> own" if "fds_ok os own q (insert ?f F) t" for t
        using fds_in_flight [OF that, of ?f] by simp
      define st3 where "st3 = nonblocking os ?f (keepalive ?f st2)"
      have ok3: "fds_ok os own q (insert ?f F) st3" unfolding st3_def using ok2 by (metis fds_calls(4,5) use)
      obtain ns st4 where new: "new_socket os i ?f PROTOCOL_TCP (opaque (slot st3 k)) False st3 = Some (ns, st4)"
        using run by (auto simp: accept_client_def bind_eq_Some_conv st3_def)
      then have ns: "ns = Some (HASH_ID i)" by (auto simp: new_socket_def Let_def split: if_splits)
      have "fds_ok os own q F (set_type (HASH_ID i) SOCKET_TYPE_PACCEPT st4)"
        using fds_new_socket(2) [OF ok3 new use [OF ok3] ns] F by simp
      with run new ns show ?thesis
        by (auto simp: accept_client_def st3_def Let_def elim!: fds_name_client)
    qed
  qed
qed

lemma fds_forward:
  assumes "fds_ok os own q F st" and "k < MAX_SOCKET" and "sock_type (slot st k) \<noteq> SOCKET_TYPE_INVALID"
    and "forward_message_tcp os k st m = Some (x, st', m')"
  shows "fds_ok os own q F st'"
proof -
  let ?f = "fd (slot st k)"
  define st1 where "st1 = emit (Malloc (rd_size (slot st k))) st"
  have ok1: "fds_ok os own q F st1" unfolding st1_def using assms(1) by (auto intro!: fd_intros)
  have "?f \<in> open_fds os (trace st1) \<union> own" using fds_usable [OF ok1 assms(2)] assms(3) by (simp add: st1_def)
  then have ok2: "fds_ok os own q F (emit (Read_heap ?f a n) st1)" for a n by (rule fds_calls(7) [OF ok1])
  have ok3: "fds_ok os own q F (emit (Free a') (emit (Read_heap ?f a n) st1))" for a a' n by (rule fds_quiet [OF ok2]) simp_all
  show ?thesis
    using assms(4) ok2 ok3 fds_force_close [OF ok3 assms(2)] fds_set_size [OF ok2]
    by (auto simp: forward_message_tcp_def Let_def sys_split st1_def [symmetric] bind_eq_Some_conv split: if_splits)
qed

section \<open>Runs\<close>

text \<open>What is on its way in a request: a descriptor the server has opened, or one lent to it.\<close>

fun listening :: "request list \<Rightarrow> int list" where
  "listening (Listen_req opq i f # rs) = f # listening rs"
| "listening (r # rs) = listening rs"
| "listening [] = []"

fun lent :: "request \<Rightarrow> int set" where
  "lent (Bind_req opq i f) = {f}"
| "lent r = {}"

lemma listening_append [simp]: "listening (rs @ ss) = listening rs @ listening ss"
  by (induction rs rule: listening.induct) simp_all

lemma fds_handle:
  assumes "fds_ok os own q (set (listening (r # rs))) st" and "fd_law os own" and "srv_ok st" and "lent r \<subseteq> own"
    and "distinct (listening (r # rs))" and "handle os r st m = Some (x, st', m')"
  shows "fds_ok os own q (set (listening rs)) st'"
proof (cases r)
  case (Listen_req opq i f)
  then have "set (listening (r # rs)) - {f} = set (listening rs)" using assms(5) by auto
  with fds_listen_socket [OF assms(1), of "\<lparr>l_id = i, l_fd = f, l_opaque = opq\<rparr>"] assms(6) Listen_req show ?thesis by simp
next
  case (Start_req opq i)
  with fds_start_socket assms(1,6) show ?thesis by simp
next
  case (Close_req opq i)
  with fds_close_socket [OF _ assms(3)] assms(1,6) show ?thesis by simp
next
  case (Send_req i b n)
  with fds_send_socket assms(1,6) show ?thesis by simp
next
  case (Bind_req opq i f)
  with fds_bind_socket [of os own q _ st "\<lparr>b_id = i, b_fd = f, b_opaque = opq\<rparr>"] assms(1,4,6) show ?thesis by simp
next
  case (Open_req opq i h p)
  with fds_open_socket [OF _ assms(2)] assms(1,6) show ?thesis by simp
qed (use assms(1,6) in simp)

text \<open>The requests in the pipe and the descriptors with them.\<close>

definition run_fds :: "os \<Rightarrow> int set \<Rightarrow> server \<Rightarrow> bool" where
  "run_fds os own st \<longleftrightarrow> (\<exists>reqs. pipe_holds st reqs \<and> distinct (listening reqs) \<and> (\<forall>r \<in> set reqs. lent r \<subseteq> own) \<and>
     fds_ok os own (waiting_bytes st) (set (listening reqs)) st)"

lemma run_fds_same:
  "run_fds os own st \<Longrightarrow> slot st' = slot st \<Longrightarrow> trace st' = trace st \<Longrightarrow> sendctrl_fd st' = sendctrl_fd st \<Longrightarrow>
   recvctrl_fd st' = recvctrl_fd st \<Longrightarrow> run_fds os own st'"
  by (simp add: run_fds_def pipe_holds_def fds_ok_def owners_def)

lemma run_fds_keeps:
  assumes "run_fds os own st" and "\<And>q F. fds_ok os own q F st \<Longrightarrow> fds_ok os own q F st'"
  shows "run_fds os own st'"
proof -
  obtain reqs where r: "pipe_holds st reqs" "distinct (listening reqs)" "\<forall>r \<in> set reqs. lent r \<subseteq> own"
      "fds_ok os own (waiting_bytes st) (set (listening reqs)) st" using assms(1) by (auto simp: run_fds_def)
  from assms(2) [OF r(4)] have ok: "fds_ok os own (waiting_bytes st) (set (listening reqs)) st'" .
  then have "waiting_bytes st' = waiting_bytes st" by (simp add: fds_ok_def)
  with r ok show ?thesis by (auto simp: run_fds_def pipe_holds_def)
qed

lemma run_fds_post:
  assumes "run_fds os own st" and "is_frame fr req" and "send_loop os fr st = Some st'"
    and "lent req \<subseteq> own" and "listening [req] = []"
  shows "run_fds os own st'"
proof -
  have pipe: "server_pipe os st" using assms(1) by (auto simp: run_fds_def fds_ok_def)
  obtain reqs where r: "pipe_holds st reqs" "distinct (listening reqs)" "\<forall>r \<in> set reqs. lent r \<subseteq> own"
      "fds_ok os own (waiting_bytes st) (set (listening reqs)) st" using assms(1) by (auto simp: run_fds_def)
  have "pipe_holds st' (reqs @ [req])" using pipe_holds_write [OF r(1) assms(2) pipe] assms(3) by simp
  moreover have "fds_ok os own (waiting_bytes st') (set (listening reqs)) st'"
    using fds_pipe(2) [OF r(4), of "sendctrl_fd st" fr] send_loop_pipe [OF pipe, of fr] assms(3) by simp
  ultimately show ?thesis using r(2,3) assms(4,5) unfolding run_fds_def by (intro exI [of _ "reqs @ [req]"]) simp
qed

text \<open>A request on which a descriptor goes, one that the server has just opened.\<close>

lemma run_fds_post_listen:
  assumes "pipe_holds st reqs" and "distinct (f # listening reqs)" and "\<forall>r \<in> set reqs. lent r \<subseteq> own"
    and "fds_ok os own (waiting_bytes st) (insert f (set (listening reqs))) st"
    and "is_frame fr (Listen_req opq i f)" and "send_loop os fr st = Some st'"
  shows "run_fds os own st'"
proof -
  have pipe: "server_pipe os st" using assms(4) by (auto simp: fds_ok_def)
  have "pipe_holds st' (reqs @ [Listen_req opq i f])" using pipe_holds_write [OF assms(1,5) pipe] assms(6) by simp
  moreover have "fds_ok os own (waiting_bytes st') (insert f (set (listening reqs))) st'"
    using fds_pipe(2) [OF assms(4), of "sendctrl_fd st" fr] send_loop_pipe [OF pipe, of fr] assms(6) by simp
  ultimately show ?thesis using assms(2,3) unfolding run_fds_def by (intro exI [of _ "reqs @ [Listen_req opq i f]"]) simp
qed

lemma pipe_holds_bytes: "waiting_bytes st' = waiting_bytes st \<Longrightarrow> pipe_holds st' reqs = pipe_holds st reqs"
  by (simp add: pipe_holds_def)

section \<open>A turn of the polling thread\<close>

lemma clear_closed_same:
  "slot (clear_closed_event m ty st) = slot st" "trace (clear_closed_event m ty st) = trace st"
  "sendctrl_fd (clear_closed_event m ty st) = sendctrl_fd st" "recvctrl_fd (clear_closed_event m ty st) = recvctrl_fd st"
proof -
  define F where "F = (\<lambda>js st. fold (\<lambda>j st. st\<lparr>ev := (ev st)[j := clear_event st (msg_id m) (ev st ! j)]\<rparr>) js st)"
  have "slot (F js st) = slot st \<and> trace (F js st) = trace st \<and> sendctrl_fd (F js st) = sendctrl_fd st \<and>
      recvctrl_fd (F js st) = recvctrl_fd st" for js
    unfolding F_def by (induction js arbitrary: st) simp_all
  then show "slot (clear_closed_event m ty st) = slot st" "trace (clear_closed_event m ty st) = trace st"
      "sendctrl_fd (clear_closed_event m ty st) = sendctrl_fd st" "recvctrl_fd (clear_closed_event m ty st) = recvctrl_fd st"
    by (simp_all add: clear_closed_event_def F_def)
qed

lemma fds_clear_closed: "fds_ok os own q F st \<Longrightarrow> fds_ok os own q F (clear_closed_event m ty st)"
  by (rule fds_same) (simp_all add: clear_closed_same)

lemma fds_event_turn:
  assumes run: "event_turn os st m mr = Some t" and ok: "srv_ok st" and more: "event_index st < event_n st"
    and fds: "fds_ok os own q F st" and law: "fd_law os own"
  shows "fds_ok os own q F (turn_state t)"
proof -
  define j where "j = event_index st"
  define e where "e = ev st ! j"
  define st1 where "st1 = st\<lparr>event_index := Suc j\<rparr>"
  have "safe st st1" unfolding st1_def j_def by (rule step_index_safe [OF safe_refl [OF ok] more])
  note ok1 = safe_srv_ok [OF this]
  have fds1: "fds_ok os own q F st1" by (rule fds_same [OF fds]) (simp_all add: st1_def)
  note unf = event_turn_def Let_def
  show ?thesis
  proof (cases "ev_s e")
    case None
    with run fds1 show ?thesis by (auto simp: unf j_def e_def st1_def)
  next
    case (Some k)
    then have k: "k < MAX_SOCKET" using ok more by (auto simp: srv_ok_def events_ok_def e_def j_def)
    define ty where "ty = sock_type (slot st1 k)"
    have ty: "sock_type (slot st k) = ty" by (simp add: ty_def st1_def)
    consider "ty = SOCKET_TYPE_CONNECTING" | "ty = SOCKET_TYPE_LISTEN" | "ty = SOCKET_TYPE_INVALID"
      | "ty \<notin> {SOCKET_TYPE_CONNECTING, SOCKET_TYPE_LISTEN, SOCKET_TYPE_INVALID}" by blast
    then show ?thesis
    proof cases
      case 1
      with run Some ty obtain x st2 m2 where "report_connect os k st1 m = Some (x, st2, m2)" "turn_state t = st2"
        by (auto simp: unf j_def e_def st1_def bind_eq_Some_conv)
      with fds_report_connect [OF fds1 k] 1 show ?thesis by (simp add: ty_def)
    next
      case 2
      with run Some ty obtain x st2 m2 where "report_accept os k st1 m = Some (x, st2, m2)" "turn_state t = st2"
        by (auto simp: unf j_def e_def st1_def bind_eq_Some_conv split: if_splits)
      with fds_report_accept [OF fds1 law ok1 k] 2 show ?thesis by (simp add: ty_def)
    next
      case 3
      with run Some ty fds1 show ?thesis by (auto simp: unf j_def e_def st1_def)
    next
      case 4
      show ?thesis
      proof (cases "ev_read e")
        case True
        with 4 run Some ty obtain x st2 m2 where st2:
            "(if protocol (slot st1 k) = PROTOCOL_TCP then forward_message_tcp os k st1 m
              else Some (no_message, st1, m)) = Some (x, st2, m2)"
            "turn_state t = (let st3 = if ev_write e
                then st2\<lparr>ev := (ev st2)[j := e\<lparr>ev_read := False\<rparr>], event_index := j\<rparr> else st2 in
              if x = no_message then st3 else clear_closed_event m2 x st3)"
          by (auto simp: unf j_def e_def st1_def bind_eq_Some_conv split: if_splits)
        have "fds_ok os own q F st2"
          using st2(1) fds1 fds_forward [OF fds1 k] 4 by (auto simp: ty_def split: if_splits)
        moreover have "fds_ok os own q F (st2\<lparr>ev := es, event_index := j\<rparr>)" for es
          by (rule fds_same [OF calculation]) simp_all
        ultimately show ?thesis unfolding st2(2) Let_def by (simp add: fds_clear_closed)
      next
        case False
        have "fd (slot st1 k) \<in> open_fds os (trace st1) \<union> own" by (rule fds_usable [OF fds1 k]) (use 4 in \<open>simp add: ty_def\<close>)
        from fds_calls(1) [OF fds1 this] have w: "fds_ok os own q F (ep_write (fd (slot st1 k)) (Some k) False st1)" .
        have "turn_state t = ep_write (fd (slot st1 k)) (Some k) False st1 \<or> turn_state t = st1"
          using 4 run Some ty False send_buffer_idle [OF ok1 k]
          by (auto simp: unf j_def e_def st1_def [symmetric] st1_def bind_eq_Some_conv split: if_splits)
        with w fds1 show ?thesis by auto
      qed
    qed
  qed
qed

lemma fds_wait_turn:
  assumes law: "epoll_law os" and run: "wait_turn os st m mr = Some t" and ok: "srv_ok st"
    and fds: "fds_ok os own q F st" and fresh: "fd_law os own"
  shows "fds_ok os own q F (turn_state t)"
proof (cases "event_index st = event_n st")
  case True
  obtain n st' where st': "ep_wait os MAX_EVENT st = (n, st')" by (cases "ep_wait os MAX_EVENT st")
  define st2 where "st2 = st'\<lparr>checkctrl := True, event_index := 0, event_n := nat n\<rparr>"
  have "safe st st2" unfolding st2_def by (rule ep_wait_safe [OF law safe_refl [OF ok] st'])
  note ok2 = safe_srv_ok [OF this]
  have "fds_ok os own q F (emit (Epoll_wait (event_fd st) MAX_EVENT) st)" by (rule fds_quiet [OF fds]) simp_all
  then have fds2: "fds_ok os own q F st2"
    by (rule fds_same) (use st' in \<open>auto simp: st2_def ep_wait_def sys_split Let_def\<close>)
  show ?thesis
  proof (cases "n \<le> 0")
    case neg: True
    with run True st' have "turn_state t = st2" by (auto simp: wait_turn_def Let_def st2_def)
    with fds2 show ?thesis by simp
  next
    case False
    with run True st' have "event_turn os st2 m 0 = Some t" by (auto simp: wait_turn_def Let_def st2_def)
    then show ?thesis by (rule fds_event_turn [OF _ ok2 _ fds2 fresh]) (use False in \<open>simp add: st2_def\<close>)
  qed
next
  case False
  with ok have "event_index st < event_n st" by (simp add: srv_ok_def events_ok_def)
  with run False ok fds fresh show ?thesis by (auto simp: wait_turn_def intro: fds_event_turn)
qed

lemma run_fds_ctrl_turn:
  assumes run: "ctrl_turn os stk st m mr = Some t" and ok: "srv_ok st" and fds: "run_fds os own st"
    and law: "fd_law os own" and some: "waiting_bytes st \<noteq> []"
  shows "run_fds os own (turn_state t)"
proof -
  obtain reqs where r: "pipe_holds st reqs" "distinct (listening reqs)" "\<forall>r \<in> set reqs. lent r \<subseteq> own"
      "fds_ok os own (waiting_bytes st) (set (listening reqs)) st" using fds by (auto simp: run_fds_def)
  obtain req rs where reqs: "reqs = req # rs" using r(1) some by (cases reqs) (auto simp: pipe_holds_def)
  have pipe: "server_pipe os st" using r(4) by (simp add: fds_ok_def)
  obtain st1 n where st1: "ctrl_cmd os stk st m = handle os req st1 m" "pipe_holds st1 rs"
      "st1 = st\<lparr>trace := trace st @ [Read (recvctrl_fd st) 2, Read (recvctrl_fd st) n]\<rparr>"
    using pipe_holds_read [OF r(1) [unfolded reqs] pipe, of stk m] by blast
  then have e: "st1 = emit (Read (recvctrl_fd st) n) (emit (Read (recvctrl_fd st) 2) st)" by (simp add: emit_def)
  have "safe st st1" unfolding e by (intro safe_emit safe_refl ok) simp_all
  then have ok1: "srv_ok st1" by (rule safe_srv_ok)
  obtain x st2 m2 where h: "handle os req st1 m = Some (x, st2, m2)"
      "turn_state t = st2 \<or> turn_state t = clear_closed_event m2 x st2"
    using run st1(1) by (auto simp: ctrl_turn_def bind_eq_Some_conv split: if_splits)
  have "fds_ok os own (waiting_bytes st1) (set (listening (req # rs))) st1"
    unfolding e using fds_pipe(1) [OF fds_pipe(1) [OF r(4) [unfolded reqs]]] by blast
  from fds_handle [OF this law ok1 _ _ h(1)] r(2,3) have f: "fds_ok os own (waiting_bytes st1) (set (listening rs)) st2"
    by (simp add: reqs)
  then have f2: "fds_ok os own (waiting_bytes st1) (set (listening rs)) (turn_state t)" using h(2) by (auto intro: fds_clear_closed)
  then have "waiting_bytes (turn_state t) = waiting_bytes st1" by (simp add: fds_ok_def)
  moreover have "distinct (listening rs)" using r(2) by (cases req) (simp_all add: reqs)
  ultimately show ?thesis using st1(2) r(3) f2 pipe_holds_bytes [of "turn_state t" st1 rs]
    unfolding run_fds_def reqs by (intro exI [of _ rs]) simp
qed

lemma run_fds_poll_turn:
  assumes "epoll_law os" and "fd_law os own" and ok: "srv_ok st" and fds: "run_fds os own st"
    and run: "poll_turn os stk st m mr = Some t"
  shows "run_fds os own (turn_state t)"
proof -
  define st1 where "st1 = emit (Select (recvctrl_fd st)) st"
  have s1: "safe st st1" by (simp add: st1_def safe_emit safe_refl [OF ok])
  then have ok1: "srv_ok st1" "srv_ok (st1\<lparr>checkctrl := False\<rparr>)"
    using safe_checkctrl [of st st1 False] by (auto dest: safe_srv_ok)
  have f1: "run_fds os own st1" by (rule run_fds_keeps [OF fds]) (simp add: st1_def fds_quiet)
  have f2: "run_fds os own (st1\<lparr>checkctrl := False\<rparr>)" by (rule run_fds_same [OF f1]) simp_all
  have some: "waiting_bytes st1 \<noteq> []" if "ret (os (trace st) (Select (recvctrl_fd st))) = 1"
    using fds that by (auto simp: run_fds_def fds_ok_def select_law_def st1_def)
  have w: "run_fds os own (turn_state t)" if "wait_turn os a m mr = Some t" "srv_ok a" "run_fds os own a" for a
    by (rule run_fds_keeps [OF that(3)]) (rule fds_wait_turn [OF assms(1) that(1,2) _ assms(2)])
  show ?thesis
    using run run_fds_ctrl_turn [OF _ ok1(1) f1 assms(2) some] w [OF _ ok1(2) f2] w [OF _ ok fds]
    by (auto simp: poll_turn_def has_cmd_def sys_split Let_def st1_def split: if_splits)
qed

section \<open>Requests of other threads\<close>

lemma fds_do_bind:
  assumes "fds_ok os own q F st" and "fd_law os own" and "do_bind os host port pr st = Some (f, st')"
  shows "if f < 0 then fds_ok os own q F st' else fds_ok os own q (insert f F) st' \<and> f \<notin> F \<and> int32 f"
proof -
  define h where "h = (case host of None \<Rightarrow> ''0.0.0.0'' | Some h \<Rightarrow> if h = [] then ''0.0.0.0'' else h)"
  obtain ty where ty: "(if pr = 6 then Some 1 else if pr = 17 then Some 2 else None) = Some (ty :: int)"
    using assms(3) by (auto simp: do_bind_def Let_def bind_eq_Some_conv split: if_splits)
  have run0: "do_bind os host port pr st = (let (r, st) = sys os (Getaddrinfo h (show_int port) ty pr) st in
      if ret r \<noteq> 0 then Some (- 1, st)
      else case r_addrs r of
        [] \<Rightarrow> None
      | ai # rest \<Rightarrow>
          let (f, st) = sys os (Socket (ai_family ai) (ai_socktype ai) 0) st in
          if ret f < 0 then Some (- 1, emit (Freeaddrinfo (ai # rest)) st)
          else let (o1, st) = sys os (Set_reuse (ret f)) st in
            if ret o1 = - 1
            then Some (- 1, emit (Freeaddrinfo (ai # rest)) (emit (Close (ret f)) st))
            else let (b, st) = sys os (Bind (ret f) (ai_addr ai)) st in
              if ret b \<noteq> 0
              then Some (- 1, emit (Freeaddrinfo (ai # rest)) (emit (Close (ret f)) st))
              else Some (ret f, emit (Freeaddrinfo (ai # rest)) st))"
    by (simp only: do_bind_def Let_def h_def [symmetric] ty Option.bind.simps)
  define c where "c = Getaddrinfo h (show_int port) ty pr"
  define st1 where "st1 = emit c st"
  have ok1: "fds_ok os own q F st1" using assms(1) by (simp add: st1_def c_def fds_quiet)
  show ?thesis
  proof (cases "ret (os (trace st) c) \<noteq> 0 \<or> r_addrs (os (trace st) c) = []")
    case True
    with assms(3) ok1 show ?thesis by (auto simp: run0 sys_split c_def [symmetric] st1_def [symmetric] split: if_splits)
  next
    case False
    then obtain ai rest where ai: "r_addrs (os (trace st) c) = ai # rest" by (cases "r_addrs (os (trace st) c)") auto
    define d where "d = Socket (ai_family ai) (ai_socktype ai) 0"
    define g where "g = ret (os (trace st1) d)"
    define st2 where "st2 = emit d st1"
    note s = fds_socket [OF ok1 assms(2), of "os (trace st1) d", unfolded d_def, OF refl, folded d_def, folded g_def st2_def]
    have run: "do_bind os host port pr st =
        (if g < 0 then Some (- 1, emit (Freeaddrinfo (ai # rest)) st2)
         else let (o1, st) = sys os (Set_reuse g) st2 in
            if ret o1 = - 1 then Some (- 1, emit (Freeaddrinfo (ai # rest)) (emit (Close g) st))
            else let (b, st) = sys os (Bind g (ai_addr ai)) st in
              if ret b \<noteq> 0 then Some (- 1, emit (Freeaddrinfo (ai # rest)) (emit (Close g) st))
              else Some (g, emit (Freeaddrinfo (ai # rest)) st))"
      using False ai by (simp add: run0 sys_split c_def [symmetric] st1_def [symmetric] d_def [symmetric] g_def [symmetric] st2_def [symmetric])
    show ?thesis
    proof (cases "g < 0")
      case True
      with run assms(3) s(3) show ?thesis by (auto intro: fds_quiet)
    next
      case neg: False
      then have g: "fds_ok os own q (insert g F) st2" "g \<notin> F" using s by simp_all
      have "g \<in> gives d (os (trace st1) d)" using neg by (simp add: d_def g_def)
      with assms(2) have int: "int32 g" by (simp add: fd_law_def)
      have F: "insert g F - {g} = F" using g(2) by blast
      have use: "g \<in> open_fds os (trace t) \<union> own" if "fds_ok os own q (insert g F) t" for t
        using fds_in_flight [OF that, of g] by simp
      define st3 where "st3 = emit (Set_reuse g) st2"
      have ok3: "fds_ok os own q (insert g F) st3" unfolding st3_def by (rule fds_calls(12) [OF g(1) use [OF g(1)]])
      define st4 where "st4 = emit (Bind g (ai_addr ai)) st3"
      have ok4: "fds_ok os own q (insert g F) st4" unfolding st4_def by (rule fds_calls(13) [OF ok3 use [OF ok3]])
      have closed: "fds_ok os own q F (emit (Freeaddrinfo (ai # rest)) (emit (Close g) t))" if "fds_ok os own q (insert g F) t" for t
        using fds_close [OF that, of g] F by (simp add: fds_quiet)
      show ?thesis
        using run assms(3) neg closed [OF ok3] closed [OF ok4] fds_quiet [OF ok4, of "Freeaddrinfo (ai # rest)"] g(2) int
        by (auto simp: sys_split st3_def [symmetric] st4_def [symmetric] split: if_splits)
    qed
  qed
qed

lemma fds_do_listen:
  assumes "fds_ok os own q F st" and "fd_law os own" and "do_listen os host port b st = Some (f, st')"
  shows "if f < 0 then fds_ok os own q F st' else fds_ok os own q (insert f F) st' \<and> f \<notin> F \<and> int32 f"
proof -
  obtain g st1 where g: "do_bind os host port 6 st = Some (g, st1)"
    using assms(3) by (auto simp: do_listen_def bind_eq_Some_conv)
  note ok = fds_do_bind [OF assms(1,2) g]
  show ?thesis
  proof (cases "g < 0")
    case True
    with ok g assms(3) show ?thesis by (auto simp: do_listen_def)
  next
    case False
    with ok have ok1: "fds_ok os own q (insert g F) st1" "g \<notin> F" "int32 g" by simp_all
    have "g \<in> open_fds os (trace st1) \<union> own" using fds_in_flight [OF ok1(1), of g] by simp
    from fds_calls(14) [OF ok1(1) this] have ok2: "fds_ok os own q (insert g F) (emit (Listen g b) st1)" .
    have "insert g F - {g} = F" using ok1(2) by blast
    with fds_close [OF ok2, of g] have "fds_ok os own q F (emit (Close g) (emit (Listen g b) st1))" by simp
    with False g assms(3) ok1(2,3) ok2 show ?thesis by (auto simp: do_listen_def sys_split split: if_splits)
  qed
qed

lemma run_fds_reserve:
  assumes "run_fds os own st" and "srv_ok st"
  shows "run_fds os own (snd (reserve_id st))"
  by (rule run_fds_keeps [OF assms(1)]) (rule fds_reserve [OF _ assms(2)])

lemma run_fds_send:
  assumes "run_fds os own st" and "length pkg = 520"
  shows "server_start os pkg opq i st = Some st' \<Longrightarrow> run_fds os own st'"
    and "server_close os pkg opq i st = Some st' \<Longrightarrow> run_fds os own st'"
    and "server_exit os pkg st = Some st' \<Longrightarrow> run_fds os own st'"
    and "int32 sz \<Longrightarrow> server_send os pkg i buf sz st = Some (n, st') \<Longrightarrow> run_fds os own st'"
proof -
  note post = run_fds_post [OF assms(1)]
  show "run_fds os own st'" if "server_start os pkg opq i st = Some st'"
    using server_start_frame [OF assms(2), of os opq i st] post that by fastforce
  show "run_fds os own st'" if "server_close os pkg opq i st = Some st'"
    using server_close_frame [OF assms(2), of os opq i st] post that by fastforce
  show "run_fds os own st'" if "server_exit os pkg st = Some st'"
    using server_exit_frame [OF assms(2), of os st] post that by fastforce
  assume sz: "int32 sz" and run: "server_send os pkg i buf sz st = Some (n, st')"
  show "run_fds os own st'"
  proof (cases "sock_id (slot st (HASH_ID i)) = i \<and> sock_type (slot st (HASH_ID i)) \<noteq> SOCKET_TYPE_INVALID")
    case True
    then obtain fr where "server_send os pkg i buf sz st = map_option (\<lambda>st. (wb_size (slot st (HASH_ID i)), st)) (send_loop os fr st)"
        "is_frame fr (Send_req i buf sz)" using server_send_frame [OF assms(2) sz, of st i os buf] by blast
    with run post [of fr "Send_req i buf sz"] show ?thesis by auto
  next
    case False
    with run assms(1) show ?thesis by (auto simp: server_send_def Let_def)
  qed
qed

lemma run_fds_bind:
  assumes "run_fds os own st" and "srv_ok st" and "length pkg = 520" and "int32 f" and "f \<in> own"
    and "server_bind os pkg opq f st = Some (i, st')"
  shows "run_fds os own st'"
proof -
  obtain j st1 where res: "reserve_id st = (j, st1)" by (cases "reserve_id st")
  have ok1: "run_fds os own st1" using run_fds_reserve [OF assms(1,2)] res by simp
  show ?thesis
  proof (cases "sint j < 0")
    case True
    with res ok1 assms(6) show ?thesis by (simp add: server_bind_def)
  next
    case False
    then obtain fr where "server_bind os pkg opq f st = map_option (\<lambda>st. (j, st)) (send_loop os fr st1)"
        "is_frame fr (Bind_req opq j f)" using server_bind_frame [OF assms(3,4) res, of os opq] by auto
    with assms(5,6) run_fds_post [OF ok1, of fr "Bind_req opq j f"] show ?thesis by auto
  qed
qed

lemma run_fds_connect:
  assumes "run_fds os own st" and "srv_ok st" and "length pkg = 520" and "int32 port" and "c_text addr" and "length addr < 232"
    and "server_connect os pkg opq addr port st = Some (i, st')"
  shows "run_fds os own st'"
proof -
  obtain j st1 where res: "reserve_id st = (j, st1)" by (cases "reserve_id st")
  have ok1: "run_fds os own st1" using run_fds_reserve [OF assms(1,2)] res by simp
  show ?thesis
  proof (cases "sint j < 0")
    case True
    with res ok1 assms(6,7) show ?thesis by (simp add: server_connect_def open_request_def)
  next
    case False
    then obtain fr where "server_connect os pkg opq addr port st = map_option (\<lambda>st. (j, st)) (send_loop os fr st1)"
        "is_frame fr (Open_req opq j addr port)" using server_connect_frame [OF assms(3-5) _ res, of os opq] assms(6) by auto
    with assms(7) run_fds_post [OF ok1, of fr "Open_req opq j addr port"] show ?thesis by auto
  qed
qed

lemma run_fds_listen:
  assumes "run_fds os own st" and "srv_ok st" and "fd_law os own" and "length pkg = 520"
    and "server_listen os pkg opq addr port b st = Some (i, st')"
  shows "run_fds os own st'"
proof -
  obtain reqs where r: "pipe_holds st reqs" "distinct (listening reqs)" "\<forall>r \<in> set reqs. lent r \<subseteq> own"
      "fds_ok os own (waiting_bytes st) (set (listening reqs)) st" using assms(1) by (auto simp: run_fds_def)
  have kept: "run_fds os own t" if "fds_ok os own (waiting_bytes st) (set (listening reqs)) t" for t
  proof -
    have "waiting_bytes t = waiting_bytes st" using that by (simp add: fds_ok_def)
    with that r(1-3) show ?thesis unfolding run_fds_def by (intro exI [of _ reqs]) (simp add: pipe_holds_def)
  qed
  obtain f st1 where l: "do_listen os addr port b st = Some (f, st1)"
    using assms(5) by (auto simp: server_listen_def bind_eq_Some_conv)
  note ok = fds_do_listen [OF r(4) assms(3) l]
  show ?thesis
  proof (cases "f < 0")
    case True
    with ok l assms(5) show ?thesis by (auto simp: server_listen_def intro: kept)
  next
    case False
    with ok have f: "fds_ok os own (waiting_bytes st) (insert f (set (listening reqs))) st1" "f \<notin> set (listening reqs)" "int32 f"
      by simp_all
    have "srv_ok st1" using do_listen_safe [OF l safe_refl [OF assms(2)]] by (rule safe_srv_ok)
    obtain j st2 where res: "reserve_id st1 = (j, st2)" by (cases "reserve_id st1")
    have ok2: "fds_ok os own (waiting_bytes st) (insert f (set (listening reqs))) st2"
      using fds_reserve [OF f(1) \<open>srv_ok st1\<close>] res by simp
    show ?thesis
    proof (cases "sint j < 0")
      case True
      have "insert f (set (listening reqs)) - {f} = set (listening reqs)" using f(2) by blast
      with fds_close [OF ok2, of f] have "run_fds os own (emit (Close f) st2)" by (intro kept) simp
      with False True l res assms(5) show ?thesis by (auto simp: server_listen_def)
    next
      case pos: False
      then obtain fr where fr: "server_listen os pkg opq addr port b st = map_option (\<lambda>st. (j, st)) (send_loop os fr st2)"
          "is_frame fr (Listen_req opq j f)" using server_listen_frame [OF assms(4) f(3) l _ res, of opq] False by auto
      then have sent: "send_loop os fr st2 = Some st'" using assms(5) by (cases "send_loop os fr st2") auto
      have w: "waiting_bytes st2 = waiting_bytes st" using ok2 by (simp add: fds_ok_def)
      show ?thesis
        by (rule run_fds_post_listen [OF _ _ r(3) _ fr(2) sent])
          (use r(1,2) f(2) ok2 w in \<open>simp_all add: pipe_holds_def\<close>)
    qed
  qed
qed

section \<open>Whole runs\<close>

text \<open>
  Turns of the polling thread and requests of other threads, with the arguments the interface can carry: numbers that
  are \<^verbatim>\<open>int\<close>s, host names the length byte has room for, and only lent descriptors given to \<open>server_bind\<close>.
\<close>

inductive fd_step :: "os \<Rightarrow> int set \<Rightarrow> server \<Rightarrow> server \<Rightarrow> bool" for os own where
  turn: "poll_turn os stk st m mr = Some t \<Longrightarrow> fd_step os own st (turn_state t)"
| listening: "length pkg = 520 \<Longrightarrow> server_listen os pkg opq addr port b st = Some (i, st') \<Longrightarrow> fd_step os own st st'"
| starting: "length pkg = 520 \<Longrightarrow> server_start os pkg opq i st = Some st' \<Longrightarrow> fd_step os own st st'"
| binding: "length pkg = 520 \<Longrightarrow> int32 f \<Longrightarrow> f \<in> own \<Longrightarrow> server_bind os pkg opq f st = Some (i, st') \<Longrightarrow> fd_step os own st st'"
| connects: "length pkg = 520 \<Longrightarrow> int32 port \<Longrightarrow> c_text addr \<Longrightarrow> length addr < 232 \<Longrightarrow>
    server_connect os pkg opq addr port st = Some (i, st') \<Longrightarrow> fd_step os own st st'"
| sending: "length pkg = 520 \<Longrightarrow> int32 sz \<Longrightarrow> server_send os pkg i buf sz st = Some (n, st') \<Longrightarrow> fd_step os own st st'"
| closing: "length pkg = 520 \<Longrightarrow> server_close os pkg opq i st = Some st' \<Longrightarrow> fd_step os own st st'"
| exiting: "length pkg = 520 \<Longrightarrow> server_exit os pkg st = Some st' \<Longrightarrow> fd_step os own st st'"

inductive_cases fd_stepE: "fd_step os own st st'"

lemma fd_step_server: "fd_step os own st st' \<Longrightarrow> server_step os st st'"
  by (induction rule: fd_step.induct) (auto intro: server_step.intros)

lemma fd_step_keeps:
  assumes "fd_step os own st st'" and "epoll_law os" and "fd_law os own" and "srv_ok st" and "run_fds os own st"
  shows "run_fds os own st'"
  using assms(1)
  by (rule fd_stepE)
    (auto intro: run_fds_poll_turn [OF assms(2-5)] run_fds_listen [OF assms(5,4,3)] run_fds_send [OF assms(5)]
      run_fds_bind [OF assms(5,4)] run_fds_connect [OF assms(5,4)])

lemma fd_run_ok:
  assumes "(fd_step os own)\<^sup>*\<^sup>* st st'" and "epoll_law os" and "fd_law os own" and "srv_ok st" and "run_fds os own st"
  shows "srv_ok st' \<and> run_fds os own st'"
  using assms(1)
proof (induction rule: rtranclp_induct)
  case (step st1 st2)
  then show ?case
    using fd_step_keeps [OF step.hyps(2) assms(2,3)] safe_srv_ok [OF server_step_safe [OF fd_step_server assms(2)]] by blast
qed (use assms(4,5) in simp)

text \<open>What \<open>initialize\<close> leaves: an empty pipe and no descriptor of a socket.\<close>

lemma initialize_trace:
  assumes "init_comes_up os st" and "trace st = []" and "initialize os st = Some st0"
  shows "\<exists>e. trace st0 = [Epoll_create, Pipe, Epoll_add e (recvctrl_fd st0) None EPOLLIN]"
  using assms
  by (simp add: initialize_def init_comes_up_def ep_create_def ep_invalid_def ep_add_def sys_split
      Let_def init_slots_rest split: if_splits) (auto simp: init_slots_rest)

lemma initialize_fds:
  assumes "init_comes_up os st" and "length (ev st) = MAX_EVENT" and "trace st = []" and "initialize os st = Some st0"
    and "pipe_law os (sendctrl_fd st0) (recvctrl_fd st0)" and "select_law os (sendctrl_fd st0) (recvctrl_fd st0)"
    and "recvctrl_fd st0 \<in> own" and "- 1 \<in> own"
  shows "srv_ok st0 \<and> run_fds os own st0"
proof -
  obtain st1 where st1: "initialize os st = Some st1" "srv_ok st1" "\<forall>k < MAX_SOCKET. free_slot st1 k"
    using initialize_up [OF assms(1,2)] assms(3) by auto
  then have st0: "srv_ok st0" "\<forall>k < MAX_SOCKET. sock_type (slot st0 k) = SOCKET_TYPE_INVALID" using assms(4) by simp_all
  obtain e where tr: "trace st0 = (([] @ [Epoll_create]) @ [Pipe]) @ [Epoll_add e (recvctrl_fd st0) None EPOLLIN]"
    using initialize_trace [OF assms(1,3,4)] by auto
  have "tidy os own (trace st0)" "open_fds os (trace st0) = {}" "waiting_bytes st0 = []"
    unfolding tr tidy_simps open_fds_simps using assms(7) by (simp_all add: pipe_bytes_def)
  moreover have "owners st0 = {}" using st0(2) by (auto simp: owners_def)
  ultimately have "fds_ok os own [] {} st0" using st0(2) assms(5,6,8) by (simp add: fds_ok_def)
  with \<open>waiting_bytes st0 = []\<close> have "run_fds os own st0"
    unfolding run_fds_def by (intro exI [of _ "[]"]) (simp add: pipe_holds_def)
  with st0(1) show ?thesis by simp
qed

text \<open>
  C2: descriptors are owned. In every run from \<open>initialize\<close>, by any turns of the polling thread and requests of
  other threads, the server closes only descriptors it has been given and not yet closed, works only on such and on
  those lent to it, and never closes a lent one; and in every state the sockets in use hold open
  descriptors, no two of them the same, while a reserved slot holds none.
\<close>

theorem descriptors_owned:
  assumes "epoll_law os" and "fd_law os own" and "init_comes_up os st" and "length (ev st) = MAX_EVENT" and "trace st = []"
    and "initialize os st = Some st0" and "pipe_law os (sendctrl_fd st0) (recvctrl_fd st0)"
    and "select_law os (sendctrl_fd st0) (recvctrl_fd st0)" and "recvctrl_fd st0 \<in> own" and "- 1 \<in> own"
    and "(fd_step os own)\<^sup>*\<^sup>* st0 st'"
  shows "(\<forall>i < length (trace st').
      closes (trace st' ! i) \<subseteq> open_fds os (take i (trace st')) - own \<and>
      touches (trace st' ! i) \<subseteq> open_fds os (take i (trace st')) \<union> own) \<and>
    inj_on (\<lambda>k. fd (slot st' k)) (owners st') \<and>
    (\<forall>k \<in> owners st'. fd (slot st' k) \<in> open_fds os (trace st')) \<and>
    (\<forall>k < MAX_SOCKET. sock_type (slot st' k) = SOCKET_TYPE_BIND \<longrightarrow> fd (slot st' k) \<in> own) \<and>
    (\<forall>k < MAX_SOCKET. sock_type (slot st' k) = SOCKET_TYPE_RESERVE \<longrightarrow> fd (slot st' k) = - 1)"
proof -
  have "run_fds os own st'"
    using fd_run_ok [OF assms(11,1,2)] initialize_fds [OF assms(3-10)] by blast
  then obtain F where fds: "fds_ok os own (waiting_bytes st') F st'" by (auto simp: run_fds_def)
  then have "tidy os own (trace st')" by (simp add: fds_ok_def)
  then have "closes (trace st' ! i) \<subseteq> open_fds os (take i (trace st')) - own \<and>
      touches (trace st' ! i) \<subseteq> open_fds os (take i (trace st')) \<union> own" if "i < length (trace st')" for i
    using tidy_nth [OF _ that] own_stays [OF assms(2), of "take i (trace st')"] by blast
  with fds show ?thesis by (simp add: fds_ok_def)
qed

text \<open>An operating system that numbers the descriptors it returns by the calls made, as long as they are few.\<close>

fun fd_os :: os where
  "fd_os tr (Socket fam ty pr) = null_reply\<lparr>ret := if length tr < 1000 then 10 + int (length tr) else - 1\<rparr>"
| "fd_os tr (Accept f) = null_reply\<lparr>ret := if length tr < 1000 then 10 + int (length tr) else - 1\<rparr>"
| "fd_os tr (Getaddrinfo h s t p) = null_reply\<lparr>r_addrs := [\<lparr>ai_family = 2, ai_socktype = 1, ai_protocol = 6,
     ai_addr = r_addr null_reply\<rparr>]\<rparr>"
| "fd_os tr c = pipe_os tr c"

lemma fd_os_given: "f \<in> gives c (fd_os tr c) \<Longrightarrow> length tr < 1000 \<and> f = 10 + int (length tr)"
  by (cases c) (auto split: if_splits)

lemma fd_os_fresh: "open_fds fd_os tr \<subseteq> {10..<10 + int (length tr)}"
proof (induction tr rule: rev_induct)
  case (snoc c tr)
  then show ?case using fd_os_given [of _ c tr] by fastforce
qed simp

lemma fd_os_laws:
  "fd_law fd_os {4, - 1}" "pipe_law fd_os 5 4" "select_law fd_os 5 4" "epoll_law fd_os" "init_comes_up fd_os blank_server"
proof -
  show "fd_law fd_os {4, - 1}" using fd_os_given fd_os_fresh by (fastforce simp: fd_law_def int32_def)
  show "pipe_law fd_os 5 4" using pipe_os_law by (simp add: pipe_law_def)
  show "select_law fd_os 5 4" by (simp add: select_law_def null_reply_def)
  show "epoll_law fd_os" using pipe_os_epoll by (simp add: epoll_law_def)
  show "init_comes_up fd_os blank_server" using pipe_os_up by (simp add: init_comes_up_def)
qed

theorem descriptors_owned_witness:
  "\<exists>st0 i st'. initialize fd_os blank_server = Some st0 \<and>
     server_listen fd_os (replicate 520 0) 7 None 8888 5 st0 = Some (i, st') \<and>
     (\<forall>j < length (trace st'). touches (trace st' ! j) \<subseteq> open_fds fd_os (take j (trace st')) \<union> {4, - 1})"
proof -
  obtain st0 where st0: "initialize fd_os blank_server = Some st0" "srv_ok st0" "\<forall>k < MAX_SOCKET. free_slot st0 k"
    using initialize_up [OF fd_os_laws(5) blank_events(1)] blank_events(2) by auto
  have c: "sendctrl_fd st0 = 5 \<and> recvctrl_fd st0 = 4 \<and> length (trace st0) = 3"
    using st0(1) blank_events(2)
    by (auto simp: initialize_def ep_create_def ep_invalid_def ep_add_def sys_split Let_def init_slots_rest null_reply_def
        blank_server_def split: if_splits)
  obtain f st1 where l: "do_listen fd_os None 8888 5 st0 = Some (f, st1)" "int32 f" "0 \<le> f" "sendctrl_fd st1 = 5" "recvctrl_fd st1 = 4"
      "slot st1 = slot st0" "alloc_id st1 = alloc_id st0"
    using c by (simp add: do_listen_def do_bind_def sys_split Let_def null_reply_def int32_def)
  have "alloc_ok st1" using do_listen_safe [OF l(1) safe_refl [OF st0(2)]] by (simp add: safe_def srv_ok_def)
  from reserve_id_cases [OF this] obtain k where
    "reserve_id st1 = (later_id (alloc_id st1) k, reserved (later_id (alloc_id st1) k) st1)"
    using st0(3) l(6) by (metis MAX_SOCKET_def zero_less_numeral zero_less_power)
  then obtain i st2 where r: "reserve_id st1 = (i, st2)" "0 \<le> sint i" using later_id_sint by blast
  obtain fr where "server_listen fd_os (replicate 520 0) 7 None 8888 5 st0 = map_option (\<lambda>st. (i, st)) (send_loop fd_os fr st2)"
    using server_listen_frame [of "replicate 520 0" f fd_os None 8888 5 st0 st1 i st2 7] l(1-3) r by auto
  moreover have "server_pipe fd_os st2" using fd_os_laws(2) reserve_id_same [of st1] r(1) l(4,5) by simp
  ultimately obtain st' where st': "server_listen fd_os (replicate 520 0) 7 None 8888 5 st0 = Some (i, st')"
    using send_loop_pipe [of fd_os st2 fr] by auto
  then have "(fd_step fd_os {4, - 1})\<^sup>*\<^sup>* st0 st'" by (intro r_into_rtranclp fd_step.listening [of "replicate 520 0"]) simp_all
  from descriptors_owned [OF fd_os_laws(4,1,5) blank_events st0(1) _ _ _ _ this] fd_os_laws(2,3) c st0(1) st' show ?thesis by auto
qed

text \<open>
  The converse does not hold. When epoll refuses the descriptor of an accepted or listening socket that is started, its slot
  is freed and the descriptor stays open, in nobody's slot.
\<close>

lemma start_failure_leaks:
  assumes "fds_ok os own q F st" and "sock_id (slot st (HASH_ID i)) = i"
    and "sock_type (slot st (HASH_ID i)) \<in> {SOCKET_TYPE_PACCEPT, SOCKET_TYPE_PLISTEN}"
    and "ret (os (trace st) (Epoll_add (event_fd st) (fd (slot st (HASH_ID i))) (Some (HASH_ID i)) EPOLLIN)) = - 1"
  shows "\<exists>st' m'. start_socket os \<lparr>s_id = i, s_opaque = opq\<rparr> st m = Some (SOCKET_ERROR, st', m') \<and>
    fd (slot st (HASH_ID i)) \<in> open_fds os (trace st') \<and>
    fd (slot st (HASH_ID i)) \<notin> (\<lambda>k. fd (slot st' k)) ` owners st'"
proof -
  let ?k = "HASH_ID i" and ?c = "Epoll_add (event_fd st) (fd (slot st (HASH_ID i))) (Some (HASH_ID i)) EPOLLIN"
  have k: "?k \<in> owners st" using assms(3) by (auto simp: owners_def owns_fd_def)
  have "fd (slot st ?k) \<in> open_fds os (trace st) \<union> own" using assms(1) k by (auto simp: fds_ok_def)
  with fds_emit [OF assms(1), of ?c] have ok: "fds_ok os own q F (emit ?c st)" by simp
  have "?k \<in> owners (emit ?c st)" using k by (simp add: owners_def)
  note drop = fds_drop [OF ok this]
  have "start_socket os \<lparr>s_id = i, s_opaque = opq\<rparr> st m = Some (SOCKET_ERROR, set_type ?k SOCKET_TYPE_INVALID (emit ?c st),
      m\<lparr>msg_id := i, msg_opaque := opq, msg_ud := 0, msg_data := Nullptr\<rparr>)"
    using assms(2-4) by (auto simp: start_socket_def Let_def ep_add_def sys_split)
  moreover have "fd (slot st ?k) \<in> open_fds os (trace (set_type ?k SOCKET_TYPE_INVALID (emit ?c st)))"
    using drop by (simp add: fds_ok_def)
  moreover have "fd (slot st ?k) \<notin> (\<lambda>k. fd (slot (set_type ?k SOCKET_TYPE_INVALID (emit ?c st)) k)) `
      owners (set_type ?k SOCKET_TYPE_INVALID (emit ?c st))"
    using drop by (fastforce simp: fds_ok_def)
  ultimately show ?thesis by blast
qed

end
