(* ===== verification/Socket_Progress.thy ===== *)
theory Socket_Progress
  imports Socket_Descriptors
begin

text \<open>
  When the gate server stops. A turn of its polling thread that fails an assertion, follows a null pointer or overflows an
  \<^verbatim>\<open>int\<close> has no result. In every run the slot of a request that needs a reserved one is reserved,
  and the causes that remain are listed: they are all there are.
\<close>

section \<open>What a handler leaves alone\<close>

text \<open>
  \<open>quiet ks a st\<close>: since \<open>a\<close> the control pipe has not been touched and every slot reserved then, except those in \<open>ks\<close>, is
  still reserved for the same number.
\<close>

fun off_pipe :: "call \<Rightarrow> bool" where
  "off_pipe (Write f m) = False"
| "off_pipe (Read f n) = False"
| "off_pipe c = True"

lemma off_pipe_step: "off_pipe c \<Longrightarrow> pipe_step w r q c = q"
  by (cases c) simp_all

definition quiet :: "nat set \<Rightarrow> server \<Rightarrow> server \<Rightarrow> bool" where
  "quiet ks a st \<longleftrightarrow> pipe_bytes (sendctrl_fd a) (recvctrl_fd a) (trace st) = waiting_bytes a \<and> sendctrl_fd st = sendctrl_fd a \<and> recvctrl_fd st = recvctrl_fd a \<and>
     (\<forall>k. k \<notin> ks \<and> sock_type (slot a k) = SOCKET_TYPE_RESERVE \<longrightarrow>
        sock_type (slot st k) = SOCKET_TYPE_RESERVE \<and> sock_id (slot st k) = sock_id (slot a k))"

named_theorems quiet_intros "rules that carry quiet through the state operations"

lemma quiet_refl [simp]: "quiet ks a a"
  by (simp add: quiet_def)

lemma quiet_trans: "quiet ks a b \<Longrightarrow> quiet ls b c \<Longrightarrow> quiet (ks \<union> ls) a c"
  by (auto simp: quiet_def)

lemma quiet_emit [quiet_intros]: "quiet ks a st \<Longrightarrow> off_pipe c \<Longrightarrow> quiet ks a (emit c st)"
  by (simp add: quiet_def off_pipe_step)

lemma quiet_slot:
  assumes "quiet ks a st"
    and "k \<notin> ks \<Longrightarrow> sock_type (slot a k) = SOCKET_TYPE_RESERVE \<Longrightarrow>
      sock_type (g (slot st k)) = sock_type (slot st k) \<and> sock_id (g (slot st k)) = sock_id (slot st k)"
  shows "quiet ks a (set_slot k g st)"
  using assms by (auto simp: quiet_def)

lemma quiet_set_type [quiet_intros]:
  "quiet ks a st \<Longrightarrow> k \<in> ks \<or> sock_type (slot a k) \<noteq> SOCKET_TYPE_RESERVE \<Longrightarrow> quiet ks a (set_type k ty st)"
  unfolding set_type_def by (rule quiet_slot) auto

lemma quiet_fields [quiet_intros]:
  "quiet ks a st \<Longrightarrow> quiet ks a (set_slot k (\<lambda>s. s\<lparr>opaque := x\<rparr>) st)"
  "quiet ks a st \<Longrightarrow> quiet ks a (set_slot k (\<lambda>s. s\<lparr>rd_size := n\<rparr>) st)"
  "quiet ks a st \<Longrightarrow> quiet ks a (set_slot k (\<lambda>s. s\<lparr>high := [], low := []\<rparr>) st)"
  by (rule quiet_slot; simp)+

lemma quiet_same:
  "quiet ks a st \<Longrightarrow> slot st' = slot st \<Longrightarrow> trace st' = trace st \<Longrightarrow> sendctrl_fd st' = sendctrl_fd st \<Longrightarrow>
   recvctrl_fd st' = recvctrl_fd st \<Longrightarrow> quiet ks a st'"
  by (simp add: quiet_def)

lemma quiet_from: "quiet ks b c \<Longrightarrow> slot a = slot b \<Longrightarrow> trace a = trace b \<Longrightarrow> sendctrl_fd a = sendctrl_fd b \<Longrightarrow>
   recvctrl_fd a = recvctrl_fd b \<Longrightarrow> quiet ks a c"
  by (simp add: quiet_def)

lemma quiet_buffer [quiet_intros]: "quiet ks a st \<Longrightarrow> quiet ks a (st\<lparr>buffer := t\<rparr>)"
  by (rule quiet_same) simp_all

lemma quiet_calls [quiet_intros]:
  assumes "quiet ks a st"
  shows "quiet ks a (ep_write f p b st)" and "quiet ks a (ep_del f st)" and "quiet ks a (snd (ep_add os f p st))"
    and "quiet ks a (keepalive f st)" and "quiet ks a (nonblocking os f st)" and "quiet ks a (snd (name_peer os ad st))"
  using assms quiet_emit [OF quiet_emit [OF assms, of "Fcntl_getfl f"]] quiet_emit [OF assms] quiet_buffer
  by (simp_all add: ep_write_def ep_del_def ep_add_def keepalive_def nonblocking_def name_peer_def sys_split Let_def)

lemma quiet_reserve:
  assumes "quiet ks a st" and "srv_ok st" and "slot a = slot st"
  shows "quiet ks a (snd (reserve_id st))"
proof -
  have "alloc_ok st" using assms(2) by (simp add: srv_ok_def)
  from reserve_id_cases [OF this] consider
      "reserve_id st = (- 1, st\<lparr>alloc_id := later_id (alloc_id st) MAX_SOCKET\<rparr>)"
    | i where "reserve_id st = (i, reserved i st)" "free_slot st (HASH_ID i)" by blast
  then show ?thesis
  proof cases
    case 1
    with assms(1) show ?thesis by (auto intro: quiet_same)
  next
    case 2
    have "quiet ks a (set_slot (HASH_ID i) (\<lambda>s. s\<lparr>sock_type := SOCKET_TYPE_RESERVE, sock_id := i, fd := - 1\<rparr>) st)"
      using 2(2) assms(3) by (intro quiet_slot [OF assms(1)]) simp
    then show ?thesis by (rule quiet_same) (simp_all add: 2(1) reserved_slot reserved_def fun_eq_iff)
  qed
qed

lemma quiet_new_socket:
  assumes "quiet ks a st" and "new_socket os i f pr opq add st = Some (res, st')"
    and "HASH_ID i \<in> ks \<or> sock_type (slot a (HASH_ID i)) \<noteq> SOCKET_TYPE_RESERVE"
  shows "quiet ks a st'"
proof -
  have g: "quiet ks a (set_slot (HASH_ID i) h t)" if "quiet ks a t" for h t
    using assms(3) by (intro quiet_slot [OF that]) auto
  show ?thesis
    using assms(1,2) g quiet_calls(3) [OF assms(1), of os f "Some (HASH_ID i)"]
    by (cases add) (auto simp: new_socket_def Let_def case_prod_beta split: if_splits)
qed

lemma quiet_force_close:
  assumes "quiet ks a st" and "sock_type (slot a k) \<noteq> SOCKET_TYPE_RESERVE" and "force_close k st m = Some (st', m')"
  shows "quiet ks a st'"
  using assms by (auto simp: force_close_def Let_def split: if_splits intro!: quiet_intros)

section \<open>Requests\<close>

fun reserves :: "request \<Rightarrow> u32 list" where
  "reserves (Bind_req opq i f) = [i]"
| "reserves (Listen_req opq i f) = [i]"
| "reserves (Open_req opq i h p) = [i]"
| "reserves r = []"

abbreviation places :: "request \<Rightarrow> nat set" where
  "places r \<equiv> HASH_ID ` set (reserves r)"

lemma quiet_connect_loop: "connect_loop os ais st = Some (r, st') \<Longrightarrow> quiet ks a st \<Longrightarrow> quiet ks a st'"
proof (induction ais arbitrary: st)
  case (Cons ai rest)
  then show ?case by (auto simp: sys_split Let_def split: if_splits intro!: quiet_intros elim!: Cons.IH)
qed simp

lemma quiet_open_socket:
  assumes "open_socket os req st m = Some (x, st', m')"
  shows "quiet {HASH_ID (o_id req)} st st'"
proof -
  obtain host where host: "o_host req = Some host" using assms by (auto simp: open_socket_def Let_def bind_eq_Some_conv)
  define c where "c = Getaddrinfo host (show_int (o_port req)) 1 6"
  have q0: "quiet {HASH_ID (o_id req)} st (emit c st)" by (auto simp: c_def intro!: quiet_intros)
  show ?thesis
  proof (cases "ret (os (trace st) c) \<noteq> 0 \<or> r_addrs (os (trace st) c) = []")
    case True
    with assms host q0 show ?thesis by (auto simp: open_socket_def Let_def sys_split c_def intro!: quiet_intros)
  next
    case False
    with assms host obtain sock status ai st1 k st2 where st1:
        "connect_loop os (r_addrs (os (trace st) c)) (emit c st) = Some ((sock, status, ai), st1)"
        "new_socket os (o_id req) sock PROTOCOL_TCP (o_opaque req) True st1 = Some (Some k, st2)"
      by (auto simp: open_socket_def Let_def sys_split c_def bind_eq_Some_conv)
    have q2: "quiet {HASH_ID (o_id req)} st st2"
      by (rule quiet_new_socket [OF quiet_connect_loop [OF st1(1) q0] st1(2)]) simp
    have "k = HASH_ID (o_id req)" using st1(2) by (auto simp: new_socket_def Let_def case_prod_beta split: if_splits)
    with assms host False st1 q2 show ?thesis
      by (auto simp: open_socket_def Let_def sys_split c_def case_prod_beta split: if_splits intro!: quiet_intros)
  qed
qed

lemma quiet_handle:
  assumes "handle os r st m = Some (x, st', m')" and "srv_ok st"
  shows "quiet (places r) st st'"
proof (cases r)
  case (Listen_req opq i f)
  then obtain s st1 where new: "new_socket os i f PROTOCOL_TCP opq False st = Some (s, st1)"
    using assms(1) by (auto simp: listen_socket_def bind_eq_Some_conv)
  then have "s = Some (HASH_ID i)" by (auto simp: new_socket_def Let_def split: if_splits)
  moreover have "quiet {HASH_ID i} st st1" by (rule quiet_new_socket [OF quiet_refl new]) simp
  ultimately show ?thesis using assms(1) Listen_req new by (auto simp: listen_socket_def intro!: quiet_intros)
next
  case (Bind_req opq i f)
  then obtain s st1 where new: "new_socket os i f PROTOCOL_TCP opq True st = Some (s, st1)"
    using assms(1) by (auto simp: bind_socket_def Let_def bind_eq_Some_conv)
  have q: "quiet {HASH_ID i} st st1" by (rule quiet_new_socket [OF quiet_refl new]) simp
  have "s = None \<or> s = Some (HASH_ID i)" using new by (auto simp: new_socket_def Let_def case_prod_beta split: if_splits)
  with assms(1) Bind_req new q show ?thesis by (auto simp: bind_socket_def Let_def intro!: quiet_intros)
next
  case (Open_req opq i h p)
  with quiet_open_socket assms(1) show ?thesis by fastforce
next
  case (Start_req opq i)
  with assms(1) show ?thesis
    by (auto simp: start_socket_def Let_def case_prod_beta split: if_splits intro!: quiet_intros)
next
  case (Close_req opq i)
  have e: "send_buffer_empty (slot st (HASH_ID i))" by (rule slot_empty [OF assms(2) HASH_ID_less])
  have "quiet {} st t" if "force_close (HASH_ID i) st m = Some (t, m2)" "sock_type (slot st (HASH_ID i)) \<noteq> SOCKET_TYPE_INVALID" for t m2
    using that by (intro quiet_force_close [OF quiet_refl _ that(1)]) (auto simp: force_close_def Let_def split: if_splits)
  with assms(1) Close_req e show ?thesis by (auto simp: close_socket_def Let_def bind_eq_Some_conv split: if_splits)
next
  case (Send_req i b n)
  let ?st = "emit (Write_mem (fd (slot st (HASH_ID i))) b n) st"
  have q: "quiet {} st ?st" by (auto intro!: quiet_intros)
  have "quiet {} st t" if "force_close (HASH_ID i) ?st m = Some (t, m2)" "sock_type (slot st (HASH_ID i)) = SOCKET_TYPE_CONNECTED" for t m2
    by (rule quiet_force_close [OF q _ that(1)]) (simp add: that(2))
  with assms(1) Send_req q show ?thesis
    by (auto simp: send_socket_def Let_def sys_split split: if_splits intro: quiet_intros)
qed (use assms(1) in simp)

section \<open>Events\<close>

lemma quiet_report_connect:
  assumes "report_connect os k st m = Some (x, st', m')" and "sock_type (slot st k) = SOCKET_TYPE_CONNECTING"
  shows "quiet {} st st'"
  using assms
  by (auto simp: report_connect_def Let_def sys_split case_prod_beta split: if_splits
      intro!: quiet_intros elim!: quiet_force_close [rotated 2])

lemma quiet_name_client: "name_client os ad st m = (b, st', m') \<Longrightarrow> quiet ks a st \<Longrightarrow> quiet ks a st'"
  by (auto simp: name_client_def sys_split Let_def split: if_splits intro!: quiet_intros)

text \<open>The number a new client is given belongs to a slot that was free, and is reserved then.\<close>

lemma reserve_took:
  assumes "srv_ok st" and "0 \<le> sint (fst (reserve_id st))"
  shows "sock_type (slot st (HASH_ID (fst (reserve_id st)))) = SOCKET_TYPE_INVALID"
    and "slot (snd (reserve_id st)) = (slot st)(HASH_ID (fst (reserve_id st)) := slot (snd (reserve_id st)) (HASH_ID (fst (reserve_id st))))"
    and "sock_type (slot (snd (reserve_id st)) (HASH_ID (fst (reserve_id st)))) = SOCKET_TYPE_RESERVE"
    and "sock_id (slot (snd (reserve_id st)) (HASH_ID (fst (reserve_id st)))) = fst (reserve_id st)"
proof -
  have "alloc_ok st" using assms(1) by (simp add: srv_ok_def)
  from reserve_id_cases [OF this] assms(2) obtain i where i: "reserve_id st = (i, reserved i st)" "free_slot st (HASH_ID i)"
    by auto
  then show "sock_type (slot st (HASH_ID (fst (reserve_id st)))) = SOCKET_TYPE_INVALID"
    and "slot (snd (reserve_id st)) = (slot st)(HASH_ID (fst (reserve_id st)) := slot (snd (reserve_id st)) (HASH_ID (fst (reserve_id st))))"
    and "sock_type (slot (snd (reserve_id st)) (HASH_ID (fst (reserve_id st)))) = SOCKET_TYPE_RESERVE"
    and "sock_id (slot (snd (reserve_id st)) (HASH_ID (fst (reserve_id st)))) = fst (reserve_id st)"
    by (simp_all add: reserved_slot fun_eq_iff)
qed

lemma report_accept_runs:
  assumes "srv_ok st"
  shows "\<exists>x st' m'. report_accept os k st m = Some (x, st', m') \<and> quiet {} st st'"
proof -
  define r where "r = os (trace st) (Accept (fd (slot st k)))"
  define st1 where "st1 = emit (Accept (fd (slot st k))) st"
  have q1: "quiet {} st st1" by (auto simp: st1_def intro!: quiet_intros)
  have ok1: "srv_ok st1" unfolding st1_def by (rule safe_srv_ok [OF safe_emit [OF safe_refl [OF assms]]]) simp
  define i where "i = fst (reserve_id st1)"
  define st2 where "st2 = snd (reserve_id st1)"
  have q2: "quiet {} st st2" unfolding st2_def by (rule quiet_reserve [OF q1 ok1]) (simp add: st1_def)
  show ?thesis
  proof (cases "ret r < 0 \<or> sint i < 0")
    case True
    with q1 quiet_emit [OF q2, of "Close (ret r)"] show ?thesis
      by (auto simp: report_accept_def sys_split r_def [symmetric] st1_def [symmetric] case_prod_beta i_def st2_def)
  next
    case False
    note fr = reserve_took [OF ok1, folded i_def st2_def]
    define st3 where "st3 = nonblocking os (ret r) (keepalive (ret r) st2)"
    have q3: "quiet {} st st3" unfolding st3_def by (intro quiet_intros q2)
    define st4 where "st4 = set_slot (HASH_ID i) (\<lambda>s. s\<lparr>sock_id := i, fd := ret r, protocol := PROTOCOL_TCP, opaque := opaque (slot st3 k)\<rparr>) st3"
    have new: "new_socket os i (ret r) PROTOCOL_TCP (opaque (slot st3 k)) False st3 = Some (Some (HASH_ID i), st4)"
      using fr(3) False by (simp add: new_socket_def Let_def st4_def st3_def)
    have free: "sock_type (slot st (HASH_ID i)) \<noteq> SOCKET_TYPE_RESERVE" using fr(1) False by (simp add: st1_def)
    have "quiet {} st st4" using free by (intro quiet_new_socket [OF q3 new]) simp
    with free have q5: "quiet {} st (set_type (HASH_ID i) SOCKET_TYPE_PACCEPT st4)" by (intro quiet_intros) simp_all
    define m5 where "m5 = m\<lparr>msg_opaque := opaque (slot (set_type (HASH_ID i) SOCKET_TYPE_PACCEPT st4) k),
      msg_id := sock_id (slot (set_type (HASH_ID i) SOCKET_TYPE_PACCEPT st4) k), msg_ud := sint i, msg_data := Nullptr\<rparr>"
    have "report_accept os k st m = Some (name_client os (r_addr r) (set_type (HASH_ID i) SOCKET_TYPE_PACCEPT st4) m5)"
      using False new by (simp add: report_accept_def sys_split r_def [symmetric] st1_def [symmetric] case_prod_beta
          i_def [symmetric] st2_def [symmetric] accept_client_def st3_def [symmetric] m5_def Let_def)
    with q5 show ?thesis by (metis prod.exhaust quiet_name_client)
  qed
qed

text \<open>A read that cannot be handled: the slot is only reserved, or the next read size would overflow.\<close>

definition read_fails :: "os \<Rightarrow> nat \<Rightarrow> server \<Rightarrow> bool" where
  "read_fails os k st \<longleftrightarrow>
     (let sz = rd_size (slot st k);
          p = os (trace st) (Malloc sz);
          r = os (trace st @ [Malloc sz]) (Read_heap (fd (slot st k)) (r_ptr p) sz) in
      ret r < 0 \<and> errno r \<noteq> EINTR \<and> errno r \<noteq> EAGAIN \<and> sock_type (slot st k) = SOCKET_TYPE_RESERVE \<or>
      0 < ret r \<and> sock_type (slot st k) \<noteq> SOCKET_TYPE_HALFCLOSE \<and> adapt_size sz (ret r) = None)"

lemma force_close_None: "force_close k st m = None \<longleftrightarrow> sock_type (slot st k) = SOCKET_TYPE_RESERVE"
  by (auto simp: force_close_def Let_def)

lemma force_close_runs: "sock_type (slot st k) \<noteq> SOCKET_TYPE_RESERVE \<Longrightarrow> \<exists>st' m'. force_close k st m = Some (st', m')"
  by (simp add: force_close_def Let_def)

lemma forward_runs:
  assumes "\<not> read_fails os k st"
  shows "\<exists>x st' m'. forward_message_tcp os k st m = Some (x, st', m') \<and> quiet {} st st'"
proof -
  define st1 where "st1 = emit (Malloc (rd_size (slot st k))) st"
  define p where "p = r_ptr (os (trace st) (Malloc (rd_size (slot st k))))"
  define c where "c = Read_heap (fd (slot st k)) p (rd_size (slot st k))"
  define r where "r = os (trace st1) c"
  have tr: "trace st @ [Malloc (rd_size (slot st k))] = trace st1" by (simp add: st1_def)
  have q: "quiet {} st (emit c st1)" "quiet {} st (emit (Free p) (emit c st1))" by (auto simp: st1_def c_def intro!: quiet_intros)
  note fold = st1_def [symmetric] p_def [symmetric] c_def [symmetric] r_def [symmetric] tr
  have run: "forward_message_tcp os k st m =
     (if ret r < 0
      then if errno r = EINTR \<or> errno r = EAGAIN then Some (no_message, emit (Free p) (emit c st1), m)
        else map_option (\<lambda>(st, m). (no_message, st, m)) (force_close k (emit (Free p) (emit c st1)) m)
      else if ret r = 0 then Some (no_message, emit (Free p) (emit c st1), m)
      else if sock_type (slot st k) = SOCKET_TYPE_HALFCLOSE then Some (no_message, emit (Free p) (emit c st1), m)
      else Option.bind (adapt_size (rd_size (slot st k)) (ret r)) (\<lambda>sz'.
          Some (SOCKET_DATA, set_slot k (\<lambda>s. s\<lparr>rd_size := sz'\<rparr>) (emit c st1),
            m\<lparr>msg_opaque := opaque (slot st k), msg_id := sock_id (slot st k), msg_ud := ret r,
              msg_data := Heap p (r_bytes r)\<rparr>)))"
    by (simp add: forward_message_tcp_def sys_split Let_def fold)
  have f: "ret r < 0 \<Longrightarrow> errno r \<noteq> EINTR \<Longrightarrow> errno r \<noteq> EAGAIN \<Longrightarrow> sock_type (slot st k) \<noteq> SOCKET_TYPE_RESERVE"
      "0 < ret r \<Longrightarrow> sock_type (slot st k) \<noteq> SOCKET_TYPE_HALFCLOSE \<Longrightarrow> adapt_size (rd_size (slot st k)) (ret r) \<noteq> None"
    using assms by (auto simp: read_fails_def Let_def r_def st1_def c_def p_def)
  show ?thesis
  proof (cases "ret r < 0")
    case neg: True
    show ?thesis
    proof (cases "errno r = EINTR \<or> errno r = EAGAIN")
      case True
      with neg q show ?thesis by (simp add: run)
    next
      case False
      then have e: "errno r \<noteq> EINTR" "errno r \<noteq> EAGAIN" by simp_all
      from neg e f(1) obtain t m2 where t: "force_close k (emit (Free p) (emit c st1)) m = Some (t, m2)"
        using force_close_None [of k "emit (Free p) (emit c st1)" m] by (cases "force_close k (emit (Free p) (emit c st1)) m") (auto simp: st1_def)
      from quiet_force_close [OF q(2) f(1) [OF neg e] t] t neg e show ?thesis by (simp add: run)
    qed
  next
    case False
    show ?thesis
    proof (cases "ret r = 0 \<or> sock_type (slot st k) = SOCKET_TYPE_HALFCLOSE")
      case True
      with False q show ?thesis by (auto simp: run)
    next
      case data: False
      with False obtain n where "adapt_size (rd_size (slot st k)) (ret r) = Some n" using f(2) by fastforce
      with False data quiet_fields(2) [OF q(1)] show ?thesis by (auto simp: run)
    qed
  qed
qed

lemma forward_None: "read_fails os k st \<Longrightarrow> forward_message_tcp os k st m = None"
  by (auto simp: read_fails_def forward_message_tcp_def Let_def sys_split force_close_None)

lemma report_connect_runs:
  assumes "sock_type (slot st k) = SOCKET_TYPE_CONNECTING"
  shows "\<exists>x st' m'. report_connect os k st m = Some (x, st', m')"
  using assms force_close_None [of k "emit (Get_so_error (fd (slot st k))) st" m]
  by (auto simp: report_connect_def Let_def sys_split case_prod_beta)

section \<open>What is refused\<close>

text \<open>
  The requests no handler can carry out: sending to a listener, closing a number that is only reserved, and opening a
  connection when the address list is overrun or epoll refuses the descriptor, which the code takes for a failed
  reservation.
\<close>

definition refused :: "os \<Rightarrow> request \<Rightarrow> server \<Rightarrow> bool" where
  "refused os r st \<longleftrightarrow> (case r of
     Send_req i b n \<Rightarrow> sock_id (slot st (HASH_ID i)) = i \<and>
       sock_type (slot st (HASH_ID i)) \<in> {SOCKET_TYPE_PLISTEN, SOCKET_TYPE_LISTEN}
   | Close_req opq i \<Rightarrow> sock_id (slot st (HASH_ID i)) = i \<and> sock_type (slot st (HASH_ID i)) = SOCKET_TYPE_RESERVE
   | Open_req opq i h p \<Rightarrow>
       (let c = Getaddrinfo h (show_int p) 1 6; r = os (trace st) c in
        ret r = 0 \<and> r_addrs r \<noteq> [] \<and>
        (case connect_loop os (r_addrs r) (emit c st) of
           None \<Rightarrow> True
         | Some ((sock, status, ai), st1) \<Rightarrow> fst (ep_add os sock (Some (HASH_ID i)) st1)))
   | _ \<Rightarrow> False)"

lemma new_socket_reserved:
  assumes "sock_type (slot st (HASH_ID i)) = SOCKET_TYPE_RESERVE"
  shows "\<exists>st'. new_socket os i f pr opq add st =
    Some (if add \<and> fst (ep_add os f (Some (HASH_ID i)) st) then None else Some (HASH_ID i), st')"
  using assms by (auto simp: new_socket_def Let_def case_prod_beta)

lemma open_socket_None:
  assumes "sock_type (slot st (HASH_ID i)) = SOCKET_TYPE_RESERVE"
  shows "open_socket os \<lparr>o_id = i, o_port = p, o_opaque = opq, o_host = Some h\<rparr> st m = None \<longleftrightarrow> refused os (Open_req opq i h p) st"
proof -
  define c where "c = Getaddrinfo h (show_int p) 1 6"
  show ?thesis
  proof (cases "ret (os (trace st) c) \<noteq> 0 \<or> r_addrs (os (trace st) c) = []")
    case True
    then show ?thesis by (auto simp: open_socket_def refused_def Let_def sys_split c_def)
  next
    case False
    show ?thesis
    proof (cases "connect_loop os (r_addrs (os (trace st) c)) (emit c st)")
      case None
      with False show ?thesis by (simp add: open_socket_def refused_def Let_def sys_split c_def)
    next
      case (Some res)
      obtain sock status ai st1 where res: "res = ((sock, status, ai), st1)" by (metis prod.exhaust)
      have "quiet {} st (emit c st)" by (auto simp: c_def intro!: quiet_intros)
      from quiet_connect_loop [OF Some [unfolded res] this] have "sock_type (slot st1 (HASH_ID i)) = SOCKET_TYPE_RESERVE"
        using assms by (simp add: quiet_def)
      from new_socket_reserved [OF this, of os sock PROTOCOL_TCP opq True] obtain st2 where
        "new_socket os i sock PROTOCOL_TCP opq True st1 =
          Some (if fst (ep_add os sock (Some (HASH_ID i)) st1) then None else Some (HASH_ID i), st2)" by auto
      with False Some res show ?thesis
        by (simp add: open_socket_def refused_def Let_def sys_split c_def [symmetric] case_prod_beta)
    qed
  qed
qed

lemma handle_None:
  assumes "srv_ok st" and "\<forall>i \<in> set (reserves r). sock_type (slot st (HASH_ID i)) = SOCKET_TYPE_RESERVE"
  shows "handle os r st m = None \<longleftrightarrow> refused os r st"
proof (cases r)
  case (Listen_req opq i f)
  with assms(2) new_socket_reserved [of st i os f PROTOCOL_TCP opq False] show ?thesis
    by (auto simp: listen_socket_def refused_def)
next
  case (Bind_req opq i f)
  with assms(2) new_socket_reserved [of st i os f PROTOCOL_TCP opq True] show ?thesis
    by (auto simp: bind_socket_def refused_def Let_def)
next
  case (Open_req opq i h p)
  with assms(2) open_socket_None show ?thesis by simp
next
  case (Start_req opq i)
  then show ?thesis by (simp add: start_socket_def refused_def Let_def case_prod_beta)
next
  case (Close_req opq i)
  have "send_buffer_empty (slot st (HASH_ID i))" by (rule slot_empty [OF assms(1) HASH_ID_less])
  with Close_req show ?thesis
    by (auto simp: close_socket_def refused_def Let_def force_close_None bind_eq_None_conv case_prod_beta)
next
  case (Send_req i b n)
  with force_close_runs [of "emit (Write_mem (fd (slot st (HASH_ID i))) b n) st" "HASH_ID i" m] show ?thesis
    by (auto simp: send_socket_def refused_def Let_def sys_split)
qed (simp add: refused_def)

section \<open>Turns of the polling thread\<close>

lemma quiet_clear_closed: "quiet ks a st \<Longrightarrow> quiet ks a (clear_closed_event m ty st)"
  by (rule quiet_same) (simp_all add: clear_closed_same)

lemma event_turn_runs:
  assumes ok: "srv_ok st" and more: "event_index st < event_n st"
  shows "(\<exists>t. event_turn os st m mr = Some t \<and> quiet {} st (turn_state t)) \<or>
    event_turn os st m mr = None \<and> (\<exists>k < MAX_SOCKET. ev_s (ev st ! event_index st) = Some k \<and> read_fails os k st)"
proof -
  define j where "j = event_index st"
  define e where "e = ev st ! j"
  define st1 where "st1 = st\<lparr>event_index := Suc j\<rparr>"
  have "safe st st1" unfolding st1_def j_def by (rule step_index_safe [OF safe_refl [OF ok] more])
  note ok1 = safe_srv_ok [OF this]
  have from1: "quiet {} st t" if "quiet {} st1 t" for t by (rule quiet_from [OF that]) (simp_all add: st1_def)
  have q1: "quiet {} st st1" by (rule from1) simp
  show ?thesis
  proof (cases "ev_s e")
    case None
    with q1 show ?thesis by (simp add: event_turn_def Let_def e_def j_def st1_def)
  next
    case (Some k)
    then have k: "k < MAX_SOCKET" using ok more by (auto simp: srv_ok_def events_ok_def e_def j_def)
    define ty where "ty = sock_type (slot st1 k)"
    define res where "res = (if protocol (slot st1 k) = PROTOCOL_TCP then forward_message_tcp os k st1 m else Some (no_message, st1, m))"
    have run: "event_turn os st m mr =
       (if ty = SOCKET_TYPE_CONNECTING then Option.bind (report_connect os k st1 m) (\<lambda>(x, st2, m2). Some (Return x st2 m2 mr))
        else if ty = SOCKET_TYPE_LISTEN then Option.bind (report_accept os k st1 m)
          (\<lambda>(b, st2, m2). Some (if b then Return SOCKET_ACCEPT st2 m2 mr else Continue st2 m2 mr))
        else if ty = SOCKET_TYPE_INVALID then Some (Continue st1 m mr)
        else if ev_read e then Option.bind res (\<lambda>(x, st2, m2).
            let st3 = (if ev_write e then st2\<lparr>ev := (ev st2)[j := e\<lparr>ev_read := False\<rparr>], event_index := j\<rparr> else st2) in
            if x = no_message then Some (Continue st3 m2 mr)
            else Some (Return x (clear_closed_event m2 x st3) m2 mr))
        else if ev_write e then Option.bind (send_buffer os k st1 m) (\<lambda>(x, st2, m2).
            if x = no_message then Some (Continue st2 m2 mr) else Some (Return x (clear_closed_event m2 x st2) m2 mr))
        else Some (Continue st1 m mr))"
      using Some by (simp add: event_turn_def Let_def e_def j_def st1_def ty_def res_def cong: if_cong)
    consider "ty = SOCKET_TYPE_CONNECTING" | "ty = SOCKET_TYPE_LISTEN" | "ty = SOCKET_TYPE_INVALID"
      | "ty \<notin> {SOCKET_TYPE_CONNECTING, SOCKET_TYPE_LISTEN, SOCKET_TYPE_INVALID}" by blast
    then show ?thesis
    proof cases
      case 1
      with report_connect_runs [of st1 k os m] obtain x st2 m2 where r: "report_connect os k st1 m = Some (x, st2, m2)"
        by (auto simp: ty_def)
      from from1 [OF quiet_report_connect [OF r]] 1 have "quiet {} st st2" by (simp add: ty_def)
      with 1 r show ?thesis by (simp add: run)
    next
      case 2
      from report_accept_runs [OF ok1, of os k m] obtain x st2 m2 where
        "report_accept os k st1 m = Some (x, st2, m2)" "quiet {} st st2" using from1 by blast
      with 2 show ?thesis by (simp add: run)
    next
      case 3
      with q1 show ?thesis by (simp add: run)
    next
      case 4
      show ?thesis
      proof (cases "ev_read e")
        case True
        have fine: "\<exists>t. event_turn os st m mr = Some t \<and> quiet {} st (turn_state t)"
          if "res = Some (x, st2, m2)" "quiet {} st st2" for x st2 m2
        proof -
          have "quiet {} st (st2\<lparr>ev := v, event_index := i\<rparr>)" for v i by (rule quiet_same [OF that(2)]) simp_all
          with that 4 True show ?thesis by (simp add: run Let_def quiet_clear_closed)
        qed
        show ?thesis
        proof (cases "protocol (slot st1 k) = PROTOCOL_TCP")
          case False
          with fine [of no_message st1 m] q1 show ?thesis by (simp add: res_def)
        next
          case tcp: True
          show ?thesis
          proof (cases "read_fails os k st1")
            case False
            with forward_runs obtain x st2 m2 where "forward_message_tcp os k st1 m = Some (x, st2, m2)" "quiet {} st st2"
              using from1 by blast
            with fine tcp show ?thesis by (simp add: res_def)
          next
            case fails: True
            then have "read_fails os k st" by (simp add: read_fails_def st1_def)
            moreover have "res = None" using fails tcp forward_None [of os k st1 m] by (simp add: res_def)
            ultimately show ?thesis using k Some 4 True by (auto simp: run e_def j_def)
          qed
        qed
      next
        case False
        have "quiet {} st (ep_write (fd (slot st1 k)) (Some k) False st1)" by (intro quiet_intros q1)
        with 4 q1 False send_buffer_idle [OF ok1 k, of os m] show ?thesis by (simp add: run)
      qed
    qed
  qed
qed

lemma read_fails_same: "slot st' = slot st \<Longrightarrow> trace st' = trace st \<Longrightarrow> read_fails os k st' = read_fails os k st"
  by (simp add: read_fails_def)

lemma wait_turn_runs:
  assumes law: "epoll_law os" and ok: "srv_ok st"
  shows "(\<exists>t. wait_turn os st m mr = Some t \<and> quiet {} st (turn_state t)) \<or>
    wait_turn os st m mr = None \<and> (\<exists>k < MAX_SOCKET. \<exists>calls. set calls \<subseteq> {Epoll_wait (event_fd st) MAX_EVENT} \<and>
      read_fails os k (st\<lparr>trace := trace st @ calls\<rparr>))"
proof (cases "event_index st = event_n st")
  case True
  obtain n st' where st': "ep_wait os MAX_EVENT st = (n, st')" by (cases "ep_wait os MAX_EVENT st")
  define st2 where "st2 = st'\<lparr>checkctrl := True, event_index := 0, event_n := nat n\<rparr>"
  have "safe st st2" unfolding st2_def by (rule ep_wait_safe [OF law safe_refl [OF ok] st'])
  note ok2 = safe_srv_ok [OF this]
  let ?e = "emit (Epoll_wait (event_fd st) MAX_EVENT) st"
  have same: "slot st2 = slot ?e" "trace st2 = trace ?e" "sendctrl_fd st2 = sendctrl_fd ?e" "recvctrl_fd st2 = recvctrl_fd ?e"
    using st' by (auto simp: st2_def ep_wait_def sys_split Let_def)
  have "quiet {} st ?e" by (auto intro!: quiet_intros)
  then have q2: "quiet {} st st2" by (rule quiet_same) (simp_all add: same)
  have run: "wait_turn os st m mr = (if n \<le> 0 then Some (Return (- 1) st2 m 0) else event_turn os st2 m 0)"
    using True st' by (auto simp: wait_turn_def Let_def st2_def)
  show ?thesis
  proof (cases "n \<le> 0")
    case True
    with q2 show ?thesis by (simp add: run)
  next
    case False
    then have more: "event_index st2 < event_n st2" by (simp add: st2_def)
    have "read_fails os k st2 = read_fails os k (st\<lparr>trace := trace st @ [Epoll_wait (event_fd st) MAX_EVENT]\<rparr>)" for k
      by (rule read_fails_same) (simp_all add: same)
    with event_turn_runs [OF ok2 more, of os m 0] quiet_trans [OF q2, of "{}"] False show ?thesis
      unfolding run by (auto intro!: exI [of _ "[Epoll_wait (event_fd st) MAX_EVENT]"])
  qed
next
  case False
  with ok have "event_index st < event_n st" by (simp add: srv_ok_def events_ok_def)
  from event_turn_runs [OF ok this, of os m mr] False show ?thesis
    by (auto simp: wait_turn_def intro!: exI [of _ "[]"])
qed

section \<open>Runs\<close>

text \<open>The slots that the requests in the pipe need are theirs: reserved, for their number, and for nobody else's.\<close>

definition holds_places :: "server \<Rightarrow> request list \<Rightarrow> bool" where
  "holds_places st reqs \<longleftrightarrow> pipe_holds st reqs \<and> distinct (map HASH_ID (concat (map reserves reqs))) \<and>
     (\<forall>i \<in> set (concat (map reserves reqs)).
       sock_type (slot st (HASH_ID i)) = SOCKET_TYPE_RESERVE \<and> sock_id (slot st (HASH_ID i)) = i)"

definition run_places :: "os \<Rightarrow> server \<Rightarrow> bool" where
  "run_places os st \<longleftrightarrow> server_pipe os st \<and> select_law os (sendctrl_fd st) (recvctrl_fd st) \<and> (\<exists>reqs. holds_places st reqs)"

lemma quiet_bytes: "quiet ks a st \<Longrightarrow> waiting_bytes st = waiting_bytes a \<and> sendctrl_fd st = sendctrl_fd a \<and> recvctrl_fd st = recvctrl_fd a"
  by (simp add: quiet_def)

lemma holds_places_quiet:
  assumes "holds_places st reqs" and "quiet ks st st'" and "ks \<inter> HASH_ID ` set (concat (map reserves reqs)) = {}"
  shows "holds_places st' reqs"
  using assms quiet_bytes [OF assms(2)] by (fastforce simp: holds_places_def pipe_holds_def quiet_def)

lemma run_places_quiet: "run_places os st \<Longrightarrow> quiet {} st st' \<Longrightarrow> run_places os st'"
  using quiet_bytes [of "{}" st st'] by (auto simp: run_places_def intro: holds_places_quiet)

lemma ctrl_turn_runs:
  assumes ok: "srv_ok st" and places: "run_places os st" and some: "waiting_bytes st \<noteq> []"
  shows "(\<exists>t. ctrl_turn os stk st m mr = Some t \<and> run_places os (turn_state t)) \<or>
    ctrl_turn os stk st m mr = None \<and> (\<exists>req reqs n. pipe_holds st (req # reqs) \<and>
      refused os req (st\<lparr>trace := trace st @ [Read (recvctrl_fd st) 2, Read (recvctrl_fd st) n]\<rparr>))"
proof -
  obtain reqs where r: "holds_places st reqs" using places by (auto simp: run_places_def)
  obtain req rs where reqs: "reqs = req # rs" using r some by (cases reqs) (auto simp: holds_places_def pipe_holds_def)
  have pipe: "server_pipe os st" using places by (simp add: run_places_def)
  have h: "pipe_holds st (req # rs)" using r by (simp add: holds_places_def reqs)
  obtain st1 n where st1: "ctrl_cmd os stk st m = handle os req st1 m" "pipe_holds st1 rs"
      "st1 = st\<lparr>trace := trace st @ [Read (recvctrl_fd st) 2, Read (recvctrl_fd st) n]\<rparr>"
    using pipe_holds_read [OF h pipe, of stk m] by blast
  then have e: "st1 = emit (Read (recvctrl_fd st) n) (emit (Read (recvctrl_fd st) 2) st)" by (simp add: emit_def)
  have "safe st st1" unfolding e by (intro safe_emit safe_refl ok) simp_all
  then have ok1: "srv_ok st1" by (rule safe_srv_ok)
  have mine: "\<forall>i \<in> set (reserves req). sock_type (slot st1 (HASH_ID i)) = SOCKET_TYPE_RESERVE"
    using r by (simp add: holds_places_def reqs st1(3))
  have rest: "holds_places st1 rs" using r st1(2) by (auto simp: holds_places_def reqs st1(3))
  show ?thesis
  proof (cases "handle os req st1 m")
    case None
    with handle_None [OF ok1 mine] st1(1) have "ctrl_turn os stk st m mr = None \<and> refused os req st1" by (simp add: ctrl_turn_def)
    with h st1(3) show ?thesis by blast
  next
    case (Some res)
    obtain x st2 m2 where res: "res = (x, st2, m2)" by (metis prod.exhaust)
    have q: "quiet (places req) st1 st2" using quiet_handle [OF _ ok1] Some res by simp
    have "places req \<inter> HASH_ID ` set (concat (map reserves rs)) = {}"
      using r by (fastforce simp: holds_places_def reqs)
    from holds_places_quiet [OF rest q this] have p2: "run_places os st2"
      using places quiet_bytes [OF q] by (auto simp: run_places_def st1(3))
    then have "run_places os (clear_closed_event m2 x st2)"
      by (rule run_places_quiet) (rule quiet_clear_closed, simp)
    with p2 Some res st1(1) show ?thesis by (auto simp: ctrl_turn_def)
  qed
qed

text \<open>Why a turn has no result.\<close>

definition stuck :: "os \<Rightarrow> server \<Rightarrow> bool" where
  "stuck os st \<longleftrightarrow>
     (\<exists>req reqs n. pipe_holds st (req # reqs) \<and>
       refused os req (st\<lparr>trace := trace st @ [Select (recvctrl_fd st), Read (recvctrl_fd st) 2, Read (recvctrl_fd st) n]\<rparr>)) \<or>
     (\<exists>k < MAX_SOCKET. \<exists>calls. set calls \<subseteq> {Select (recvctrl_fd st), Epoll_wait (event_fd st) MAX_EVENT} \<and>
       read_fails os k (st\<lparr>trace := trace st @ calls\<rparr>))"

lemma poll_turn_runs:
  assumes law: "epoll_law os" and ok: "srv_ok st" and places: "run_places os st"
  shows "(\<exists>t. poll_turn os stk st m mr = Some t \<and> run_places os (turn_state t)) \<or> poll_turn os stk st m mr = None \<and> stuck os st"
proof -
  define st1 where "st1 = emit (Select (recvctrl_fd st)) st"
  have q1: "quiet {} st st1" by (auto simp: st1_def intro!: quiet_intros)
  then have q2: "quiet {} st (st1\<lparr>checkctrl := False\<rparr>)" by (rule quiet_same) simp_all
  have "safe st st1" by (simp add: st1_def safe_emit safe_refl [OF ok])
  then have ok1: "srv_ok st1" "srv_ok (st1\<lparr>checkctrl := False\<rparr>)"
    using safe_checkctrl [of st st1 False] by (auto dest: safe_srv_ok)
  have w: "(\<exists>t. wait_turn os a m mr = Some t \<and> run_places os (turn_state t)) \<or> wait_turn os a m mr = None \<and> stuck os st"
    if "srv_ok a" "quiet {} st a" "trace a = trace st @ cs" "slot a = slot st" "event_fd a = event_fd st" "set cs \<subseteq> {Select (recvctrl_fd st)}" for a cs
  proof (cases "wait_turn os a m mr")
    case None
    note pr = that
    from None wait_turn_runs [OF law pr(1), of m mr] obtain k calls where "k < MAX_SOCKET" "set calls \<subseteq> {Epoll_wait (event_fd st) MAX_EVENT}"
        "read_fails os k (a\<lparr>trace := trace a @ calls\<rparr>)" using pr(5) by auto
    moreover from this(3) have "read_fails os k (st\<lparr>trace := trace st @ cs @ calls\<rparr>)" using pr(3,4) by (simp add: read_fails_def)
    moreover have "set (cs @ calls) \<subseteq> {Select (recvctrl_fd st), Epoll_wait (event_fd st) MAX_EVENT}"
      using pr(6) calculation(2) by auto
    ultimately show ?thesis using None unfolding stuck_def by blast
  next
    case (Some t)
    with wait_turn_runs [OF law that(1), of m mr] have "quiet {} a (turn_state t)" by auto
    from run_places_quiet [OF run_places_quiet [OF places that(2)] this] Some show ?thesis by blast
  qed
  have c: "(\<exists>t. ctrl_turn os stk st1 m mr = Some t \<and> run_places os (turn_state t)) \<or> ctrl_turn os stk st1 m mr = None \<and> stuck os st"
    if "ret (os (trace st) (Select (recvctrl_fd st))) = 1"
  proof -
    have "waiting_bytes st1 = waiting_bytes st" by (rule conjunct1 [OF quiet_bytes [OF q1]])
    with places that have "waiting_bytes st1 \<noteq> []" by (auto simp: run_places_def select_law_def)
    from ctrl_turn_runs [OF ok1(1) run_places_quiet [OF places q1] this, of stk m mr]
    show ?thesis by (auto simp: stuck_def st1_def emit_def pipe_holds_def)
  qed
  show ?thesis
    using w [OF ok _ , of "[]"] w [OF ok1(2) q2, of "[Select (recvctrl_fd st)]"] c
    by (auto simp: poll_turn_def has_cmd_def sys_split Let_def st1_def [symmetric]) (auto simp: st1_def)
qed

text \<open>These requests do stop the server: the causes cannot be left out.\<close>

lemma refused_aborts:
  assumes "srv_ok st" and "run_places os st" and "holds_places st (req # reqs)" and "checkctrl st"
    and "ret (os (trace st) (Select (recvctrl_fd st))) = 1"
    and "\<And>n. refused os req (st\<lparr>trace := trace st @ [Select (recvctrl_fd st), Read (recvctrl_fd st) 2, Read (recvctrl_fd st) n]\<rparr>)"
  shows "poll_turn os stk st m mr = None"
proof -
  define st1 where "st1 = emit (Select (recvctrl_fd st)) st"
  have q1: "quiet {} st st1" by (auto simp: st1_def intro!: quiet_intros)
  have "pipe_holds st1 (req # reqs)" "server_pipe os st1"
    using holds_places_quiet [OF assms(3) q1] run_places_quiet [OF assms(2) q1] by (simp_all add: holds_places_def run_places_def)
  from pipe_holds_read [OF this, of stk m] obtain n where
    run: "ctrl_cmd os stk st1 m = handle os req (st1\<lparr>trace := trace st1 @ [Read (recvctrl_fd st1) 2, Read (recvctrl_fd st1) n]\<rparr>) m"
    by blast
  let ?st = "st\<lparr>trace := trace st @ [Select (recvctrl_fd st), Read (recvctrl_fd st) 2, Read (recvctrl_fd st) n]\<rparr>"
  have st: "st1\<lparr>trace := trace st1 @ [Read (recvctrl_fd st1) 2, Read (recvctrl_fd st1) n]\<rparr> = ?st" by (simp add: st1_def emit_def)
  have "?st = emit (Read (recvctrl_fd st) n) (emit (Read (recvctrl_fd st) 2) st1)" by (simp add: st1_def emit_def)
  moreover have "safe st (emit (Read (recvctrl_fd st) n) (emit (Read (recvctrl_fd st) 2) st1))"
    unfolding st1_def by (intro safe_emit safe_refl assms(1)) simp_all
  ultimately have "srv_ok ?st" by (metis safe_srv_ok)
  from handle_None [OF this] assms(3,6) have "handle os req ?st m = None" by (simp add: holds_places_def)
  with run st have "ctrl_turn os stk st1 m mr = None" by (simp add: ctrl_turn_def)
  with assms(4,5) show ?thesis by (simp add: poll_turn_def has_cmd_def sys_split Let_def st1_def)
qed

section \<open>Requests of other threads\<close>

lemma places_post:
  assumes "server_pipe os st" and "select_law os (sendctrl_fd st) (recvctrl_fd st)" and "holds_places st reqs"
    and "is_frame fr req" and "distinct (map HASH_ID (reserves req))" and "places req \<inter> HASH_ID ` set (concat (map reserves reqs)) = {}"
    and "\<forall>i \<in> set (reserves req). sock_type (slot st (HASH_ID i)) = SOCKET_TYPE_RESERVE \<and> sock_id (slot st (HASH_ID i)) = i"
    and "send_loop os fr st = Some st'"
  shows "run_places os st'"
proof -
  have "st' = emit (Write (sendctrl_fd st) fr) st" using send_loop_pipe [OF assms(1)] assms(8) by simp
  moreover have "pipe_holds st' (reqs @ [req])"
    using pipe_holds_write [OF _ assms(4,1), of reqs] assms(3,8) by (auto simp: holds_places_def)
  ultimately show ?thesis
    using assms(1-3,5-7) image_eqI unfolding run_places_def by (fastforce simp: holds_places_def intro!: exI [of _ "reqs @ [req]"])
qed

lemma run_places_post:
  assumes "run_places os st" and "is_frame fr req" and "reserves req = []" and "send_loop os fr st = Some st'"
  shows "run_places os st'"
proof -
  obtain reqs where "server_pipe os st" "select_law os (sendctrl_fd st) (recvctrl_fd st)" "holds_places st reqs"
    using assms(1) by (auto simp: run_places_def)
  from places_post [OF this assms(2) _ _ _ assms(4)] show ?thesis by (simp add: assms(3))
qed

text \<open>A number is reserved, and goes with the request.\<close>

lemma run_places_reserve:
  assumes "run_places os st" and "srv_ok st" and "reserve_id st = (i, st1)"
  shows "run_places os st1"
    and "0 \<le> sint i \<Longrightarrow> is_frame fr req \<Longrightarrow> reserves req = [i] \<Longrightarrow> send_loop os fr st1 = Some st' \<Longrightarrow> run_places os st'"
proof -
  have q: "quiet {} st st1" using quiet_reserve [OF quiet_refl assms(2) refl, of "{}"] assms(3) by simp
  show ok1: "run_places os st1" by (rule run_places_quiet [OF assms(1) q])
  assume i: "0 \<le> sint i" and fr: "is_frame fr req" "reserves req = [i]" and run: "send_loop os fr st1 = Some st'"
  obtain reqs where r: "holds_places st reqs" using assms(1) by (auto simp: run_places_def)
  have r1: "holds_places st1 reqs" by (rule holds_places_quiet [OF r q]) simp
  note took = reserve_took [OF assms(2), unfolded assms(3) fst_conv snd_conv, OF i]
  have "HASH_ID i \<notin> HASH_ID ` set (concat (map reserves reqs))" using r took(1) by (auto simp: holds_places_def)
  with places_post [OF _ _ r1 fr(1) _ _ _ run] ok1 took(3,4) show "run_places os st'"
    by (simp add: fr(2) run_places_def)
qed

lemma quiet_do_bind: "do_bind os host port p st = Some (f, st') \<Longrightarrow> quiet ks a st \<Longrightarrow> quiet ks a st'"
  by (auto simp: do_bind_def Let_def sys_split bind_eq_Some_conv split: if_splits list.splits intro!: quiet_intros)

lemma quiet_do_listen: "do_listen os host port b st = Some (f, st') \<Longrightarrow> quiet ks a st \<Longrightarrow> quiet ks a st'"
  by (auto simp: do_listen_def Let_def sys_split bind_eq_Some_conv split: if_splits
      intro!: quiet_intros elim!: quiet_do_bind)

lemma run_places_listen:
  assumes places: "run_places os st" and ok: "srv_ok st" and fds: "run_fds os own st" and law: "fd_law os own"
    and pkg: "length pkg = 520" and run: "server_listen os pkg opq addr port b st = Some (i, st')"
  shows "run_places os st'"
proof -
  obtain f st1 where l: "do_listen os addr port b st = Some (f, st1)"
    using run by (auto simp: server_listen_def bind_eq_Some_conv)
  have ok1: "srv_ok st1" using do_listen_safe [OF l safe_refl [OF ok]] by (rule safe_srv_ok)
  have places1: "run_places os st1" by (rule run_places_quiet [OF places quiet_do_listen [OF l quiet_refl]])
  obtain j st2 where res: "reserve_id st1 = (j, st2)" by (cases "reserve_id st1")
  note places2 = run_places_reserve [OF places1 ok1 res]
  have closed: "run_places os (emit (Close f) st2)"
    by (rule run_places_quiet [OF places2(1)]) (auto intro!: quiet_intros)
  show ?thesis
  proof (cases "f < 0 \<or> sint j < 0")
    case True
    with l res run places1 closed show ?thesis by (auto simp: server_listen_def split: if_splits)
  next
    case False
    obtain F where "fds_ok os own (waiting_bytes st) F st" using fds by (auto simp: run_fds_def)
    with fds_do_listen [OF this law l] False have "int32 f" by simp
    then obtain fr where "server_listen os pkg opq addr port b st = map_option (\<lambda>st. (j, st)) (send_loop os fr st2)"
        "is_frame fr (Listen_req opq j f)" using server_listen_frame [OF pkg _ l _ res, of opq] False by auto
    with run False places2(2) [of fr "Listen_req opq j f"] show ?thesis by auto
  qed
qed

lemma fd_step_places:
  assumes step: "fd_step os own st st'" and law: "epoll_law os" "fd_law os own" and ok: "srv_ok st"
    and fds: "run_fds os own st" and places: "run_places os st"
  shows "run_places os st'"
  using step
proof (cases rule: fd_step.cases)
  case (turn stk m mr t)
  with poll_turn_runs [OF law(1) ok places, of stk m mr] show ?thesis by auto
next
  case (listening pkg opq addr port b i)
  then show ?thesis by (intro run_places_listen [OF places ok fds law(2)])
next
  case (starting pkg opq i)
  with server_start_frame [OF starting(1), of os opq i st] run_places_post [OF places] show ?thesis by fastforce
next
  case (binding pkg f opq i)
  obtain j st1 where res: "reserve_id st = (j, st1)" by (cases "reserve_id st")
  note p = run_places_reserve [OF places ok res]
  show ?thesis
  proof (cases "sint j < 0")
    case True
    with res p(1) binding show ?thesis by (simp add: server_bind_def)
  next
    case False
    then obtain fr where "server_bind os pkg opq f st = map_option (\<lambda>st. (j, st)) (send_loop os fr st1)"
        "is_frame fr (Bind_req opq j f)" using server_bind_frame [OF binding(1,2) res, of os opq] by auto
    with False binding p(2) [of fr "Bind_req opq j f"] show ?thesis by auto
  qed
next
  case (connects pkg port addr opq i)
  obtain j st1 where res: "reserve_id st = (j, st1)" by (cases "reserve_id st")
  note p = run_places_reserve [OF places ok res]
  show ?thesis
  proof (cases "sint j < 0")
    case True
    with res p(1) connects show ?thesis by (simp add: server_connect_def open_request_def)
  next
    case False
    then obtain fr where "server_connect os pkg opq addr port st = map_option (\<lambda>st. (j, st)) (send_loop os fr st1)"
        "is_frame fr (Open_req opq j addr port)" using server_connect_frame [OF connects(1-3) _ res, of os opq] connects by auto
    with False connects p(2) [of fr "Open_req opq j addr port"] show ?thesis by auto
  qed
next
  case (sending pkg sz i buf n)
  show ?thesis
  proof (cases "sock_id (slot st (HASH_ID i)) = i \<and> sock_type (slot st (HASH_ID i)) \<noteq> SOCKET_TYPE_INVALID")
    case True
    then obtain fr where "server_send os pkg i buf sz st = map_option (\<lambda>st. (wb_size (slot st (HASH_ID i)), st)) (send_loop os fr st)"
        "is_frame fr (Send_req i buf sz)" using server_send_frame [OF sending(1,2), of st i os buf] by blast
    with sending run_places_post [OF places, of fr "Send_req i buf sz"] show ?thesis by auto
  next
    case False
    with sending places show ?thesis by (auto simp: server_send_def Let_def)
  qed
next
  case (closing pkg opq i)
  with server_close_frame [OF closing(1), of os opq i st] run_places_post [OF places] show ?thesis by fastforce
next
  case (exiting pkg)
  with server_exit_frame [OF exiting(1), of os st] run_places_post [OF places] show ?thesis by fastforce
qed

lemma run_places_initially:
  assumes "server_pipe os st" and "select_law os (sendctrl_fd st) (recvctrl_fd st)" and "waiting_bytes st = []"
  shows "run_places os st"
  using assms unfolding run_places_def by (auto simp: holds_places_def pipe_holds_def intro!: exI [of _ "[]"])

lemma fd_run_places:
  assumes "(fd_step os own)\<^sup>*\<^sup>* st st'" and "epoll_law os" and "fd_law os own" and "srv_ok st" and "run_fds os own st"
    and "run_places os st"
  shows "srv_ok st' \<and> run_places os st'"
proof -
  have "srv_ok st' \<and> run_fds os own st' \<and> run_places os st'"
    using assms(1)
  proof (induction rule: rtranclp_induct)
    case (step st1 st2)
    then show ?case
      using fd_run_ok [OF r_into_rtranclp [of "fd_step os own", OF step.hyps(2)] assms(2,3)] fd_step_places [OF step.hyps(2) assms(2,3)] by blast
  qed (use assms(4-6) in simp)
  then show ?thesis by blast
qed

lemma initialize_bytes:
  assumes "init_comes_up os st" and "trace st = []" and "initialize os st = Some st0"
  shows "waiting_bytes st0 = []"
  using initialize_trace [OF assms] by (auto simp: pipe_bytes_def)

text \<open>
  C3: the polling thread does not get stuck. In every run from \<open>initialize\<close>, by any turns of the polling thread and
  requests of other threads, the next turn has a result and leaves the server well formed, unless the oldest
  request in the pipe is a send to a listener, a close of a number that is only reserved, or an open whose
  address list is overrun or whose descriptor epoll refuses, or a slot is read that is only reserved or whose read size
  would overflow: no assertion fails and no null pointer is used in any other state.
\<close>

theorem polling_progress:
  assumes "epoll_law os" and "fd_law os own" and "init_comes_up os st" and "length (ev st) = MAX_EVENT" and "trace st = []"
    and "initialize os st = Some st0" and "pipe_law os (sendctrl_fd st0) (recvctrl_fd st0)"
    and "select_law os (sendctrl_fd st0) (recvctrl_fd st0)" and "recvctrl_fd st0 \<in> own" and "- 1 \<in> own"
    and "(fd_step os own)\<^sup>*\<^sup>* st0 st'"
  shows "(\<exists>t. poll_turn os stk st' m mr = Some t \<and> srv_ok (turn_state t)) \<or>
    (\<exists>req reqs n. pipe_holds st' (req # reqs) \<and>
      refused os req (st'\<lparr>trace := trace st' @ [Select (recvctrl_fd st'), Read (recvctrl_fd st') 2, Read (recvctrl_fd st') n]\<rparr>)) \<or>
    (\<exists>k < MAX_SOCKET. \<exists>calls. set calls \<subseteq> {Select (recvctrl_fd st'), Epoll_wait (event_fd st') MAX_EVENT} \<and>
      read_fails os k (st'\<lparr>trace := trace st' @ calls\<rparr>))"
proof -
  have init: "srv_ok st0 \<and> run_fds os own st0" by (rule initialize_fds [OF assms(3-10)])
  have "run_places os st0" by (rule run_places_initially [OF assms(7,8) initialize_bytes [OF assms(3,5,6)]])
  with fd_run_places [OF assms(11,1,2)] init have ok: "srv_ok st'" "run_places os st'" by simp_all
  have kept: "srv_ok (turn_state t)" if "poll_turn os stk st' m mr = Some t" for t
    using safe_srv_ok [OF server_step_safe [OF server_step.turn [OF that] assms(1)]] ok(1) by simp
  from poll_turn_runs [OF assms(1) ok, of stk m mr] kept show ?thesis by (auto simp: stuck_def)
qed

text \<open>After \<open>initialize\<close> no cause is there: the turn returns.\<close>

lemma fd_os_reads: "\<not> read_fails fd_os k st"
  by (simp add: read_fails_def Let_def null_reply_def)

theorem polling_progress_witness:
  "\<exists>st0 t. initialize fd_os blank_server = Some st0 \<and> poll_turn fd_os (\<lambda>_. []) st0 blank_message 0 = Some t"
proof -
  obtain st0 where st0: "initialize fd_os blank_server = Some st0"
    using initialize_up [OF fd_os_laws(5) blank_events(1)] blank_events(2) by auto
  have c: "sendctrl_fd st0 = 5 \<and> recvctrl_fd st0 = 4"
    using st0 blank_events(2)
    by (auto simp: initialize_def ep_create_def ep_invalid_def ep_add_def sys_split Let_def init_slots_rest null_reply_def
        blank_server_def split: if_splits)
  have "\<not> pipe_holds st0 (req # reqs)" for req reqs
    using initialize_bytes [OF fd_os_laws(5) blank_events(2) st0] by (auto simp: pipe_holds_def list_all2_Cons2 is_frame_def)
  with polling_progress [OF fd_os_laws(4,1,5) blank_events st0 _ _ _ _ rtranclp.rtrancl_refl, of "\<lambda>_. []" blank_message 0]
    fd_os_laws(2,3) c fd_os_reads st0 show ?thesis by auto
qed

end
