(* ===== verification/Spec2Isabelle.thy ===== *)
theory Spec2Isabelle
  imports Prelude Byte_Fifo Ring_Buffer Name_Ctrl Name_Service Path_Queue Path_Graph Dijkstra
    Socket_Base Socket_Table Socket_Request Socket_Handlers Socket_Poll Socket_Safety Socket_Run
    Socket_Wire Socket_Theorems
    Core_Random Thread_Safe_Queue Thread_Pool Bounded_System Zmq_Wire Canna_Core Daemon Path_Main
    Name_Sockets DB_Server LB_Broker Peering_Broker Cluster_Broker Router_Req Task_Pipeline
    Message_Demos Socket_Sends Gate_Demo Router_Pair
    Socket_Reserve Write_List Broker_Setup Peering_System Cluster_System Name_System Redis_Client DB_Main
    Router_Routes Router_Dealer Async_System Pipeline_System Addresses Identity_Check
    Test_Programs Socket_Descriptors Socket_Progress
begin

text \<open>
  A verification development for canna, a set of small network servers in C++ with the classes they
  share. The definitions follow the source statement by statement; paths below are relative to the
  source tree.

  \<^bold>\<open>The program\<close>

  \<^item> \<^verbatim>\<open>core/\<close>: the byte ring buffer, the random generator, the blocking queue and the thread pool, the
    ZeroMQ and time helpers, and the daemon start. Everything else is built on these.
  \<^item> \<^verbatim>\<open>gateserver/\<close>: the gate server. Other threads write requests as byte packages into a pipe;
    the poll loop takes them out, carries them out on a table of 65536 socket slots, and turns epoll events
    into messages.
  \<^item> \<^verbatim>\<open>nameserver/\<close> and \<^verbatim>\<open>routers/\<close>: a server that allots names, up to 256 for each group, and the
    router that asks it over a ZeroMQ request socket.
  \<^item> \<^verbatim>\<open>pathserver/\<close>: shortest paths on a weighted graph, and a demonstration of the thread pool.
  \<^item> \<^verbatim>\<open>dbserver/\<close>: a ZeroMQ front of a Redis database.
  \<^item> \<^verbatim>\<open>example/\<close>: message brokers with their clients and workers, and smaller message programs.

  \<^bold>\<open>Theories\<close>

  \<^item> \<open>Prelude\<close>: machine types, copies with bounds checks, lists as circular memory, words.
  \<^item> \<open>Byte_Fifo\<close>, \<open>Ring_Buffer\<close>: the contract of a bounded byte queue as a locale, and
    \<^verbatim>\<open>core/ringbuffer.cpp\<close>, which is interpreted as one: every session of writes and reads answers as a
    first-in first-out queue of 65535 bytes.
  \<^item> \<open>Core_Random\<close>: \<^verbatim>\<open>core/canna_random.h\<close>. The seed sequence has period \<open>2 ^ 32\<close>; the
    intervals of the draws.
  \<^item> \<open>Thread_Safe_Queue\<close>: \<^verbatim>\<open>core/thread_safe_queue.h\<close> with its condition variable as sets of sleeping and
    woken threads. Order of the items in every interleaving, and no lost wake-up. The locale \<open>work_queue\<close> is the
    contract its clients use.
  \<^item> \<open>Thread_Pool\<close>: \<^verbatim>\<open>core/thread_pool.h\<close>, one step of a worker for each access to shared state. Order of the
    starts, progress of the workers, and the end of the destructor.
  \<^item> \<open>Zmq_Wire\<close>, \<open>Canna_Core\<close>, \<open>Daemon\<close>: \<^verbatim>\<open>core/canna_core.cpp\<close> and \<^verbatim>\<open>core/canna_daemon.cpp\<close>. Sockets are
    inboxes and an outbox of frames with the flag that more follow. The dump can be read back, the random macro is bounded in single precision, the
    double fork keeps one process.
  \<^item> \<open>Name_Ctrl\<close>, \<open>Name_Service\<close>, \<open>Name_Sockets\<close>: the allocator (contract as a locale over one counter for
    each group), the request loop over frames with the router's lookup, and the loop on its sockets, which
    implements it; \<open>Name_System\<close>: any number of routers asking the server at the same time, every one of which prints its
    list. \<open>Redis_Client\<close>: the class of \<^verbatim>\<open>nameserver/redis_client.cpp\<close> and the contexts it holds.
  \<^item> \<open>Path_Queue\<close>, \<open>Path_Graph\<close>, \<open>Dijkstra\<close>, \<open>Path_Main\<close>: the contract of a priority queue, the graph, both
    searches with checked signed arithmetic, and what main does with them and with the pool.
  \<^item> \<open>Socket_Base\<close>: data of the gate server and its operating system; \<open>Socket_Table\<close>: the slots
    (\<^verbatim>\<open>reserve_id\<close>); \<open>Socket_Request\<close>: the operations other threads call, down to the bytes of the pipe;
    \<open>Socket_Handlers\<close>: one definition for each request and event handler; \<open>Socket_Poll\<close>: set-up, the pipe's reader, and the loop turn by turn.
  \<^item> \<open>Socket_Safety\<close>, \<open>Socket_Run\<close>: the locale \<open>handler\<close>, what every handler keeps, with an
    interpretation for each, and the invariant of whole runs. \<open>Socket_Wire\<close>: requests written and
    read back. \<open>Socket_Theorems\<close>: what a user of the server sees. \<open>Socket_Sends\<close>: any interleaving of send
    requests with the polling thread writes the blocks in order. \<open>Socket_Reserve\<close>: calls of \<^verbatim>\<open>reserve_id\<close> from
    several threads, one access to shared memory in each step. \<open>Write_List\<close>: the write buffers as linked nodes in memory,
    which implement the lists the handlers use. \<open>Socket_Descriptors\<close>: who owns each file descriptor, over the calls
    made so far: none is closed twice, used after it was closed, or closed when it is only lent. \<open>Socket_Progress\<close>: every
    state in which a turn of the polling thread has no result, that is, would fail an assertion or use a null pointer. \<open>Gate_Demo\<close>: both threads of \<^verbatim>\<open>gateserver/test.cpp\<close>,
    from the start of main to the first line it prints.
  \<^item> \<open>DB_Server\<close>, \<open>DB_Main\<close>: the loop of \<^verbatim>\<open>dbserver/main.cpp\<close>, and the whole program with every way its start can end.
  \<^item> \<open>Bounded_System\<close>: systems whose steps use up an effort, as a locale. \<open>LB_Broker\<close>
    (\<^verbatim>\<open>example/lbbroker.cpp\<close>) and \<open>Router_Req\<close> (\<^verbatim>\<open>example/routerreq.cpp\<close>, \<^verbatim>\<open>example/routerdealer.cpp\<close>)
    are such systems of a broker with its clients and workers: every run is bounded and ends with all of them
    served. \<open>Peering_Broker\<close> (\<^verbatim>\<open>example/peering1.cpp\<close>) and \<open>Cluster_Broker\<close> (\<^verbatim>\<open>example/cluster.cpp\<close>) are
    loops under any arrivals; \<open>Broker_Setup\<close> has the addresses they form from names in buffers of 64 bytes, \<open>Peering_System\<close>
    and \<open>Cluster_System\<close> the brokers with their clients and workers: the one answers every question, the other serves
    nobody. \<open>Router_Dealer\<close>: the broker of DEALER workers has the runs of the one of REQ workers.
  \<^item> \<open>Task_Pipeline\<close>, \<open>Message_Demos\<close>: the ventilator, worker and sink; the asynchronous client and
    worker, and the state exchange of \<^verbatim>\<open>example/peering.cpp\<close>. \<open>Router_Pair\<close>: the loops of
    \<^verbatim>\<open>example/rrnode.cpp\<close> and \<^verbatim>\<open>example/rrclient.cpp\<close>. \<open>Pipeline_System\<close>, \<open>Async_System\<close>, \<open>Router_Routes\<close>: the same programs
    connected to each other, in any order of their steps. \<open>Identity_Check\<close>: \<^verbatim>\<open>example/identitycheck.cpp\<close>. \<open>Addresses\<close>:
    the endpoints all these programs bind and connect to. \<open>Test_Programs\<close>: the clients that try out the name server and the
    database server, each with its server, and the address book of \<^verbatim>\<open>protos/test_proto.cpp\<close>.

  \<^bold>\<open>How behaviour is represented\<close>

  \<^item> Machine integers are words where they wrap, and \<open>int\<close> with a range check where signed overflow would
    be undefined. Undefined behaviour (an index or a copy outside its array, a null pointer, \<open>front\<close> of an empty
    queue, a failed assertion) and a receive that blocks for ever have the result \<open>None\<close>.
  \<^item> The operating system of the gate server is a function from the calls made so far and the next
    call to its reply, and the state keeps the calls made. The function is arbitrary, so that a
    reply can depend on everything that happened; what a theorem needs of it is among its assumptions.
  \<^item> ZeroMQ contributes whole messages and the documented envelopes of its sockets: an identity in front on
    a ROUTER socket, an empty delimiter on a REQ socket, lock step on a REP socket. Protobuf and Redis are function
    arguments; of protobuf only the round trip is used. Clocks and \<open>random()\<close> are inputs.
  \<^item> Concurrency is a step relation, or a list of events, in any order; a step is one access to shared
    state, or one operation under its lock. Properties hold for all interleavings.

  \<^bold>\<open>Loops and bounds\<close>

  Loops over data are structural. \<open>reserve_loop\<close> counts down from \<open>MAX_SOCKET\<close>, as its code does. Loops
  that may not end (the search for a clear serial, both path searches, the retry of a pipe write, the poll) are
  \<open>partial_function\<close>s, and that they return, or do not, is proved of them. The endless main
  loops are runs over any number of passes. The brokers' runs are bounded by six steps for each client and two
  for each worker (\<open>LB_Broker\<close>), by four for each worker and three for each task given (\<open>Router_Req\<close>), and by
  twice the arrivals and two passes (\<open>Peering_Broker\<close>); with its threads, by four for each worker, seven for each
  question and one for each message of a peer, and one more (\<open>Peering_System\<close>). A lookup takes three steps
  (\<open>Name_System\<close>), the pipeline 302 (\<open>Pipeline_System\<close>). The \<open>n\<close> calls of \<^verbatim>\<open>reserve_id\<close> in progress make together at most
  \<open>n * (4 * 65536 + 3 + 4 * n)\<close> steps and one for each step of the owners of slots, as a compare-and-swap fails only when the
  slot has been taken since it was looked at.

  \<^bold>\<open>Not modelled\<close>

  \<^item> Printing and logging, except where the text is what a part is about (the ring buffer's self-test, the dump, identities, workloads).
  \<^item> Names from name resolution are opaque.
  \<^item> The UDP constants of the gate server, and \<^verbatim>\<open>ThreadSafeQueue::empty\<close>, which nothing calls; the latter would
    not compile.
  \<^item> Destructors that only free memory, and thread creation in the examples.
  \<^item> Tasks of the pool that throw, and threads other than the poll loop inside the gate server's handlers.

  \<^bold>\<open>What does not hold\<close>

  Some properties state a defect as the code has it: the length byte of a connect request
  wraps, a short send loses its rest, the peer's end is not reported, a failing address list is overrun, \<^verbatim>\<open>Full\<close> of
  the ring buffer tests the wrong condition, the cluster broker loses every second worker and serves nobody, a name that is too long for its address overruns the buffer, the name
  server and the database server bind the same port, a stale number can abort a close during a reservation, an oversized
  database request ends the server, a descriptor stays open when epoll refuses a socket that is started, the random macro reaches its bound, the daemon is the session
  leader. Each is proved of the definitions that model the code.
\<close>

end
